(* ===== verification/Prelude.thy ===== *)
theory Prelude
  imports Main "HOL-Library.Word"
begin

unbundle bit_operations_syntax

text \<open>
  Shared vocabulary of the development: the machine integers and byte strings of the Rust
  sources, the \<open>Result\<close> type and its \<open>?\<close> operator, the byte-buffer writers behind every
  \<open>encode\<close> method, big-endian conversions, and the lemmas on them that the component
  theories share.  Rust's \<open>usize\<close> is the 64-bit one; positions and lengths of byte slices,
  which are bounded by the address space, are natural numbers.
\<close>

type_synonym u8 = "8 word"
type_synonym u16 = "16 word"
type_synonym u32 = "32 word"
type_synonym u64 = "64 word"
type_synonym usize = "64 word"
type_synonym bytes = "u8 list"

named_theorems word_nat \<open>rules that move word equations to natural numbers\<close>

section \<open>Results\<close>

text \<open>\<open>and_then r k\<close> is \<open>let x = r?; k x\<close>.\<close>

definition and_then :: "'e + 'a \<Rightarrow> ('a \<Rightarrow> 'e + 'b) \<Rightarrow> 'e + 'b" where
  "and_then r k = (case r of Inl e \<Rightarrow> Inl e | Inr x \<Rightarrow> k x)"

definition map_err :: "('e \<Rightarrow> 'f) \<Rightarrow> 'e + 'a \<Rightarrow> 'f + 'a" where
  "map_err f r = (case r of Inl e \<Rightarrow> Inl (f e) | Inr x \<Rightarrow> Inr x)"

definition ok_or :: "'e \<Rightarrow> 'a option \<Rightarrow> 'e + 'a" where
  "ok_or e x = (case x of None \<Rightarrow> Inl e | Some y \<Rightarrow> Inr y)"

section \<open>Byte-buffer writers\<close>

text \<open>
  An \<open>encode\<close> method gets \<open>&mut Vec<u8>\<close> and returns \<open>Result<(), _>\<close>: the model returns the
  result together with the buffer, so that what a failing encoder has already pushed stays
  visible.  \<open>run_enc\<close> is a sequence of statements each followed by \<open>?\<close>.
\<close>

type_synonym 'e writer = "bytes \<Rightarrow> ('e + unit) \<times> bytes"

definition push_bytes :: "bytes \<Rightarrow> 'e writer" where
  "push_bytes bs buf = (Inr (), buf @ bs)"

fun run_enc :: "'e writer list \<Rightarrow> 'e writer" where
  "run_enc [] buf = (Inr (), buf)"
| "run_enc (w # ws) buf =
     (case w buf of (Inl e, b) \<Rightarrow> (Inl e, b) | (Inr _, b) \<Rightarrow> run_enc ws b)"

section \<open>Integer primitives of the standard library\<close>

definition saturating_sub :: "'a::len word \<Rightarrow> 'a word \<Rightarrow> 'a word" where
  "saturating_sub a b = (if b \<le> a then a - b else 0)"

definition saturating_add :: "'a::len word \<Rightarrow> 'a word \<Rightarrow> 'a word" where
  "saturating_add a b = (if unat a + unat b < 2 ^ LENGTH('a) then a + b else - 1)"

definition checked_sub :: "'a::len word \<Rightarrow> 'a word \<Rightarrow> 'a word option" where
  "checked_sub a b = (if b \<le> a then Some (a - b) else None)"

definition checked_add :: "'a::len word \<Rightarrow> 'a word \<Rightarrow> 'a word option" where
  "checked_add a b = (if unat a + unat b < 2 ^ LENGTH('a) then Some (a + b) else None)"

text \<open>\<open>from_be_bytes\<close> and \<open>to_be_bytes\<close> of the unsigned integer types.\<close>

definition from_be_bytes :: "bytes \<Rightarrow> 'a::len word" where
  "from_be_bytes bs = foldl (\<lambda>acc b. push_bit 8 acc OR ucast b) 0 bs"

definition to_be_bytes :: "nat \<Rightarrow> 'a::len word \<Rightarrow> bytes" where
  "to_be_bytes n v = map (\<lambda>i. ucast (drop_bit (8 * i) v)) (rev [0..<n])"

section \<open>Lemmas on results and writers\<close>

lemma and_then_simps [simp]:
  "and_then (Inr x) k = k x"
  "and_then (Inl e) k = Inl e"
  by (simp_all add: and_then_def)

lemma and_then_eq_Inr: "and_then r k = Inr y \<longleftrightarrow> (\<exists>x. r = Inr x \<and> k x = Inr y)"
  by (cases r) simp_all

lemma and_thenE:
  assumes "and_then r k = Inr y"
  obtains x where "r = Inr x" and "k x = Inr y"
  using assms by (auto simp: and_then_eq_Inr)

lemma and_then_cong [fundef_cong]:
  "r = r' \<Longrightarrow> (\<And>x. r' = Inr x \<Longrightarrow> k x = k' x) \<Longrightarrow> and_then r k = and_then r' k'"
  by (cases r) auto

lemma map_err_simps [simp]:
  "map_err f (Inr x) = Inr x"
  "map_err f (Inl e) = Inl (f e)"
  by (simp_all add: map_err_def)

lemma map_err_eq_Inr [simp]: "map_err f r = Inr y \<longleftrightarrow> r = Inr y"
  by (cases r) simp_all

lemma ok_or_simps [simp]:
  "ok_or e None = Inl e"
  "ok_or e (Some y) = Inr y"
  by (simp_all add: ok_or_def)

lemma ok_or_eq_Inr [simp]: "ok_or e x = Inr y \<longleftrightarrow> x = Some y"
  by (cases x) simp_all

lemma run_enc_append:
  "run_enc (ws @ vs) buf =
     (case run_enc ws buf of (Inl e, b) \<Rightarrow> (Inl e, b) | (Inr _, b) \<Rightarrow> run_enc vs b)"
  by (induction ws arbitrary: buf) (auto split: prod.splits sum.splits)

text \<open>\<open>writes w out\<close>: the writer succeeds on every buffer and appends exactly \<open>out\<close>.\<close>

definition writes :: "'e writer \<Rightarrow> bytes \<Rightarrow> bool" where
  "writes w out \<longleftrightarrow> (\<forall>buf. w buf = (Inr (), buf @ out))"

lemma writesD: "writes w out \<Longrightarrow> w buf = (Inr (), buf @ out)"
  by (simp add: writes_def)

lemma writes_push_bytes [simp, intro]: "writes (push_bytes bs) bs"
  by (simp add: writes_def push_bytes_def)

lemma writes_run_enc_Nil [simp, intro]: "writes (run_enc []) []"
  by (simp add: writes_def)

lemma writes_run_enc_Cons [intro]:
  "writes w out \<Longrightarrow> writes (run_enc ws) outs \<Longrightarrow> writes (run_enc (w # ws)) (out @ outs)"
  by (simp add: writes_def)

section \<open>Lemmas on lists and words\<close>

lemma drop_length_add_append [simp]: "drop (length xs + n) (xs @ ys) = drop n ys"
  by simp

lemma drop_length_add_append_Suc [simp]: "drop (Suc (length xs + n)) (xs @ ys) = drop (Suc n) ys"
  by simp

lemma take_length_append [simp]: "take (length xs) (xs @ ys) = xs"
  by simp

lemma nth_length_append [simp]: "(xs @ y # ys) ! length xs = y"
  by simp

lemma unat_saturating_sub [word_nat, simp]: "unat (saturating_sub a b) = unat a - unat b"
  by (simp add: saturating_sub_def unat_sub word_le_nat_alt)

lemma unat_saturating_add [word_nat]:
  "unat (saturating_add a (b :: 'a::len word)) = min (unat a + unat b) (2 ^ LENGTH('a) - 1)"
  by (auto simp: saturating_add_def unat_word_ariths unsigned_minus_1_eq_mask mask_eq_exp_minus_1)

lemma checked_sub_eq_Some [simp]:
  "checked_sub a b = Some c \<longleftrightarrow> b \<le> a \<and> c = a - b"
  by (auto simp: checked_sub_def)

lemma checked_add_Some_unat:
  "checked_add a (b :: 'a::len word) = Some c \<Longrightarrow> unat c = unat a + unat b"
  by (auto simp: checked_add_def unat_word_ariths split: if_splits)

lemma unat_drop_bit_div [word_nat]: "unat (drop_bit k (v :: 'a::len word)) = unat v div 2 ^ k"
  by (subst unat_drop_bit_eq) (simp add: drop_bit_eq_div)

lemma unat_ucast_u8_drop_bit [word_nat]:
  "unat (ucast (drop_bit k (v :: 'a::len word)) :: u8) = unat v div 2 ^ k mod 256"
  by (simp add: unsigned_ucast_eq unat_drop_bit_div take_bit_eq_mod)

lemma unat_ucast_u8 [word_nat]: "unat (ucast (v :: 'a::len word) :: u8) = unat v mod 256"
  using unat_ucast_u8_drop_bit [of 0 v] by simp

lemma unat_u8_less [simp]: "unat (b :: u8) < 256"
  using unsigned_less [of b] by simp

lemma unat_u64_less: "unat (x :: u64) < 2 ^ 64"
  using unsigned_less [of x] by simp

lemma unat_u64_less_num: "unat (x :: u64) < 18446744073709551616"
  using unat_u64_less [of x] by simp

lemma unat_and_mask: "unat ((v :: u64) AND mask n) = unat v mod 2 ^ n"
proof -
  have "unat (v AND mask n) = take_bit n (unat v)"
    unfolding take_bit_eq_mask [symmetric] by (rule unsigned_take_bit_eq)
  then show ?thesis by (simp add: take_bit_eq_mod [of n "unat v"])
qed

lemma unat_ucast_u8_u64 [simp]: "unat (ucast (b :: u8) :: u64) = unat b"
  using unat_u8_less [of b] by (simp add: unsigned_ucast_eq take_bit_eq_mod del: unat_u8_less)

lemma ucast_u8_u64_inverse [simp]: "(ucast (ucast (b :: u8) :: u64) :: u8) = b"
  by (rule word_unat_eq_iff [THEN iffD2]) (simp add: unsigned_ucast_eq [of "ucast b :: u64"] take_bit_eq_mod)

lemma length_to_be_bytes [simp]: "length (to_be_bytes n v) = n"
  by (simp add: to_be_bytes_def)

text \<open>The numeric value of a big-endian byte string.\<close>

definition be_val :: "bytes \<Rightarrow> nat" where
  "be_val bs = foldl (\<lambda>acc b. acc * 256 + unat b) 0 bs"

lemma be_val_snoc [simp]: "be_val (bs @ [b]) = be_val bs * 256 + unat b"
  by (simp add: be_val_def)

lemma be_val_Nil [simp]: "be_val [] = 0"
  by (simp add: be_val_def)

lemma be_val_less: "be_val bs < 256 ^ length bs"
proof (induction bs rule: rev_induct)
  case Nil
  then show ?case by simp
next
  case (snoc b bs)
  have "be_val bs + 1 \<le> 256 ^ length bs" using snoc by simp
  then have "(be_val bs + 1) * 256 \<le> 256 ^ length bs * 256" by (rule mult_le_mono1)
  then show ?case using unat_u8_less [of b] by (simp add: algebra_simps del: unat_u8_less)
qed

lemma be_val_Cons: "be_val (b # bs) = unat b * 256 ^ length bs + be_val bs"
proof (induction bs rule: rev_induct)
  case Nil
  then show ?case by (simp add: be_val_def)
next
  case (snoc c bs)
  have "be_val (b # bs @ [c]) = be_val (b # bs) * 256 + unat c"
    using be_val_snoc [of "b # bs" c] by simp
  then show ?case using snoc by (simp add: algebra_simps)
qed

lemma be_val_Cons_less:
  assumes "unat b < k" shows "be_val (b # bs) < k * 256 ^ length bs"
proof -
  have "(unat b + 1) * 256 ^ length bs \<le> k * 256 ^ length bs"
    using assms by (intro mult_le_mono1) simp
  then show ?thesis using be_val_less [of bs] by (simp add: be_val_Cons algebra_simps)
qed

lemma shift_or_byte:
  assumes "unat (acc :: 'a::len word) * 256 + 256 \<le> 2 ^ LENGTH('a)"
  shows "unat (push_bit 8 acc OR ucast (b :: u8)) = unat acc * 256 + unat b"
proof -
  have lt: "unat b < 256" by (rule unat_u8_less)
  have "unat acc * 256 < 2 ^ LENGTH('a)" "256 \<le> (2::nat) ^ LENGTH('a)" using assms by simp_all
  moreover have "unat (ucast b :: 'a word) = unat b"
    using lt order.strict_trans2 [OF lt calculation(2)]
    by (simp add: unsigned_ucast_eq take_bit_eq_mod)
  ultimately have "unat (push_bit 8 acc OR ucast b) = push_bit 8 (unat acc) OR unat b"
    unfolding unsigned_or_eq unsigned_push_bit_eq
    by (simp add: take_bit_eq_mod push_bit_eq_mult [where 'a = nat])
  also have "\<dots> = push_bit 8 (unat acc) + unat b"
  proof (rule disjunctive_add [symmetric])
    fix n
    have "bit (unat b) n \<Longrightarrow> n < 8"
      using bit_imp_le_length [of b n] by (simp add: bit_unsigned_iff)
    then show "\<not> bit (push_bit 8 (unat acc)) n \<or> \<not> bit (unat b) n"
      by (auto simp: bit_push_bit_iff)
  qed
  finally show ?thesis by (simp add: push_bit_eq_mult)
qed

lemma unat_from_be_bytes [word_nat]:
  assumes "8 * length bs \<le> LENGTH('a::len)"
  shows "unat (from_be_bytes bs :: 'a word) = be_val bs"
  using assms
proof (induction bs rule: rev_induct)
  case Nil
  then show ?case by (simp add: from_be_bytes_def)
next
  case (snoc b bs)
  let ?a = "from_be_bytes bs :: 'a word"
  have IH: "unat ?a = be_val bs" using snoc by simp
  have "be_val bs + 1 \<le> 256 ^ length bs" using be_val_less [of bs] by simp
  then have "(be_val bs + 1) * 256 \<le> 256 ^ length bs * 256" by (rule mult_le_mono1)
  also have "\<dots> = 2 ^ (8 * length (bs @ [b]))" by (simp add: power_mult power_add)
  also have "\<dots> \<le> 2 ^ LENGTH('a)" using snoc.prems by (intro power_increasing) auto
  finally have "unat ?a * 256 + 256 \<le> 2 ^ LENGTH('a)" by (simp add: IH algebra_simps)
  then show ?case using shift_or_byte [of ?a b] IH by (simp add: from_be_bytes_def)
qed

lemma to_be_bytes_Suc: "to_be_bytes (Suc n) v = to_be_bytes n (drop_bit 8 v) @ [ucast v]"
proof -
  have "[0..<Suc n] = 0 # map Suc [0..<n]"
    by (simp add: upt_conv_Cons map_Suc_upt del: upt_Suc)
  then show ?thesis by (simp add: to_be_bytes_def rev_map add.commute del: upt_Suc)
qed

lemma be_val_to_be_bytes [simp]: "be_val (to_be_bytes n v) = unat v mod 256 ^ n"
proof (induction n arbitrary: v)
  case 0
  then show ?case by (simp add: to_be_bytes_def)
next
  case (Suc n)
  have "unat (drop_bit 8 v) = unat v div 256"
    by (simp add: unat_drop_bit_div)
  then show ?case
    by (simp add: to_be_bytes_Suc Suc.IH mod_mult2_eq unat_ucast_u8)
qed

end
