(* ===== verification/Quic_Error.thy ===== *)
theory Quic_Error
  imports Prelude
begin

text \<open>
  The error type of the QUIC crate (\<open>starfish-quic/src/error.rs\<close>): the transport error codes
  of RFC 9000 with their numeric form and their printed names, and \<open>QuicError\<close>.  The payloads
  \<open>std::io::Error\<close> and \<open>rustls::Error\<close> are opaque.  A message built with \<open>format!\<close> is kept as
  its format string and arguments.
\<close>

datatype TransportErrorCode =
    NoError
  | InternalError
  | ConnectionRefused
  | FlowControlError
  | StreamLimitError
  | StreamStateError
  | FinalSizeError
  | FrameEncodingError
  | TransportParameterError
  | ConnectionIdLimitError
  | ProtocolViolation
  | InvalidToken
  | ApplicationError
  | CryptoBufferExceeded
  | KeyUpdateError
  | AeadLimitReached
  | NoViablePath
  | CryptoError u8

definition from_u64 :: "u64 \<Rightarrow> TransportErrorCode" where
  "from_u64 code =
     (if code = 0x00 then NoError
      else if code = 0x01 then InternalError
      else if code = 0x02 then ConnectionRefused
      else if code = 0x03 then FlowControlError
      else if code = 0x04 then StreamLimitError
      else if code = 0x05 then StreamStateError
      else if code = 0x06 then FinalSizeError
      else if code = 0x07 then FrameEncodingError
      else if code = 0x08 then TransportParameterError
      else if code = 0x09 then ConnectionIdLimitError
      else if code = 0x0a then ProtocolViolation
      else if code = 0x0b then InvalidToken
      else if code = 0x0c then ApplicationError
      else if code = 0x0d then CryptoBufferExceeded
      else if code = 0x0e then KeyUpdateError
      else if code = 0x0f then AeadLimitReached
      else if code = 0x10 then NoViablePath
      else if 0x0100 \<le> code \<and> code \<le> 0x01ff then CryptoError (ucast (code - 0x0100))
      else InternalError)"

fun to_u64 :: "TransportErrorCode \<Rightarrow> u64" where
  "to_u64 NoError = 0x00"
| "to_u64 InternalError = 0x01"
| "to_u64 ConnectionRefused = 0x02"
| "to_u64 FlowControlError = 0x03"
| "to_u64 StreamLimitError = 0x04"
| "to_u64 StreamStateError = 0x05"
| "to_u64 FinalSizeError = 0x06"
| "to_u64 FrameEncodingError = 0x07"
| "to_u64 TransportParameterError = 0x08"
| "to_u64 ConnectionIdLimitError = 0x09"
| "to_u64 ProtocolViolation = 0x0a"
| "to_u64 InvalidToken = 0x0b"
| "to_u64 ApplicationError = 0x0c"
| "to_u64 CryptoBufferExceeded = 0x0d"
| "to_u64 KeyUpdateError = 0x0e"
| "to_u64 AeadLimitReached = 0x0f"
| "to_u64 NoViablePath = 0x10"
| "to_u64 (CryptoError alert) = 0x0100 + ucast alert"

text \<open>\<open>{:02x}\<close> of a byte.\<close>

definition hex_digit :: "nat \<Rightarrow> char" where
  "hex_digit n = ''0123456789abcdef'' ! n"

definition hex2 :: "u8 \<Rightarrow> string" where
  "hex2 b = [hex_digit (unat b div 16), hex_digit (unat b mod 16)]"

fun display_code :: "TransportErrorCode \<Rightarrow> string" where
  "display_code NoError = ''NO_ERROR''"
| "display_code InternalError = ''INTERNAL_ERROR''"
| "display_code ConnectionRefused = ''CONNECTION_REFUSED''"
| "display_code FlowControlError = ''FLOW_CONTROL_ERROR''"
| "display_code StreamLimitError = ''STREAM_LIMIT_ERROR''"
| "display_code StreamStateError = ''STREAM_STATE_ERROR''"
| "display_code FinalSizeError = ''FINAL_SIZE_ERROR''"
| "display_code FrameEncodingError = ''FRAME_ENCODING_ERROR''"
| "display_code TransportParameterError = ''TRANSPORT_PARAMETER_ERROR''"
| "display_code ConnectionIdLimitError = ''CONNECTION_ID_LIMIT_ERROR''"
| "display_code ProtocolViolation = ''PROTOCOL_VIOLATION''"
| "display_code InvalidToken = ''INVALID_TOKEN''"
| "display_code ApplicationError = ''APPLICATION_ERROR''"
| "display_code CryptoBufferExceeded = ''CRYPTO_BUFFER_EXCEEDED''"
| "display_code KeyUpdateError = ''KEY_UPDATE_ERROR''"
| "display_code AeadLimitReached = ''AEAD_LIMIT_REACHED''"
| "display_code NoViablePath = ''NO_VIABLE_PATH''"
| "display_code (CryptoError alert) = ''CRYPTO_ERROR(0x'' @ hex2 alert @ '')''"

datatype fmt_arg = NumArg u64 | StrArg string

datatype message = Msg string | Fmt string "fmt_arg list"

typedecl io_error
typedecl tls_error

datatype QuicError =
    Io io_error
  | Tls tls_error
  | Transport TransportErrorCode message
  | InvalidPacket message
  | StreamReset u64
  | ConnectionClosed TransportErrorCode message
  | ConnectionDraining
  | InvalidFrame message
  | BufferTooSmall

text \<open>Every code survives the trip to its number and back.\<close>

lemma unat_alert: "unat (0x0100 + ucast (a :: u8) :: u64) = 256 + unat a"
  using unat_u8_less [of a] by (simp add: unat_word_ariths del: unat_u8_less)

lemma ucast_alert_range:
  "(0x0100 :: u64) \<le> 0x0100 + ucast (a :: u8) \<and> 0x0100 + ucast a \<le> (0x01ff :: u64)"
  using unat_u8_less [of a] by (simp add: word_le_nat_alt unat_alert del: unat_u8_less)

lemma ucast_alert_not_small:
  "n < 0x0100 \<Longrightarrow> 0x0100 + ucast (a :: u8) \<noteq> (n :: u64)"
  using ucast_alert_range [of a] by auto

theorem error_code_roundtrip: "from_u64 (to_u64 e) = e"
proof (cases e)
  case (CryptoError a)
  then show ?thesis using ucast_alert_range [of a]
    by (simp add: from_u64_def ucast_alert_not_small)
qed (simp_all add: from_u64_def)

lemma to_u64_crypto: "0x100 \<le> code \<Longrightarrow> code \<le> 0x1ff \<Longrightarrow> 0x0100 + ucast (ucast (code - 0x0100) :: u8) = (code :: u64)"
proof -
  assume "0x100 \<le> code" "code \<le> 0x1ff"
  then have "256 \<le> unat code" "unat code \<le> 511" "unat (code - 0x100) = unat code - 256"
    by (simp_all add: word_le_nat_alt unat_sub)
  then have "unat (0x0100 + ucast (ucast (code - 0x0100) :: u8) :: u64) = unat code"
    by (simp add: unat_alert unat_ucast_u8)
  then show ?thesis by (simp add: word_unat_eq_iff)
qed

lemma to_from_u64:
  "0x100 \<le> code \<Longrightarrow> code \<le> 0x1ff \<Longrightarrow> to_u64 (from_u64 code) = code"
  using to_u64_crypto [of code] by (auto simp: from_u64_def)

end
