(* ===== verification/Varint.thy ===== *)
theory Varint
  imports Quic_Error
begin

text \<open>
  Variable-length integers (\<open>starfish-quic/src/packet/mod.rs\<close>, RFC 9000 section 16): the
  encoder, the decoder and the length function, their round trip, the range of what is
  decoded and the minimality of the encoding.
\<close>

definition MAX_VARINT :: u64 where
  "MAX_VARINT = push_bit 62 1 - 1"

definition encode_varint :: "u64 \<Rightarrow> QuicError writer" where
  "encode_varint value buf =
     (if value > MAX_VARINT
      then (Inl (InvalidFrame (Fmt ''varint value {value} exceeds QUIC maximum {MAX_VARINT}''
                                 [NumArg value, NumArg MAX_VARINT])), buf)
      else if value < 0x40 then (Inr (), buf @ [ucast value])
      else if value < 0x4000
      then (Inr (), buf @ [0x40 OR ucast (drop_bit 8 value), ucast value])
      else if value < 0x40000000
      then (Inr (), buf @ [0x80 OR ucast (drop_bit 24 value), ucast (drop_bit 16 value),
                           ucast (drop_bit 8 value), ucast value])
      else (Inr (), buf @ [0xc0 OR ucast (drop_bit 56 value), ucast (drop_bit 48 value),
                           ucast (drop_bit 40 value), ucast (drop_bit 32 value),
                           ucast (drop_bit 24 value), ucast (drop_bit 16 value),
                           ucast (drop_bit 8 value), ucast value]))"

definition decode_varint :: "bytes \<Rightarrow> QuicError + u64 \<times> nat" where
  "decode_varint buf =
     (if buf = [] then Inl BufferTooSmall
      else let first = buf ! 0; len = push_bit (unat (drop_bit 6 first)) (1::nat) in
        if length buf < len then Inl BufferTooSmall
        else Inr
          (if len = 1 then ucast (first AND 0x3f)
           else if len = 2 then ucast (from_be_bytes [first AND 0x3f, buf ! 1] :: u16)
           else if len = 4
           then ucast (from_be_bytes [first AND 0x3f, buf ! 1, buf ! 2, buf ! 3] :: u32)
           else from_be_bytes [first AND 0x3f, buf ! 1, buf ! 2, buf ! 3,
                               buf ! 4, buf ! 5, buf ! 6, buf ! 7], len))"

definition varint_len :: "u64 \<Rightarrow> nat" where
  "varint_len value =
     (if value < 0x40 then 1 else if value < 0x4000 then 2
      else if value < 0x40000000 then 4 else 8)"

section \<open>Bytes of the encoding\<close>

text \<open>What a successful \<open>encode_varint\<close> appends.\<close>

definition varint_bytes :: "u64 \<Rightarrow> bytes" where
  "varint_bytes v = snd (encode_varint v [])"

lemma unat_MAX_VARINT: "unat MAX_VARINT = 2 ^ 62 - 1"
  by (simp add: MAX_VARINT_def)

lemma MAX_VARINT_eq: "MAX_VARINT = 0x3fffffffffffffff"
  by (simp add: MAX_VARINT_def)

lemma encode_varint_ok:
  "v \<le> MAX_VARINT \<Longrightarrow> encode_varint v buf = (Inr (), buf @ varint_bytes v)"
  by (auto simp: varint_bytes_def encode_varint_def)

lemma encode_varint_err:
  "v > MAX_VARINT \<Longrightarrow> encode_varint v buf =
     (Inl (InvalidFrame (Fmt ''varint value {value} exceeds QUIC maximum {MAX_VARINT}''
                                 [NumArg v, NumArg MAX_VARINT])), buf)"
  by (simp add: encode_varint_def)

lemma writes_encode_varint [intro]: "v \<le> MAX_VARINT \<Longrightarrow> writes (encode_varint v) (varint_bytes v)"
  by (simp add: writes_def encode_varint_ok)

lemma length_varint_bytes: "v \<le> MAX_VARINT \<Longrightarrow> length (varint_bytes v) = varint_len v"
  by (auto simp: varint_bytes_def encode_varint_def varint_len_def)

lemma varint_bytes_small: "v < 0x40 \<Longrightarrow> varint_bytes v = [ucast v]"
  by (auto simp: varint_bytes_def encode_varint_def MAX_VARINT_eq word_less_nat_alt)

text \<open>The two tag bits of the first byte do not disturb its six value bits.\<close>

lemma tag_bits:
  assumes "unat (x :: u8) < 64" and "t = 0 \<or> t = 1 \<or> t = 2 \<or> t = (3::u8)"
  shows "(push_bit 6 t OR x) AND 0x3f = x" and "drop_bit 6 (push_bit 6 t OR x) = t"
proof -
  have x: "x = take_bit 6 x"
    using assms(1) by (simp add: word_unat_eq_iff unsigned_take_bit_eq take_bit_nat_eq_self)
  have m: "(0x3f :: u8) = mask 6" by (simp add: mask_eq_exp_minus_1)
  show "(push_bit 6 t OR x) AND 0x3f = x"
    unfolding m by (subst (1 2) x) (rule bit_word_eqI, auto simp: bit_simps)
  have t: "t = take_bit 2 t" using assms(2) by auto
  show "drop_bit 6 (push_bit 6 t OR x) = t"
    by (subst (1 2) t, subst x) (rule bit_word_eqI, auto simp: bit_simps)
qed

lemma to_be_bytes_numerals:
  "to_be_bytes 2 v = [ucast (drop_bit 8 v), ucast v]"
  "to_be_bytes 4 v = [ucast (drop_bit 24 v), ucast (drop_bit 16 v), ucast (drop_bit 8 v), ucast v]"
  "to_be_bytes 8 v = [ucast (drop_bit 56 v), ucast (drop_bit 48 v), ucast (drop_bit 40 v),
     ucast (drop_bit 32 v), ucast (drop_bit 24 v), ucast (drop_bit 16 v), ucast (drop_bit 8 v), ucast v]"
  by (simp_all add: to_be_bytes_def upt_rec)

lemma from_to_be_bytes:
  assumes "unat (v :: u64) < 256 ^ n" and "8 * n \<le> LENGTH('a::len)" and "n \<le> 8"
  shows "(ucast (from_be_bytes (to_be_bytes n v) :: 'a word) :: u64) = v"
proof -
  have "unat (from_be_bytes (to_be_bytes n v) :: 'a word) = unat v"
    using assms by (simp add: unat_from_be_bytes)
  then have "unat (ucast (from_be_bytes (to_be_bytes n v) :: 'a word) :: u64) = unat v"
    using unat_u64_less [of v] by (simp add: unsigned_ucast_eq take_bit_nat_eq_self)
  then show ?thesis by (simp add: word_unat_eq_iff)
qed

lemma first_byte_small:
  "unat (v :: u64) < 2 ^ (k + 6) \<Longrightarrow> unat (ucast (drop_bit k v) :: u8) < 64"
  by (simp add: unat_ucast_u8_drop_bit less_mult_imp_div_less power_add mult.commute)

lemma decode_varint_bytes:
  assumes "v \<le> MAX_VARINT"
  shows "decode_varint (varint_bytes v @ rest) = Inr (v, length (varint_bytes v))"
proof -
  have u: "unat v < 2 ^ 62" using assms by (simp add: word_le_nat_alt unat_MAX_VARINT)
  consider "v < 0x40" | "\<not> v < 0x40" "v < 0x4000" | "\<not> v < 0x4000" "v < 0x40000000"
    | "\<not> v < 0x40000000" by blast
  then show ?thesis
  proof cases
    case 1
    then have "unat (ucast v :: u8) < 64" "unat v < 256 ^ 1" and "ucast (ucast v :: u8) = v"
      by (simp_all add: word_less_nat_alt unat_ucast_u8 word_unat_eq_iff)
    then show ?thesis
      using 1 tag_bits [of "ucast v" 0] by (simp add: varint_bytes_small decode_varint_def)
  next
    case 2
    then have v: "unat v < 256 ^ 2" "unat v < 2 ^ (8 + 6)" by (simp_all add: word_less_nat_alt)
    from 2 assms have "varint_bytes v = [0x40 OR ucast (drop_bit 8 v), ucast v]"
      by (simp add: varint_bytes_def encode_varint_def)
    moreover note tag_bits [OF first_byte_small [OF v(2)], of 1]
    ultimately show ?thesis using from_to_be_bytes [OF v(1), where 'a = 16]
      by (simp add: decode_varint_def to_be_bytes_numerals)
  next
    case 3
    then have v: "unat v < 256 ^ 4" "unat v < 2 ^ (24 + 6)" by (simp_all add: word_less_nat_alt)
    from 3 have "\<not> v < 0x40" by (simp add: word_less_nat_alt)
    with 3 assms have "varint_bytes v = [0x80 OR ucast (drop_bit 24 v), ucast (drop_bit 16 v),
                           ucast (drop_bit 8 v), ucast v]"
      by (simp add: varint_bytes_def encode_varint_def)
    moreover note tag_bits [OF first_byte_small [OF v(2)], of 2]
    ultimately show ?thesis using from_to_be_bytes [OF v(1), where 'a = 32]
      by (simp add: decode_varint_def to_be_bytes_numerals)
  next
    case 4
    have v: "unat v < 256 ^ 8" "unat v < 2 ^ (56 + 6)" using u by simp_all
    from 4 have "\<not> v < 0x40" "\<not> v < 0x4000" by (simp_all add: word_less_nat_alt)
    with 4 assms have "varint_bytes v = [0xc0 OR ucast (drop_bit 56 v), ucast (drop_bit 48 v),
         ucast (drop_bit 40 v), ucast (drop_bit 32 v), ucast (drop_bit 24 v), ucast (drop_bit 16 v),
         ucast (drop_bit 8 v), ucast v]"
      by (simp add: varint_bytes_def encode_varint_def)
    moreover note tag_bits [OF first_byte_small [OF v(2)], of 3]
    ultimately show ?thesis using from_to_be_bytes [OF v(1), where 'a = 64]
      by (simp add: decode_varint_def to_be_bytes_numerals)
  qed
qed


section \<open>What the decoder returns\<close>

lemma decode_varint_first: "decode_varint buf = Inr (v, n) \<Longrightarrow> buf \<noteq> []"
  by (auto simp: decode_varint_def)

lemma first_value_bits: "unat ((b :: u8) AND 0x3f) < 64"
proof -
  have "(b AND 0x3f) \<le> 0x3f" by (rule word_and_le1)
  then show ?thesis by (simp add: word_le_nat_alt)
qed

lemma first_len_cases:
  "push_bit (unat (drop_bit 6 (b :: u8))) (1::nat) \<in> {1, 2, 4, 8}"
proof -
  have "unat (drop_bit 6 b) < 4" using unat_u8_less [of b] by (simp add: unat_drop_bit_div del: unat_u8_less)
  then consider "unat (drop_bit 6 b) = 0" | "unat (drop_bit 6 b) = 1" | "unat (drop_bit 6 b) = 2"
    | "unat (drop_bit 6 b) = 3" by linarith
  then show ?thesis by cases simp_all
qed

lemma unat_ucast_be:
  assumes "8 * length bs \<le> LENGTH('a::len)" "length bs \<le> 8"
  shows "unat (ucast (from_be_bytes bs :: 'a word) :: u64) = be_val bs"
proof -
  have "(256::nat) ^ length bs \<le> 256 ^ 8" using assms by (intro power_increasing) auto
  then have "be_val bs < 2 ^ 64" using be_val_less [of bs] by simp
  then show ?thesis using assms(1)
    by (simp add: unsigned_ucast_eq unat_from_be_bytes take_bit_nat_eq_self)
qed

lemma take_drop_nth: "n \<le> length xs \<Longrightarrow> take (n - 1) (drop 1 xs) = map ((!) xs) [1..<n]"
  by (rule nth_equalityI) auto

lemma upt_varint:
  "[Suc 0..<2] = [1]" "[Suc 0..<4] = [1, 2, 3]"
  "[Suc 0..<8] = [1, 2, 3, 4, 5, 6, 7]"
  by (simp_all add: upt_rec)

lemma decode_varint_value:
  assumes "decode_varint buf = Inr (v, n)"
  shows "n \<in> {1, 2, 4, 8}" and "n \<le> length buf"
    and "unat v = be_val (((buf ! 0) AND 0x3f) # take (n - 1) (drop 1 buf))"
proof -
  let ?len = "push_bit (unat (drop_bit 6 (buf ! 0))) (1::nat)"
  have n: "n = ?len" and len: "?len \<le> length buf" and ne: "buf \<noteq> []"
    using assms by (auto simp: decode_varint_def Let_def split: if_splits)
  then show c: "n \<in> {1, 2, 4, 8}" and l: "n \<le> length buf" using first_len_cases by simp_all
  have v: "v = (if n = 1 then ucast (buf ! 0 AND 0x3f)
           else if n = 2 then ucast (from_be_bytes [buf ! 0 AND 0x3f, buf ! 1] :: u16)
           else if n = 4
           then ucast (from_be_bytes [buf ! 0 AND 0x3f, buf ! 1, buf ! 2, buf ! 3] :: u32)
           else from_be_bytes [buf ! 0 AND 0x3f, buf ! 1, buf ! 2, buf ! 3,
                               buf ! 4, buf ! 5, buf ! 6, buf ! 7])"
    using assms n len ne by (auto simp: decode_varint_def Let_def split: if_splits)
  show "unat v = be_val (((buf ! 0) AND 0x3f) # take (n - 1) (drop 1 buf))"
    using c unfolding take_drop_nth [OF l] v
    by (elim insertE emptyE) (simp_all add: upt_varint unat_ucast_be unat_from_be_bytes be_val_Cons)
qed

lemma decode_varint_bound:
  assumes "decode_varint buf = Inr (v, n)"
  shows "unat v < 2 ^ (8 * n - 2)"
proof -
  note d = decode_varint_value [OF assms]
  have "length (take (n - 1) (drop 1 buf)) = n - 1" using d(2) by simp
  then have "unat v < 64 * 256 ^ (n - 1)"
    using be_val_Cons_less [OF first_value_bits, of "buf ! 0" "take (n - 1) (drop 1 buf)"] d(3)
    by simp
  then show ?thesis using d(1) by auto
qed

lemma decode_varint_le_MAX: "decode_varint buf = Inr (v, n) \<Longrightarrow> v \<le> MAX_VARINT"
proof -
  assume a: "decode_varint buf = Inr (v, n)"
  have "(2::nat) ^ (8 * n - 2) \<le> 2 ^ 62"
    using decode_varint_value(1) [OF a] by (intro power_increasing) auto
  then show ?thesis using decode_varint_bound [OF a] by (simp add: word_le_nat_alt unat_MAX_VARINT)
qed

lemma decode_varint_consumed: "decode_varint buf = Inr (v, n) \<Longrightarrow> 0 < n \<and> n \<le> length buf"
  using decode_varint_value(1,2) [of buf v n] by auto

lemma decode_varint_err: "decode_varint buf = Inl e \<Longrightarrow> e = BufferTooSmall"
  by (auto simp: decode_varint_def Let_def split: if_splits)

lemma varint_len_minimal: "decode_varint buf = Inr (v, n) \<Longrightarrow> varint_len v \<le> n"
  using decode_varint_value(1) [of buf v n] decode_varint_bound [of buf v n]
  by (auto simp: varint_len_def word_less_nat_alt)


text \<open>C39: every value up to \<open>MAX_VARINT\<close> is encoded, in exactly \<open>varint_len\<close> bytes appended to the
  buffer, and the decoder reads the value back and reports that length, whatever follows.\<close>

theorem varint_roundtrip:
  assumes "v \<le> MAX_VARINT"
  shows "\<exists>out. encode_varint v buf = (Inr (), buf @ out) \<and> length out = varint_len v
           \<and> decode_varint (out @ rest) = Inr (v, length out)"
  using assms encode_varint_ok length_varint_bytes decode_varint_bytes by blast

theorem varint_roundtrip_witness:
  "(15293 :: u64) \<le> MAX_VARINT \<and>
   (\<exists>out. encode_varint 15293 [9] = (Inr (), [9] @ out) \<and> length out = varint_len 15293
           \<and> decode_varint (out @ [7]) = Inr (15293, length out))"
  using varint_roundtrip [where v = 15293 and buf = "[9]" and rest = "[7]"] by (simp add: MAX_VARINT_eq)

text \<open>C40: a decoded value is in the range of a varint, the reported length is 1, 2, 4 or 8 and
  lies within the buffer, and no accepted encoding is shorter than the encoder's own.\<close>

theorem varint_decode_sound:
  assumes "decode_varint buf = Inr (v, n)"
  shows "v \<le> MAX_VARINT \<and> n \<in> {1, 2, 4, 8} \<and> n \<le> length buf \<and> varint_len v \<le> n"
  using assms decode_varint_le_MAX decode_varint_value(1,2) varint_len_minimal by blast

theorem varint_decode_sound_witness:
  "decode_varint [0x40, 0x25, 1] = Inr (0x25, 2) \<and> (0x25 :: u64) \<le> MAX_VARINT \<and> varint_len 0x25 \<le> 2"
proof -
  have "decode_varint [0x40, 0x25, 1] = Inr (0x25, 2)"
    by (simp add: decode_varint_def from_be_bytes_def)
  then show ?thesis using varint_decode_sound [of "[0x40, 0x25, 1]" "0x25" 2] by simp
qed

end
