(* ===== verification/Packet_Number.thy ===== *)
theory Packet_Number
  imports Varint
begin

text \<open>
  Packet number truncation and reconstruction (\<open>starfish-quic/src/packet/mod.rs\<close>, RFC 9000
  appendix A): the sender's choice of 1 to 4 bytes, the receiver's window arithmetic on
  wrapping 64-bit integers, and the proof that the receiver gets the sender's number back.
\<close>

definition encode_packet_number :: "u64 \<Rightarrow> u64 \<Rightarrow> bytes \<times> u8" where
  "encode_packet_number pn largest_acked =
     (let num_unacked = saturating_sub pn largest_acked in
      if num_unacked < 0x80 then ([ucast pn], 1)
      else if num_unacked < 0x8000
      then (to_be_bytes 2 (ucast (pn AND 0xffff) :: u16), 2)
      else if num_unacked < 0x800000
      then (drop 1 (to_be_bytes 4 (ucast (pn AND 0xffffff) :: u32)), 3)
      else (to_be_bytes 4 (ucast (pn AND 0xffffffff) :: u32), 4))"

definition decode_packet_number :: "u64 \<Rightarrow> u8 \<Rightarrow> u64 \<Rightarrow> u64" where
  "decode_packet_number truncated_pn pn_len largest_pn =
     (let pn_nbits = ucast pn_len * 8 :: u64;
          pn_win = push_bit (unat pn_nbits) 1;
          pn_hwin = pn_win div 2;
          pn_mask = pn_win - 1;
          expected_pn = largest_pn + 1;
          candidate = (expected_pn AND NOT pn_mask) OR truncated_pn
      in if candidate + pn_hwin \<le> expected_pn \<and> candidate < push_bit 62 1 - pn_win
         then candidate + pn_win
         else if candidate > expected_pn + pn_hwin \<and> candidate \<ge> pn_win
         then candidate - pn_win
         else candidate)"

lemma unat_candidate:
  assumes "unat (t :: u64) < 2 ^ n" and "n < 64"
  shows "unat ((e AND NOT (push_bit n 1 - 1)) OR t) = unat e div 2 ^ n * 2 ^ n + unat t"
proof -
  have m: "push_bit n 1 - 1 = (mask n :: u64)" by (simp add: mask_eq_exp_minus_1)
  have t: "t = take_bit n t"
    using assms(1) by (simp add: word_unat_eq_iff unsigned_take_bit_eq take_bit_nat_eq_self)
  have "(e AND NOT (mask n)) OR t = push_bit n (drop_bit n e) OR take_bit n t"
    by (subst t) (rule bit_word_eqI, auto simp: bit_simps)
  also have "unat \<dots> = push_bit n (drop_bit n (unat e)) OR unat t"
  proof -
    have "push_bit n (drop_bit n (unat e)) \<le> unat e"
      by (simp add: push_bit_eq_mult drop_bit_eq_div)
    then have "take_bit 64 (push_bit n (drop_bit n (unat e))) = push_bit n (drop_bit n (unat e))"
      using unat_u64_less [of e] by (simp add: take_bit_nat_eq_self)
    then show ?thesis
      unfolding unsigned_or_eq unsigned_push_bit_eq unat_drop_bit_eq t [symmetric] by simp
  qed
  also have "\<dots> = push_bit n (drop_bit n (unat e)) + unat t"
  proof (rule disjunctive_add [symmetric])
    fix i
    have "bit (unat t) i \<Longrightarrow> i < n" by (subst (asm) t) (simp add: bit_unsigned_iff bit_take_bit_iff)
    then show "\<not> bit (push_bit n (drop_bit n (unat e))) i \<or> \<not> bit (unat t) i"
      by (auto simp: bit_push_bit_iff)
  qed
  finally show ?thesis unfolding m by (simp add: push_bit_eq_mult drop_bit_eq_div)
qed

text \<open>
  The window argument on natural numbers: \<open>c\<close> is the candidate that agrees with \<open>pn\<close> modulo
  the window \<open>w\<close> and lies in the expected number's block.
\<close>

lemma window_choice:
  fixes pn e w :: nat
  assumes w: "w = 2 * h" "0 < h"
    and lo: "e < pn + h" and hi: "pn \<le> e + h"
    and c: "c = e div w * w + pn mod w"
  shows "(c + h \<le> e \<longrightarrow> pn = c + w) \<and> (e + h < c \<longrightarrow> w \<le> c \<and> pn = c - w)
     \<and> (\<not> c + h \<le> e \<longrightarrow> \<not> e + h < c \<longrightarrow> pn = c)"
proof -
  obtain q where q: "pn = q * w + pn mod w" by (metis div_mult_mod_eq)
  define r where "r = pn mod w"
  define s where "s = e div w"
  define m where "m = e mod w"
  have es: "e = s * w + m" by (simp add: s_def m_def)
  have rw: "r < w" "m < w" using w by (simp_all add: r_def m_def)
  have pn: "pn = q * w + r" using q by (simp add: r_def)
  have c': "c = s * w + r" using c by (simp add: r_def s_def)
  consider "q = s" | "q = s + 1" | "s = q + 1" | "q \<ge> s + 2" | "s \<ge> q + 2" by linarith
  then show ?thesis
  proof cases
    case 1
    then show ?thesis using lo hi w pn c' by auto
  next
    case 2
    then show ?thesis using lo hi w pn c' es rw by (auto simp: algebra_simps)
  next
    case 3
    then show ?thesis using lo hi w pn c' es rw by (auto simp: algebra_simps)
  next
    case 4
    then have "(s + 2) * w \<le> q * w" by (rule mult_le_mono1)
    then show ?thesis using lo hi w pn c' es rw by (simp add: algebra_simps)
  next
    case 5
    then have "(q + 2) * w \<le> s * w" by (rule mult_le_mono1)
    then show ?thesis using lo hi w pn c' es rw by (simp add: algebra_simps)
  qed
qed


lemma pn_win_values:
  assumes "pn_len \<in> {1, 2, 3, 4}"
  shows "unat (ucast pn_len * 8 :: u64) = 8 * unat (pn_len :: u8)" and "unat pn_len \<in> {1, 2, 3, 4}"
  using assms by auto

lemma decode_packet_number_correct:
  assumes len: "pn_len \<in> {1, 2, 3, 4}"
    and t: "unat truncated_pn = unat pn mod 2 ^ (8 * unat pn_len)"
    and bounds: "unat pn < 2 ^ 62" "unat largest_pn < 2 ^ 62"
    and lo: "unat largest_pn + 1 < unat pn + 2 ^ (8 * unat pn_len - 1)"
    and hi: "unat pn \<le> unat largest_pn + 1 + 2 ^ (8 * unat pn_len - 1)"
  shows "decode_packet_number truncated_pn pn_len largest_pn = pn"
proof -
  define n where "n = 8 * unat pn_len"
  define w :: nat where "w = 2 ^ n"
  define h :: nat where "h = 2 ^ (n - 1)"
  have n: "n \<in> {8, 16, 24, 32}" using pn_win_values(2) [OF len] by (auto simp: n_def)
  then have w: "w = 2 * h" "0 < h" and wle: "w \<le> 2 ^ 32" by (auto simp: w_def h_def)
  let ?e = "largest_pn + 1" and ?win = "push_bit n (1 :: u64)"
  let ?c = "(?e AND NOT (?win - 1)) OR truncated_pn"
  have e: "unat ?e = unat largest_pn + 1" using bounds by (simp add: unat_word_ariths)
  have win: "unat ?win = w" "unat (?win div 2) = h"
    using n by (auto simp: w_def h_def)
  have c: "unat ?c = (unat largest_pn + 1) div w * w + unat pn mod w"
    using unat_candidate [of truncated_pn n ?e] t n e by (auto simp: w_def n_def)
  have W: "(unat ?c + h \<le> unat ?e \<longrightarrow> unat pn = unat ?c + w) \<and>
     (unat ?e + h < unat ?c \<longrightarrow> w \<le> unat ?c \<and> unat pn = unat ?c - w) \<and>
     (\<not> unat ?c + h \<le> unat ?e \<longrightarrow> \<not> unat ?e + h < unat ?c \<longrightarrow> unat pn = unat ?c)"
    using window_choice [OF w, of "unat ?e" "unat pn" "unat ?c"] lo hi c e
    by (simp add: h_def n_def)
  have "unat pn mod w < w" using w by simp
  moreover have "(unat largest_pn + 1) div w * w \<le> unat largest_pn + 1" by simp
  ultimately have cle: "unat ?c \<le> 2 ^ 62 + w" using bounds(2) c by linarith
  have hle: "h \<le> 2 ^ 31" using w wle by simp
  have ch: "unat (?c + ?win div 2) = unat ?c + h" and cw: "unat (?c + ?win) = unat ?c + w"
    and eh: "unat (?e + ?win div 2) = unat ?e + h"
    using cle wle hle win e bounds by (simp_all add: unat_word_ariths)
  have lim: "unat (push_bit 62 1 - ?win) = 2 ^ 62 - w"
    using wle win(1) by (subst unat_sub) (auto simp: word_le_nat_alt)
  have "w \<le> unat ?c \<Longrightarrow> unat (?c - ?win) = unat ?c - w"
    using win(1) by (subst unat_sub) (auto simp: word_le_nat_alt)
  then have "unat (if ?c + ?win div 2 \<le> ?e \<and> ?c < push_bit 62 1 - ?win then ?c + ?win
       else if ?c > ?e + ?win div 2 \<and> ?c \<ge> ?win then ?c - ?win else ?c) = unat pn"
    using W bounds(1) ch cw eh lim win(1) wle by (auto simp: word_le_nat_alt word_less_nat_alt)
  then show ?thesis
    unfolding decode_packet_number_def Let_def pn_win_values(1) [OF len] n_def [symmetric]
    by (simp only: word_unat_eq_iff)
qed


lemma to_be_bytes_tl: "drop 1 (to_be_bytes (Suc n) v) = to_be_bytes n v"
  by (simp add: to_be_bytes_def)

lemma pn_masks:
  "(0xffff :: u64) = mask 16" "(0xffffff :: u64) = mask 24" "(0xffffffff :: u64) = mask 32"
  by (simp_all add: mask_eq_exp_minus_1)

lemma be_val_masked:
  assumes "8 * k \<le> n" "n \<le> LENGTH('a::len)"
  shows "be_val (to_be_bytes k (ucast (pn AND mask n :: u64) :: 'a word)) = unat pn mod 256 ^ k"
proof -
  have "unat (ucast (pn AND mask n :: u64) :: 'a word) = unat pn mod 2 ^ n mod 2 ^ LENGTH('a)"
    unfolding unsigned_ucast_eq unat_and_mask by (simp add: take_bit_eq_mod)
  also have "\<dots> = unat pn mod 2 ^ n"
    using assms(2) by (simp add: mod_mod_cancel le_imp_power_dvd mod_exp_eq min_def)
  moreover have "(2::nat) ^ (8 * k) dvd 2 ^ n" using assms(1) by (rule le_imp_power_dvd)
  then have "unat pn mod 2 ^ n mod 256 ^ k = unat pn mod 256 ^ k"
    by (intro mod_mod_cancel) (simp add: power_mult)
  ultimately show ?thesis by simp
qed

lemma encode_packet_number_spec:
  assumes "encode_packet_number pn la = (bs, len)"
  shows "len \<in> {1, 2, 3, 4}" and "length bs = unat len"
    and "be_val bs = unat pn mod 2 ^ (8 * unat len)"
    and "unat pn - unat la < 2 ^ 31 \<Longrightarrow> unat pn - unat la < 2 ^ (8 * unat len - 1)"
proof -
  have b: "be_val [ucast pn] = unat pn mod 256"
    "be_val (to_be_bytes 2 (ucast (pn AND 0xffff) :: u16)) = unat pn mod 256 ^ 2"
    "be_val (to_be_bytes 3 (ucast (pn AND 0xffffff) :: u32)) = unat pn mod 256 ^ 3"
    "be_val (to_be_bytes 4 (ucast (pn AND 0xffffffff) :: u32)) = unat pn mod 256 ^ 4"
    unfolding pn_masks by (simp_all add: be_val_masked be_val_Cons unat_ucast_u8 del: be_val_to_be_bytes)
  have t: "drop (Suc 0) (to_be_bytes 4 v) = to_be_bytes 3 (v :: u32)" for v
    using to_be_bytes_tl [of 3 v] by (simp add: numeral_eq_Suc)
  consider "bs = [ucast pn]" "len = 1" "unat pn - unat la < 0x80"
    | "bs = to_be_bytes 2 (ucast (pn AND 0xffff) :: u16)" "len = 2" "unat pn - unat la < 0x8000"
    | "bs = to_be_bytes 3 (ucast (pn AND 0xffffff) :: u32)" "len = 3" "unat pn - unat la < 0x800000"
    | "bs = to_be_bytes 4 (ucast (pn AND 0xffffffff) :: u32)" "len = 4"
    using assms by (auto simp: encode_packet_number_def Let_def word_less_nat_alt t split: if_splits)
  note C = this
  show "len \<in> {1, 2, 3, 4}" using C by cases auto
  show "length bs = unat len" using C by cases auto
  show "be_val bs = unat pn mod 2 ^ (8 * unat len)"
    using C by cases (simp_all only: b, simp_all)
  show "unat pn - unat la < 2 ^ 31 \<Longrightarrow> unat pn - unat la < 2 ^ (8 * unat len - 1)"
    using C by cases auto
qed

lemma unat_from_be_bytes_u64:
  "length bs \<le> 8 \<Longrightarrow> unat (from_be_bytes bs :: u64) = be_val bs"
  by (simp add: unat_from_be_bytes)

text \<open>C30: whatever the sender truncates, the receiver reconstructs: if the receiver has processed
  at least what the sender knows to be acknowledged, fewer than \<open>2 ^ 31\<close> numbers are unacknowledged,
  and the packet is not older than half the window, \<open>decode_packet_number\<close> applied to the encoded
  bytes is the sender's packet number.\<close>

theorem packet_number_recovered:
  assumes "encode_packet_number pn largest_acked = (bs, len)"
    and "pn < push_bit 62 1" and "largest_pn < push_bit 62 1"
    and "largest_acked \<le> largest_pn"
    and "unat pn - unat largest_acked < 2 ^ 31"
    and "unat largest_pn + 1 < unat pn + 2 ^ (8 * unat len - 1)"
  shows "decode_packet_number (from_be_bytes bs) len largest_pn = pn"
proof (rule decode_packet_number_correct)
  note E = encode_packet_number_spec [OF assms(1)]
  show "len \<in> {1, 2, 3, 4}" by (rule E)
  show "unat (from_be_bytes bs :: u64) = unat pn mod 2 ^ (8 * unat len)"
    using E(1-3) by (auto simp: unat_from_be_bytes_u64)
  show "unat pn < 2 ^ 62" "unat largest_pn < 2 ^ 62" using assms(2,3) by (simp_all add: word_less_nat_alt)
  show "unat largest_pn + 1 < unat pn + 2 ^ (8 * unat len - 1)" by (rule assms)
  show "unat pn \<le> unat largest_pn + 1 + 2 ^ (8 * unat len - 1)"
    using E(4) [OF assms(5)] assms(4) by (simp add: word_le_nat_alt)
qed


theorem packet_number_recovered_witness:
  "encode_packet_number 0xac5c02 0xabe8bc = ([0x5c, 0x02], 2) \<and>
   decode_packet_number (from_be_bytes [0x5c, 0x02]) 2 0xac5bff = 0xac5c02"
proof -
  have e: "encode_packet_number 0xac5c02 0xabe8bc = ([0x5c, 0x02], 2)"
    by (simp add: encode_packet_number_def saturating_sub_def to_be_bytes_numerals)
  show ?thesis using e packet_number_recovered [where largest_pn = "0xac5bff", OF e] by simp
qed

end
