(* ===== verification/Header.thy ===== *)
theory Header
  imports Packet_Number
begin

text \<open>
  Connection IDs and packet headers (\<open>ConnectionId\<close> in \<open>starfish-quic/src/packet/mod.rs\<close> and
  \<open>packet/header.rs\<close>), the version negotiation packet and the header parts of the Initial,
  Handshake, 0-RTT and 1-RTT packets.  \<open>debug_assert!\<close> is compiled out, as in release builds.
  The random bytes of \<open>ConnectionId::generate\<close> are an argument.
\<close>

section \<open>Connection IDs\<close>

definition MAX_CID_LEN :: nat where
  "MAX_CID_LEN = 20"

record ConnectionId =
  cid_len_byte :: u8
  cid_array :: bytes

definition cid_from_slice :: "bytes \<Rightarrow> ConnectionId" where
  "cid_from_slice data =
     (let len = min (length data) MAX_CID_LEN
      in \<lparr>cid_len_byte = word_of_nat len,
          cid_array = take len data @ drop len (replicate MAX_CID_LEN 0)\<rparr>)"

definition cid_generate :: "(nat \<Rightarrow> bytes) \<Rightarrow> u8 \<Rightarrow> ConnectionId" where
  "cid_generate random len =
     (let len = min len (word_of_nat MAX_CID_LEN)
      in \<lparr>cid_len_byte = len,
          cid_array = random (unat len) @ drop (unat len) (replicate MAX_CID_LEN 0)\<rparr>)"

definition cid_as_slice :: "ConnectionId \<Rightarrow> bytes" where
  "cid_as_slice c = take (unat (cid_len_byte c)) (cid_array c)"

definition cid_len :: "ConnectionId \<Rightarrow> nat" where
  "cid_len c = unat (cid_len_byte c)"

text \<open>The invariant of the type: an array of 20 bytes, zero beyond the length.\<close>

definition wf_cid :: "ConnectionId \<Rightarrow> bool" where
  "wf_cid c \<longleftrightarrow> cid_len c \<le> MAX_CID_LEN \<and> length (cid_array c) = MAX_CID_LEN
     \<and> drop (cid_len c) (cid_array c) = replicate (MAX_CID_LEN - cid_len c) 0"

section \<open>Headers\<close>

definition QUIC_VERSION_1 :: u32 where
  "QUIC_VERSION_1 = 1"

datatype LongPacketType = LInitial | LZeroRtt | LHandshake | LRetry

fun long_type_bits :: "LongPacketType \<Rightarrow> u8" where
  "long_type_bits LInitial = 0x00"
| "long_type_bits LZeroRtt = 0x01"
| "long_type_bits LHandshake = 0x02"
| "long_type_bits LRetry = 0x03"

definition from_bits :: "u8 \<Rightarrow> QuicError + LongPacketType" where
  "from_bits bits =
     (if bits = 0x00 then Inr LInitial
      else if bits = 0x01 then Inr LZeroRtt
      else if bits = 0x02 then Inr LHandshake
      else if bits = 0x03 then Inr LRetry
      else Inl (InvalidPacket (Fmt ''unknown long packet type: {bits:#04x}'' [NumArg (ucast bits)])))"

datatype PacketNumberSpace = SpInitial | SpHandshake | SpApplicationData

record LongHeader =
  lh_packet_type :: LongPacketType
  lh_first_byte :: u8
  lh_version :: u32
  lh_dcid :: ConnectionId
  lh_scid :: ConnectionId
  lh_header_len :: nat

record ShortHeader =
  sh_first_byte :: u8
  sh_spin_bit :: bool
  sh_key_phase :: bool
  sh_dcid :: ConnectionId
  sh_header_len :: nat

datatype PacketHeader =
    HLong LongHeader
  | HShort ShortHeader
  | HVersionNegotiation ConnectionId ConnectionId "u32 list"

definition is_long_header :: "u8 \<Rightarrow> bool" where
  "is_long_header first_byte \<longleftrightarrow> first_byte AND 0x80 \<noteq> 0"

text \<open>The loop over the version list: complete groups of four bytes.\<close>

fun read_versions :: "bytes \<Rightarrow> u32 list" where
  "read_versions (a # b # c # d # rest) = from_be_bytes [a, b, c, d] # read_versions rest"
| "read_versions _ = []"

definition parse_long_header :: "bytes \<Rightarrow> QuicError + PacketHeader" where
  "parse_long_header buf =
     (if length buf < 7 then Inl (InvalidPacket (Msg ''long header too short''))
      else
      let first_byte = buf ! 0;
          version = from_be_bytes [buf ! 1, buf ! 2, buf ! 3, buf ! 4];
          dcid_len = unat (buf ! 5)
      in if dcid_len > 20 \<or> length buf < 6 + dcid_len + 1
         then Inl (InvalidPacket (Msg ''invalid DCID length''))
         else
      let dcid = cid_from_slice (take dcid_len (drop 6 buf));
          scid_len = unat (buf ! (6 + dcid_len));
          scid_start = 7 + dcid_len
      in if scid_len > 20 \<or> length buf < scid_start + scid_len
         then Inl (InvalidPacket (Msg ''invalid SCID length''))
         else
      let scid = cid_from_slice (take scid_len (drop scid_start buf));
          header_len = scid_start + scid_len
      in if version = 0
         then Inr (HVersionNegotiation dcid scid (read_versions (drop header_len buf)))
         else
      and_then (from_bits (drop_bit 4 (first_byte AND 0x30))) (\<lambda>packet_type.
        Inr (HLong \<lparr>lh_packet_type = packet_type, lh_first_byte = first_byte,
                     lh_version = version, lh_dcid = dcid, lh_scid = scid,
                     lh_header_len = header_len\<rparr>)))"

definition parse_short_header :: "bytes \<Rightarrow> nat \<Rightarrow> QuicError + PacketHeader" where
  "parse_short_header buf local_cid_len =
     (if length buf < 1 + local_cid_len + 1
      then Inl (InvalidPacket (Msg ''short header too short''))
      else
      let first_byte = buf ! 0 in
      Inr (HShort \<lparr>sh_first_byte = first_byte,
                   sh_spin_bit = (first_byte AND 0x20 \<noteq> 0),
                   sh_key_phase = (first_byte AND 0x04 \<noteq> 0),
                   sh_dcid = cid_from_slice (take local_cid_len (drop 1 buf)),
                   sh_header_len = 1 + local_cid_len\<rparr>))"

definition parse_header :: "bytes \<Rightarrow> nat \<Rightarrow> QuicError + PacketHeader" where
  "parse_header buf local_cid_len =
     (if buf = [] then Inl (InvalidPacket (Msg ''empty packet''))
      else if is_long_header (buf ! 0) then parse_long_header buf
      else parse_short_header buf local_cid_len)"

text \<open>The header encoders return the number of bytes pushed and the buffer.\<close>

definition encode_long_header ::
    "LongPacketType \<Rightarrow> ConnectionId \<Rightarrow> ConnectionId \<Rightarrow> u8 \<Rightarrow> bytes \<Rightarrow> nat \<times> bytes" where
  "encode_long_header packet_type dcid scid pn_len buf =
     (let start = length buf;
          first_byte = 0xc0 OR push_bit 4 (long_type_bits packet_type) OR (pn_len - 1);
          buf = buf @ [first_byte] @ to_be_bytes 4 QUIC_VERSION_1
                @ [word_of_nat (cid_len dcid)] @ cid_as_slice dcid
                @ [word_of_nat (cid_len scid)] @ cid_as_slice scid
      in (length buf - start, buf))"

definition encode_short_header ::
    "ConnectionId \<Rightarrow> bool \<Rightarrow> bool \<Rightarrow> u8 \<Rightarrow> bytes \<Rightarrow> nat \<times> bytes" where
  "encode_short_header dcid spin_bit key_phase pn_len buf =
     (let start = length buf;
          first_byte = 0x40;
          first_byte = (if spin_bit then first_byte OR 0x20 else first_byte);
          first_byte = (if key_phase then first_byte OR 0x04 else first_byte);
          first_byte = first_byte OR ((pn_len - 1) AND 0x03);
          buf = buf @ [first_byte] @ cid_as_slice dcid
      in (length buf - start, buf))"

definition encode_version_negotiation ::
    "ConnectionId \<Rightarrow> ConnectionId \<Rightarrow> u32 list \<Rightarrow> bytes" where
  "encode_version_negotiation dcid scid supported_versions =
     [0x80] @ [0, 0, 0, 0]
     @ [word_of_nat (cid_len dcid)] @ cid_as_slice dcid
     @ [word_of_nat (cid_len scid)] @ cid_as_slice scid
     @ concat (map (to_be_bytes 4) supported_versions)"

section \<open>Packet fields after the header\<close>

record InitialPacket =
  ip_token :: bytes
  ip_pn_offset :: nat
  ip_pn_len :: u8
  ip_length :: u64

record HandshakePacket =
  hp_pn_offset :: nat
  hp_pn_len :: u8
  hp_length :: u64

record ZeroRttPacket =
  zp_pn_offset :: nat
  zp_pn_len :: u8
  zp_length :: u64

definition parse_initial_fields :: "bytes \<Rightarrow> nat \<Rightarrow> u8 \<Rightarrow> QuicError + InitialPacket" where
  "parse_initial_fields buf header_len first_byte =
     and_then (decode_varint (drop header_len buf)) (\<lambda>(token_len, consumed).
       let offset = header_len + consumed; token_len = unat token_len in
       if length buf < offset + token_len
       then Inl (InvalidPacket (Msg ''initial packet truncated at token''))
       else
       let token = take token_len (drop offset buf); offset = offset + token_len in
       and_then (decode_varint (drop offset buf)) (\<lambda>(length', consumed).
         let offset = offset + consumed; pn_len = (first_byte AND 0x03) + 1 in
         Inr \<lparr>ip_token = token, ip_pn_offset = offset, ip_pn_len = pn_len, ip_length = length'\<rparr>))"

definition parse_handshake_fields :: "bytes \<Rightarrow> nat \<Rightarrow> u8 \<Rightarrow> QuicError + HandshakePacket" where
  "parse_handshake_fields buf header_len first_byte =
     and_then (decode_varint (drop header_len buf)) (\<lambda>(length', consumed).
       let offset = header_len + consumed; pn_len = (first_byte AND 0x03) + 1 in
       Inr \<lparr>hp_pn_offset = offset, hp_pn_len = pn_len, hp_length = length'\<rparr>)"

definition parse_zero_rtt_fields :: "bytes \<Rightarrow> nat \<Rightarrow> u8 \<Rightarrow> QuicError + ZeroRttPacket" where
  "parse_zero_rtt_fields buf header_len first_byte =
     and_then (decode_varint (drop header_len buf)) (\<lambda>(length', consumed).
       let offset = header_len + consumed; pn_len = (first_byte AND 0x03) + 1 in
       Inr \<lparr>zp_pn_offset = offset, zp_pn_len = pn_len, zp_length = length'\<rparr>)"

definition encode_initial_packet ::
    "ConnectionId \<Rightarrow> ConnectionId \<Rightarrow> bytes \<Rightarrow> u64 \<Rightarrow> u64 \<Rightarrow> bytes \<Rightarrow> nat
     \<Rightarrow> QuicError + bytes \<times> nat \<times> u8" where
  "encode_initial_packet dcid scid token pn largest_acked payload aead_tag_len =
     (let (pn_bytes, pn_len) = encode_packet_number pn largest_acked;
          (_, buf) = encode_long_header LInitial dcid scid pn_len [];
          length' = ucast pn_len + word_of_nat (length payload) + word_of_nat aead_tag_len
      in case run_enc [encode_varint (word_of_nat (length token)), push_bytes token,
                       encode_varint length'] buf of
           (Inl e, _) \<Rightarrow> Inl e
         | (Inr _, buf) \<Rightarrow> Inr (buf @ pn_bytes @ payload, length buf, pn_len))"

definition encode_handshake_packet ::
    "ConnectionId \<Rightarrow> ConnectionId \<Rightarrow> u64 \<Rightarrow> u64 \<Rightarrow> bytes \<Rightarrow> nat
     \<Rightarrow> QuicError + bytes \<times> nat \<times> u8" where
  "encode_handshake_packet dcid scid pn largest_acked payload aead_tag_len =
     (let (pn_bytes, pn_len) = encode_packet_number pn largest_acked;
          (_, buf) = encode_long_header LHandshake dcid scid pn_len [];
          length' = ucast pn_len + word_of_nat (length payload) + word_of_nat aead_tag_len
      in case encode_varint length' buf of
           (Inl e, _) \<Rightarrow> Inl e
         | (Inr _, buf) \<Rightarrow> Inr (buf @ pn_bytes @ payload, length buf, pn_len))"

definition encode_zero_rtt_packet ::
    "ConnectionId \<Rightarrow> ConnectionId \<Rightarrow> u64 \<Rightarrow> u64 \<Rightarrow> bytes \<Rightarrow> nat
     \<Rightarrow> QuicError + bytes \<times> nat \<times> u8" where
  "encode_zero_rtt_packet dcid scid pn largest_acked payload aead_tag_len =
     (let (pn_bytes, pn_len) = encode_packet_number pn largest_acked;
          (_, buf) = encode_long_header LZeroRtt dcid scid pn_len [];
          length' = ucast pn_len + word_of_nat (length payload) + word_of_nat aead_tag_len
      in case encode_varint length' buf of
           (Inl e, _) \<Rightarrow> Inl e
         | (Inr _, buf) \<Rightarrow> Inr (buf @ pn_bytes @ payload, length buf, pn_len))"

definition encode_one_rtt_packet ::
    "ConnectionId \<Rightarrow> bool \<Rightarrow> bool \<Rightarrow> u64 \<Rightarrow> u64 \<Rightarrow> bytes \<Rightarrow> bytes \<times> nat \<times> u8" where
  "encode_one_rtt_packet dcid spin_bit key_phase pn largest_acked payload =
     (let (pn_bytes, pn_len) = encode_packet_number pn largest_acked;
          (_, buf) = encode_short_header dcid spin_bit key_phase pn_len []
      in (buf @ pn_bytes @ payload, length buf, pn_len))"

definition one_rtt_pn_offset :: "nat \<Rightarrow> nat" where
  "one_rtt_pn_offset dcid_len = 1 + dcid_len"

section \<open>Lemmas on connection IDs\<close>

lemma unat_of_nat_u8: "n < 256 \<Longrightarrow> unat (word_of_nat n :: u8) = n"
  by (simp add: unsigned_of_nat take_bit_nat_eq_self)

lemma wf_cid_from_slice [simp]: "wf_cid (cid_from_slice data)"
  by (simp add: wf_cid_def cid_from_slice_def cid_len_def MAX_CID_LEN_def Let_def unat_of_nat_u8)

lemma wf_cid_generate:
  "(\<And>n. length (random n) = n) \<Longrightarrow> wf_cid (cid_generate random len)"
proof -
  have "unat (min len (word_of_nat MAX_CID_LEN)) \<le> 20"
    by (simp add: MAX_CID_LEN_def min_def word_le_nat_alt)
  then show "(\<And>n. length (random n) = n) \<Longrightarrow> wf_cid (cid_generate random len)"
    by (simp add: wf_cid_def cid_generate_def cid_len_def MAX_CID_LEN_def Let_def)
qed

lemma cid_as_slice_from_slice [simp]:
  "length data \<le> MAX_CID_LEN \<Longrightarrow> cid_as_slice (cid_from_slice data) = data"
  by (simp add: cid_as_slice_def cid_from_slice_def MAX_CID_LEN_def Let_def unat_of_nat_u8)

lemma length_cid_as_slice: "wf_cid c \<Longrightarrow> length (cid_as_slice c) = cid_len c"
  by (simp add: wf_cid_def cid_as_slice_def cid_len_def)

lemma cid_len_le: "wf_cid c \<Longrightarrow> cid_len c \<le> 20"
  by (simp add: wf_cid_def MAX_CID_LEN_def)

lemma cid_from_as_slice [simp]: "wf_cid c \<Longrightarrow> cid_from_slice (cid_as_slice c) = c"
proof -
  assume w: "wf_cid c"
  then have l: "length (cid_as_slice c) = cid_len c" "cid_len c \<le> MAX_CID_LEN"
    by (simp_all add: length_cid_as_slice wf_cid_def)
  have "cid_as_slice c @ replicate (MAX_CID_LEN - cid_len c) 0 = cid_array c"
    using w append_take_drop_id [of "cid_len c" "cid_array c"]
    by (simp add: wf_cid_def cid_as_slice_def cid_len_def)
  moreover have "(word_of_nat (cid_len c) :: u8) = cid_len_byte c" by (simp add: cid_len_def)
  ultimately show ?thesis using l by (simp add: cid_from_slice_def Let_def min_def)
qed

lemma cid_slice_inj: "wf_cid c \<Longrightarrow> wf_cid d \<Longrightarrow> cid_as_slice c = cid_as_slice d \<Longrightarrow> c = d"
  by (metis cid_from_as_slice)

section \<open>Header round trips\<close>

lemma from_bits_long_type [simp]: "from_bits (long_type_bits t) = Inr t"
  by (cases t) (simp_all add: from_bits_def)

lemma long_first_byte:
  assumes "pn_len \<in> {1, 2, 3, 4}"
  shows "is_long_header (0xc0 OR push_bit 4 (long_type_bits t) OR (pn_len - 1))"
    and "drop_bit 4 ((0xc0 OR push_bit 4 (long_type_bits t) OR (pn_len - 1)) AND 0x30) = long_type_bits t"
    and "((0xc0 OR push_bit 4 (long_type_bits t) OR (pn_len - 1)) AND 0x03) + 1 = pn_len"
  using assms by (cases t; auto simp: is_long_header_def)+

lemma from_be_bytes_version [simp]: "(from_be_bytes [0, 0, 0, 1] :: u32) = 1" "(from_be_bytes [0, 0, 0, 0] :: u32) = 0"
  by (simp_all add: from_be_bytes_def)

lemma version_bytes: "to_be_bytes 4 QUIC_VERSION_1 = [0, 0, 0, 1]"
  by (simp add: to_be_bytes_numerals QUIC_VERSION_1_def)

lemma parse_long_layout:
  assumes "wf_cid dcid" "wf_cid scid" "is_long_header fb"
    and "buf = [fb, v1, v2, v3, v4] @ [word_of_nat (cid_len dcid)] @ cid_as_slice dcid
                @ [word_of_nat (cid_len scid)] @ cid_as_slice scid @ rest"
  shows "parse_header buf k =
    (if from_be_bytes [v1, v2, v3, v4] = (0 :: u32)
     then Inr (HVersionNegotiation dcid scid (read_versions rest))
     else and_then (from_bits (drop_bit 4 (fb AND 0x30))) (\<lambda>packet_type.
        Inr (HLong \<lparr>lh_packet_type = packet_type, lh_first_byte = fb,
                     lh_version = from_be_bytes [v1, v2, v3, v4], lh_dcid = dcid, lh_scid = scid,
                     lh_header_len = 7 + cid_len dcid + cid_len scid\<rparr>)))"
proof -
  have u: "unat (word_of_nat (cid_len dcid) :: u8) = cid_len dcid"
    "unat (word_of_nat (cid_len scid) :: u8) = cid_len scid"
    using assms by (auto simp: cid_len_def)
  note l = length_cid_as_slice [OF assms(1)] length_cid_as_slice [OF assms(2)]
  have d: "take (cid_len dcid) (drop 6 buf) = cid_as_slice dcid" "buf ! 5 = word_of_nat (cid_len dcid)"
    "take 5 buf = [fb, v1, v2, v3, v4]"
    using assms(4) l by (simp_all add: drop_Cons' nth_Cons')
  have s: "buf ! (6 + cid_len dcid) = word_of_nat (cid_len scid)"
    "drop (7 + cid_len dcid) buf = cid_as_slice scid @ rest"
    "drop (7 + cid_len dcid + cid_len scid) buf = rest"
    using assms(4) l by (simp_all add: drop_Cons' nth_Cons' nth_append)
  have f: "buf ! 0 = fb" "buf ! 1 = v1" "buf ! 2 = v2" "buf ! 3 = v3" "buf ! 4 = v4" "buf \<noteq> []"
    "length buf = 7 + cid_len dcid + cid_len scid + length rest"
    using assms(4) l by (simp_all add: nth_Cons')
  have t: "take (cid_len scid) (cid_as_slice scid @ rest) = cid_as_slice scid" using l by simp
  show ?thesis
    unfolding parse_header_def parse_long_header_def Let_def
    using assms(1-3) cid_len_le [OF assms(1)] cid_len_le [OF assms(2)]
    by (simp only: f d u s t cid_from_as_slice) simp
qed

lemma read_versions_concat [simp]: "read_versions (concat (map (to_be_bytes 4) vs)) = vs"
proof (induction vs)
  case (Cons v vs)
  have "unat (from_be_bytes (to_be_bytes 4 v) :: u32) = unat v"
    using unsigned_less [of v, where 'a = nat] by (simp add: unat_from_be_bytes)
  then have "from_be_bytes (to_be_bytes 4 v) = v" by (simp add: word_unat_eq_iff)
  with Cons show ?case by (simp add: to_be_bytes_numerals)
qed simp

lemma parse_encode_long_header:
  assumes "wf_cid dcid" "wf_cid scid" "pn_len \<in> {1, 2, 3, 4}"
    and "encode_long_header t dcid scid pn_len buf = (n, buf')"
  obtains out where "buf' = buf @ out" "n = length out"
    "n = 7 + cid_len dcid + cid_len scid"
    "\<And>rest k. parse_header (out @ rest) k = Inr (HLong
       \<lparr>lh_packet_type = t, lh_first_byte = 0xc0 OR push_bit 4 (long_type_bits t) OR (pn_len - 1),
        lh_version = QUIC_VERSION_1, lh_dcid = dcid, lh_scid = scid, lh_header_len = n\<rparr>)"
proof
  let ?fb = "0xc0 OR push_bit 4 (long_type_bits t) OR (pn_len - 1)"
  let ?out = "[?fb, 0, 0, 0, 1] @ [word_of_nat (cid_len dcid)] @ cid_as_slice dcid
                @ [word_of_nat (cid_len scid)] @ cid_as_slice scid"
  show "buf' = buf @ ?out" "n = length ?out"
    using assms(4) by (auto simp: encode_long_header_def Let_def version_bytes)
  then show n: "n = 7 + cid_len dcid + cid_len scid"
    using assms(1,2) by (simp add: length_cid_as_slice)
  fix rest k
  show "parse_header (?out @ rest) k = Inr (HLong
       \<lparr>lh_packet_type = t, lh_first_byte = ?fb,
        lh_version = QUIC_VERSION_1, lh_dcid = dcid, lh_scid = scid, lh_header_len = n\<rparr>)"
    using parse_long_layout [OF assms(1,2) long_first_byte(1) [OF assms(3), of t],
        of "?out @ rest" 0 0 0 1 rest k] long_first_byte(2) [OF assms(3), of t] n
    by (simp add: QUIC_VERSION_1_def)
qed

text \<open>C37: parsing what \<open>encode_long_header\<close> pushed returns the packet type, both connection IDs,
  version 1, and a header length equal to the number of bytes pushed, whatever payload follows; the
  packet-number length comes back from the low bits of the first byte.\<close>

theorem long_header_roundtrip:
  assumes "wf_cid dcid" and "wf_cid scid" and "pn_len \<in> {1, 2, 3, 4}"
  shows "\<exists>out h. encode_long_header t dcid scid pn_len buf = (length out, buf @ out)
     \<and> parse_header (out @ rest) k = Inr (HLong h)
     \<and> lh_packet_type h = t \<and> lh_version h = QUIC_VERSION_1 \<and> lh_dcid h = dcid \<and> lh_scid h = scid
     \<and> lh_header_len h = length out \<and> (lh_first_byte h AND 0x03) + 1 = pn_len"
proof -
  obtain n buf' where e: "encode_long_header t dcid scid pn_len buf = (n, buf')" by fastforce
  from parse_encode_long_header [OF assms e] obtain out where "buf' = buf @ out" "n = length out"
    "\<And>rest k. parse_header (out @ rest) k = Inr (HLong
       \<lparr>lh_packet_type = t, lh_first_byte = 0xc0 OR push_bit 4 (long_type_bits t) OR (pn_len - 1),
        lh_version = QUIC_VERSION_1, lh_dcid = dcid, lh_scid = scid, lh_header_len = n\<rparr>)" by metis
  with e show ?thesis using long_first_byte(3) [OF assms(3), of t]
    by (intro exI [of _ out]) auto
qed

theorem long_header_roundtrip_witness:
  "wf_cid (cid_from_slice [1, 2, 3, 4]) \<and>
   (\<exists>out h. encode_long_header LHandshake (cid_from_slice [1, 2, 3, 4]) (cid_from_slice []) 2 [9]
        = (length out, [9] @ out)
     \<and> parse_header (out @ [0xff]) 8 = Inr (HLong h)
     \<and> lh_packet_type h = LHandshake \<and> lh_version h = QUIC_VERSION_1
     \<and> lh_dcid h = cid_from_slice [1, 2, 3, 4] \<and> lh_scid h = cid_from_slice []
     \<and> lh_header_len h = length out \<and> (lh_first_byte h AND 0x03) + 1 = 2)"
  using long_header_roundtrip [of "cid_from_slice [1, 2, 3, 4]" "cid_from_slice []" 2 LHandshake "[9]" "[0xff]" 8]
  by simp

lemma short_first_byte:
  fixes sp kp :: bool
  assumes "pn_len \<in> {1, 2, 3, 4}"
  defines "fb \<equiv> (let b = 0x40; b = (if sp then b OR 0x20 else b); b = (if kp then b OR 0x04 else b)
                  in b OR ((pn_len - 1) AND 0x03)) :: u8"
  shows "\<not> is_long_header fb" "(fb AND 0x20 \<noteq> 0) = sp" "(fb AND 0x04 \<noteq> 0) = kp" "(fb AND 0x03) + 1 = pn_len"
  unfolding fb_def using assms(1) by (cases sp; cases kp; auto simp: is_long_header_def)+

lemma version_negotiation_roundtrip:
  "wf_cid dcid \<Longrightarrow> wf_cid scid \<Longrightarrow>
   parse_header (encode_version_negotiation dcid scid vs) k = Inr (HVersionNegotiation dcid scid vs)"
  by (subst parse_long_layout [of dcid scid "0x80" _ 0 0 0 0 "concat (map (to_be_bytes 4) vs)"])
     (auto simp: is_long_header_def encode_version_negotiation_def)


lemma short_header_roundtrip:
  assumes "wf_cid dcid" "pn_len \<in> {1, 2, 3, 4}" "rest \<noteq> []"
    and "encode_short_header dcid sp kp pn_len [] = (n, out)"
  shows "\<exists>h. parse_header (out @ rest) (cid_len dcid) = Inr (HShort h) \<and> sh_spin_bit h = sp
     \<and> sh_key_phase h = kp \<and> sh_dcid h = dcid \<and> sh_header_len h = n \<and> n = length out
     \<and> n = one_rtt_pn_offset (cid_len dcid) \<and> (sh_first_byte h AND 0x03) + 1 = pn_len"
proof -
  let ?fb = "(let b = 0x40; b = (if sp then b OR 0x20 else b); b = (if kp then b OR 0x04 else b)
                  in b OR ((pn_len - 1) AND 0x03)) :: u8"
  have o: "out = ?fb # cid_as_slice dcid" "n = length out"
    using assms(4) by (auto simp: encode_short_header_def Let_def)
  note l = length_cid_as_slice [OF assms(1)]
  have "length (out @ rest) \<ge> 1 + cid_len dcid + 1" using o l assms(3) by (cases rest) simp_all
  moreover have "take (cid_len dcid) (drop 1 (out @ rest)) = cid_as_slice dcid" "(out @ rest) ! 0 = ?fb"
    "out @ rest \<noteq> []"
    using o l by simp_all
  ultimately show ?thesis
    using short_first_byte [OF assms(2), of sp kp] assms(1,3) o(2) l
    unfolding parse_header_def parse_short_header_def
    by (simp add: Let_def one_rtt_pn_offset_def o(1))
qed

section \<open>Whole packets\<close>

lemma unat_packet_length:
  assumes "n + m + 4 \<le> 2 ^ 62 - 1" "pn_len \<in> {1, 2, 3, 4 :: u8}"
  shows "unat (ucast pn_len + word_of_nat n + word_of_nat m :: u64) = unat pn_len + n + m"
    and "ucast pn_len + word_of_nat n + word_of_nat m \<le> MAX_VARINT"
proof -
  show "unat (ucast pn_len + word_of_nat n + word_of_nat m :: u64) = unat pn_len + n + m"
    using assms by (auto simp: unat_word_ariths unsigned_of_nat take_bit_nat_eq_self)
  then show "ucast pn_len + word_of_nat n + word_of_nat m \<le> MAX_VARINT"
    using assms by (auto simp: word_le_nat_alt unat_MAX_VARINT)
qed

lemma word_of_nat_le_MAX_VARINT:
  "n \<le> 2 ^ 62 - 1 \<Longrightarrow> (word_of_nat n :: u64) \<le> MAX_VARINT \<and> unat (word_of_nat n :: u64) = n"
  by (simp add: word_le_nat_alt unat_MAX_VARINT unsigned_of_nat take_bit_nat_eq_self)

text \<open>C31: an Initial packet built by \<open>encode_initial_packet\<close> is parsed back by \<open>parse_header\<close> and
  \<open>parse_initial_fields\<close> into the same connection IDs and token, the packet number sits at the
  reported offset with the reported length, the Length field covers packet number, payload and tag,
  and the payload follows.\<close>

theorem initial_packet_roundtrip:
  assumes "wf_cid dcid" and "wf_cid scid"
    and "length token \<le> 2 ^ 62 - 1" and "length payload + tag + 4 \<le> 2 ^ 62 - 1"
  shows "\<exists>pkt off pn_len h f.
     encode_initial_packet dcid scid token pn la payload tag = Inr (pkt, off, pn_len)
     \<and> parse_header pkt k = Inr (HLong h)
     \<and> lh_packet_type h = LInitial \<and> lh_dcid h = dcid \<and> lh_scid h = scid
     \<and> parse_initial_fields pkt (lh_header_len h) (lh_first_byte h) = Inr f
     \<and> ip_token f = token \<and> ip_pn_offset f = off \<and> ip_pn_len f = pn_len
     \<and> unat (ip_length f) = unat pn_len + length payload + tag
     \<and> (take (unat pn_len) (drop off pkt), pn_len) = encode_packet_number pn la
     \<and> drop (off + unat pn_len) pkt = payload"
proof -
  obtain pb pl where pn: "encode_packet_number pn la = (pb, pl)" by fastforce
  note E = encode_packet_number_spec [OF pn]
  obtain n buf' where e: "encode_long_header LInitial dcid scid pl [] = (n, buf')" by fastforce
  from parse_encode_long_header [OF assms(1,2) E(1) e] obtain out where o: "buf' = out" "n = length out"
    and p: "\<And>rest k. parse_header (out @ rest) k = Inr (HLong
       \<lparr>lh_packet_type = LInitial, lh_first_byte = 0xc0 OR push_bit 4 (long_type_bits LInitial) OR (pl - 1),
        lh_version = QUIC_VERSION_1, lh_dcid = dcid, lh_scid = scid, lh_header_len = n\<rparr>)"
    by (metis append_Nil)
  let ?tl = "word_of_nat (length token) :: u64"
  let ?L = "ucast pl + word_of_nat (length payload) + word_of_nat tag :: u64"
  note tl = word_of_nat_le_MAX_VARINT [OF assms(3)]
  note L = unat_packet_length [OF assms(4) E(1)]
  let ?off = "length out + length (varint_bytes ?tl) + length token + length (varint_bytes ?L)"
  let ?pkt = "out @ varint_bytes ?tl @ token @ varint_bytes ?L @ pb @ payload"
  have enc: "encode_initial_packet dcid scid token pn la payload tag = Inr (?pkt, ?off, pl)"
    using tl L(2) by (simp add: encode_initial_packet_def pn e o encode_varint_ok push_bytes_def)
  have hdr: "parse_initial_fields ?pkt n fb = Inr \<lparr>ip_token = token, ip_pn_offset = ?off,
      ip_pn_len = (fb AND 0x03) + 1, ip_length = ?L\<rparr>" for fb
    using tl L(2) o(2) by (simp add: parse_initial_fields_def decode_varint_bytes Let_def add.assoc)
  have "take (unat pl) (drop ?off ?pkt) = pb" "drop (?off + unat pl) ?pkt = payload"
    using E(2) by (simp_all add: add.assoc)
  then show ?thesis
    using enc p [of "varint_bytes ?tl @ token @ varint_bytes ?L @ pb @ payload" k]
      long_first_byte(3) [OF E(1), of LInitial] L(1) pn hdr
    by (intro exI conjI) (assumption | simp)+
qed


theorem initial_packet_roundtrip_witness:
  "wf_cid (cid_from_slice [1, 2, 3]) \<and> (\<exists>pkt off pn_len h f.
     encode_initial_packet (cid_from_slice [1, 2, 3]) (cid_from_slice [8]) [7, 7] 300 2 [5, 6] 16 = Inr (pkt, off, pn_len)
     \<and> parse_header pkt 8 = Inr (HLong h)
     \<and> lh_packet_type h = LInitial \<and> lh_dcid h = cid_from_slice [1, 2, 3] \<and> lh_scid h = cid_from_slice [8]
     \<and> parse_initial_fields pkt (lh_header_len h) (lh_first_byte h) = Inr f
     \<and> ip_token f = [7, 7] \<and> ip_pn_offset f = off \<and> ip_pn_len f = pn_len
     \<and> unat (ip_length f) = unat pn_len + length [5, 6 :: u8] + 16
     \<and> (take (unat pn_len) (drop off pkt), pn_len) = encode_packet_number 300 2
     \<and> drop (off + unat pn_len) pkt = [5, 6])"
  using initial_packet_roundtrip [of "cid_from_slice [1, 2, 3]" "cid_from_slice [8]" "[7, 7]" "[5, 6]" 16 300 2 8]
  by simp

lemma read_versions_length: "4 * length (read_versions xs) \<le> length xs"
  by (induction xs rule: read_versions.induct) simp_all

lemma cid_len_from_slice_le: "cid_len (cid_from_slice xs) \<le> length xs"
  by (simp add: cid_len_def cid_from_slice_def Let_def MAX_CID_LEN_def unat_of_nat_u8)

lemma version_negotiation_bound:
  assumes "7 + d + s \<le> length buf"
  shows "7 + cid_len (cid_from_slice (take d xs)) + cid_len (cid_from_slice (take s ys))
     + 4 * length (read_versions (drop (7 + d + s) buf)) \<le> length buf"
proof -
  have "cid_len (cid_from_slice (take d xs)) \<le> d" "cid_len (cid_from_slice (take s ys)) \<le> s"
    using cid_len_from_slice_le [of "take d xs"] cid_len_from_slice_le [of "take s ys"] by simp_all
  moreover have "4 * length (read_versions (drop (7 + d + s) buf)) \<le> length buf - (7 + d + s)"
    using read_versions_length [of "drop (7 + d + s) buf"] by simp
  ultimately show ?thesis using assms by linarith
qed

text \<open>C38: whatever bytes arrive, a parsed header lies within the datagram and carries well-formed
  connection IDs; a long header that is not version negotiation has a nonzero version.\<close>

theorem parse_header_safe:
  assumes "parse_header buf k = Inr hdr"
  shows "case hdr of
       HLong h \<Rightarrow> lh_header_len h \<le> length buf \<and> wf_cid (lh_dcid h) \<and> wf_cid (lh_scid h)
                  \<and> lh_version h \<noteq> 0 \<and> is_long_header (lh_first_byte h)
     | HShort h \<Rightarrow> sh_header_len h < length buf \<and> sh_header_len h = 1 + k \<and> wf_cid (sh_dcid h)
                  \<and> \<not> is_long_header (sh_first_byte h)
     | HVersionNegotiation d s vs \<Rightarrow> wf_cid d \<and> wf_cid s \<and> 7 + cid_len d + cid_len s + 4 * length vs \<le> length buf"
proof (cases "is_long_header (buf ! 0)")
  case True
  then have "parse_long_header buf = Inr hdr" using assms by (simp add: parse_header_def split: if_splits)
  with True show ?thesis
    by (auto simp: parse_long_header_def Let_def and_then_eq_Inr not_less
             intro: version_negotiation_bound split: if_splits)
next
  case False
  then have "parse_short_header buf k = Inr hdr" using assms by (simp add: parse_header_def split: if_splits)
  with False show ?thesis by (auto simp: parse_short_header_def Let_def split: if_splits)
qed

theorem parse_header_safe_witness:
  "parse_header [0x40, 9, 9, 1] 2 = Inr (HShort \<lparr>sh_first_byte = 0x40, sh_spin_bit = False,
       sh_key_phase = False, sh_dcid = cid_from_slice [9, 9], sh_header_len = 3\<rparr>)
   \<and> (3::nat) < length [0x40, 9, 9, 1 :: u8]"
proof -
  have "parse_header [0x40, 9, 9, 1] 2 = Inr (HShort \<lparr>sh_first_byte = 0x40, sh_spin_bit = False,
       sh_key_phase = False, sh_dcid = cid_from_slice [9, 9], sh_header_len = 3\<rparr>)"
    by (simp add: parse_header_def parse_short_header_def is_long_header_def)
  then show ?thesis using parse_header_safe [of "[0x40, 9, 9, 1]" 2] by fastforce
qed

end
