(* ===== verification/Codec.thy ===== *)
theory Codec
  imports Prelude
begin

text \<open>
  The contract between an \<open>encode\<close> method that appends to a buffer and the \<open>decode\<close> function that
  reads a prefix of a buffer and reports how many bytes it consumed, and what follows from it for
  sequences of values and for the loop that decodes a whole payload.
\<close>

locale prefix_codec =
  fixes enc :: "'a \<Rightarrow> 'e writer"
    and dec :: "bytes \<Rightarrow> 'e + 'a \<times> nat"
    and wf :: "'a \<Rightarrow> bool"
  assumes enc_dec: "wf x \<Longrightarrow> enc x buf = (Inr (), buf') \<Longrightarrow>
      \<exists>out. buf' = buf @ out \<and> (\<forall>rest. dec (out @ rest) = Inr (x, length out))"
    and dec_consumes: "dec buf = Inr (x, n) \<Longrightarrow> 0 < n \<and> n \<le> length buf"
begin

lemma enc_nonempty:
  assumes "wf x" and "enc x buf = (Inr (), buf')"
  shows "length buf < length buf'"
proof -
  from enc_dec [OF assms] obtain out where "buf' = buf @ out" and "dec (out @ []) = Inr (x, length out)"
    by blast
  with dec_consumes [of "out @ []" x "length out"] show ?thesis by simp
qed

lemma enc_inj:
  assumes "wf x" "wf y" and "enc x [] = (Inr (), bs)" and "enc y [] = (Inr (), bs @ more)"
  shows "x = y" and "more = []"
proof -
  from enc_dec [OF assms(1,3)] have x: "dec (bs @ more) = Inr (x, length bs)" by auto
  from enc_dec [OF assms(2,4)] have "\<forall>rest. dec ((bs @ more) @ rest) = Inr (y, length (bs @ more))" by auto
  then have y: "dec ((bs @ more) @ []) = Inr (y, length (bs @ more))" by blast
  from x y show "x = y" and "more = []" by simp_all
qed

end

locale payload_codec = prefix_codec +
  fixes dec_all :: "bytes \<Rightarrow> 'a + 'b list"
  assumes dec_all_unfold: "dec_all buf =
     (if buf = [] then Inr []
      else and_then (dec buf) (\<lambda>(x, n). and_then (dec_all (drop n buf)) (\<lambda>xs. Inr (x # xs))))"
begin

lemma dec_all_append:
  assumes "wf x" and "enc x buf = (Inr (), buf @ out)"
  shows "dec_all (out @ rest) = and_then (dec_all rest) (\<lambda>xs. Inr (x # xs))"
proof -
  from enc_dec [OF assms] have d: "dec (out @ rest) = Inr (x, length out)" by auto
  then have "out @ rest \<noteq> []" using dec_consumes by fastforce
  with d show ?thesis by (subst dec_all_unfold) auto
qed

lemma dec_all_encoded:
  "list_all wf xs \<Longrightarrow> run_enc (map enc xs) buf = (Inr (), buf') \<Longrightarrow>
     \<exists>out. buf' = buf @ out \<and> dec_all out = Inr xs"
proof (induction xs arbitrary: buf)
  case Nil
  then show ?case by (auto simp: dec_all_unfold)
next
  case (Cons x xs)
  then obtain b where b: "enc x buf = (Inr (), b)" and r: "run_enc (map enc xs) b = (Inr (), buf')"
    by (auto split: prod.splits sum.splits)
  from Cons.prems(1) have "wf x" "list_all wf xs" by simp_all
  from enc_dec [OF this(1) b] obtain o1 where o1: "b = buf @ o1" by blast
  from Cons.IH [OF \<open>list_all wf xs\<close> r] obtain o2 where o2: "buf' = b @ o2" "dec_all o2 = Inr xs" by blast
  have "dec_all (o1 @ o2) = Inr (x # xs)"
    using dec_all_append [OF \<open>wf x\<close>, of buf o1 o2] b o1 o2 by simp
  with o1 o2 show ?case by (intro exI [of _ "o1 @ o2"]) simp
qed

end

end
