(* ===== verification/Frame.thy ===== *)
theory Frame
  imports Header Codec
begin

text \<open>
  QUIC frames (\<open>starfish-quic/src/frame/\<close>: \<open>mod.rs\<close>, \<open>ack.rs\<close>, \<open>crypto.rs\<close>, \<open>stream.rs\<close>): every
  frame type, its encoder, the frame decoder and the loop that decodes a packet payload.
  Fixed-size arrays (\<open>[u8; 8]\<close>, \<open>[u8; 16]\<close>) are byte lists whose length the well-formedness
  predicate states.  A length read as a varint fits \<open>usize\<close>, so \<open>as usize\<close> keeps its value.
\<close>

section \<open>Frame types\<close>

record AckRange =
  ar_start :: u64
  ar_end :: u64

record EcnCounts =
  ect0 :: u64
  ect1 :: u64
  ce :: u64

record AckFrame =
  largest_acknowledged :: u64
  ack_delay :: u64
  ack_ranges :: "AckRange list"
  ack_ecn :: "EcnCounts option"

record CryptoFrame =
  cf_offset :: u64
  cf_data :: bytes

record StreamFrame =
  sf_stream_id :: u64
  sf_offset :: u64
  sf_fin :: bool
  sf_data :: bytes

datatype Frame =
    Padding
  | Ping
  | Ack AckFrame
  | ResetStream u64 u64 u64
  | StopSending u64 u64
  | Crypto CryptoFrame
  | NewToken bytes
  | Stream StreamFrame
  | MaxData u64
  | MaxStreamData u64 u64
  | MaxStreams bool u64
  | DataBlocked u64
  | StreamDataBlocked u64 u64
  | StreamsBlocked bool u64
  | NewConnectionId u64 u64 bytes bytes
  | RetireConnectionId u64
  | PathChallenge bytes
  | PathResponse bytes
  | ConnectionClose bool u64 "u64 option" bytes
  | HandshakeDone

fun is_ack_eliciting :: "Frame \<Rightarrow> bool" where
  "is_ack_eliciting (Ack _) = False"
| "is_ack_eliciting Padding = False"
| "is_ack_eliciting _ = True"

fun is_retransmittable :: "Frame \<Rightarrow> bool" where
  "is_retransmittable (Ack _) = False"
| "is_retransmittable Padding = False"
| "is_retransmittable Ping = False"
| "is_retransmittable (PathChallenge _) = False"
| "is_retransmittable _ = True"

section \<open>Encoders\<close>

text \<open>The loop over the additional ACK ranges, with \<open>prev_smallest\<close> as its variable.\<close>

fun encode_more_ranges :: "u64 \<Rightarrow> AckRange list \<Rightarrow> QuicError writer list" where
  "encode_more_ranges prev_smallest [] = []"
| "encode_more_ranges prev_smallest (rng # ranges) =
     encode_varint (saturating_sub (saturating_sub prev_smallest (ar_end rng)) 2)
     # encode_varint (saturating_sub (ar_end rng) (ar_start rng))
     # encode_more_ranges (ar_start rng) ranges"

definition encode_ack :: "AckFrame \<Rightarrow> QuicError writer" where
  "encode_ack a = run_enc
     ([encode_varint (if ack_ecn a \<noteq> None then 0x03 else 0x02),
       encode_varint (largest_acknowledged a),
       encode_varint (ack_delay a),
       encode_varint (if ack_ranges a = [] then 0 else word_of_nat (length (ack_ranges a) - 1))]
      @ (case ack_ranges a of
           first # others \<Rightarrow>
             encode_varint (saturating_sub (largest_acknowledged a) (ar_start first))
             # encode_more_ranges (ar_start first) others
         | [] \<Rightarrow> [encode_varint 0])
      @ (case ack_ecn a of
           Some ecn \<Rightarrow> [encode_varint (ect0 ecn), encode_varint (ect1 ecn), encode_varint (ce ecn)]
         | None \<Rightarrow> []))"

definition encode_crypto :: "CryptoFrame \<Rightarrow> QuicError writer" where
  "encode_crypto c = run_enc
     [encode_varint 0x06, encode_varint (cf_offset c),
      encode_varint (word_of_nat (length (cf_data c))), push_bytes (cf_data c)]"

definition encode_stream :: "StreamFrame \<Rightarrow> QuicError writer" where
  "encode_stream s =
     (let type_byte = 0x08 :: u8;
          type_byte = type_byte OR 0x04;
          type_byte = type_byte OR 0x02;
          type_byte = (if sf_fin s then type_byte OR 0x01 else type_byte)
      in run_enc
         [encode_varint (ucast type_byte), encode_varint (sf_stream_id s),
          encode_varint (sf_offset s), encode_varint (word_of_nat (length (sf_data s))),
          push_bytes (sf_data s)])"

fun encode_frame :: "Frame \<Rightarrow> QuicError writer" where
  "encode_frame Padding = push_bytes [0x00]"
| "encode_frame Ping = push_bytes [0x01]"
| "encode_frame (Ack ack) = encode_ack ack"
| "encode_frame (ResetStream stream_id application_error_code final_size) = run_enc
     [encode_varint 0x04, encode_varint stream_id, encode_varint application_error_code,
      encode_varint final_size]"
| "encode_frame (StopSending stream_id application_error_code) = run_enc
     [encode_varint 0x05, encode_varint stream_id, encode_varint application_error_code]"
| "encode_frame (Crypto crypto) = encode_crypto crypto"
| "encode_frame (NewToken token) = run_enc
     [encode_varint 0x07, encode_varint (word_of_nat (length token)), push_bytes token]"
| "encode_frame (Stream stream) = encode_stream stream"
| "encode_frame (MaxData maximum_data) = run_enc
     [encode_varint 0x10, encode_varint maximum_data]"
| "encode_frame (MaxStreamData stream_id maximum_stream_data) = run_enc
     [encode_varint 0x11, encode_varint stream_id, encode_varint maximum_stream_data]"
| "encode_frame (MaxStreams bidirectional maximum_streams) = run_enc
     [encode_varint (if bidirectional then 0x12 else 0x13), encode_varint maximum_streams]"
| "encode_frame (DataBlocked maximum_data) = run_enc
     [encode_varint 0x14, encode_varint maximum_data]"
| "encode_frame (StreamDataBlocked stream_id maximum_stream_data) = run_enc
     [encode_varint 0x15, encode_varint stream_id, encode_varint maximum_stream_data]"
| "encode_frame (StreamsBlocked bidirectional maximum_streams) = run_enc
     [encode_varint (if bidirectional then 0x16 else 0x17), encode_varint maximum_streams]"
| "encode_frame (NewConnectionId sequence_number retire_prior_to connection_id stateless_reset_token) =
     run_enc
     [encode_varint 0x18, encode_varint sequence_number, encode_varint retire_prior_to,
      push_bytes [word_of_nat (length connection_id)], push_bytes connection_id,
      push_bytes stateless_reset_token]"
| "encode_frame (RetireConnectionId sequence_number) = run_enc
     [encode_varint 0x19, encode_varint sequence_number]"
| "encode_frame (PathChallenge data) = run_enc [encode_varint 0x1a, push_bytes data]"
| "encode_frame (PathResponse data) = run_enc [encode_varint 0x1b, push_bytes data]"
| "encode_frame (ConnectionClose is_transport error_code frame_type reason) = run_enc
     ([encode_varint (if is_transport then 0x1c else 0x1d), encode_varint error_code]
      @ (if is_transport
         then [encode_varint (case frame_type of Some t \<Rightarrow> t | None \<Rightarrow> 0)] else [])
      @ [encode_varint (word_of_nat (length reason)), push_bytes reason])"
| "encode_frame HandshakeDone = run_enc [encode_varint 0x1e]"

section \<open>Decoders\<close>

text \<open>The loop \<open>for _ in 0..range_count\<close>: the accumulator is the list of ranges so far.\<close>

fun decode_more_ranges ::
    "nat \<Rightarrow> bytes \<Rightarrow> nat \<Rightarrow> u64 \<Rightarrow> AckRange list \<Rightarrow> QuicError + AckRange list \<times> nat" where
  "decode_more_ranges 0 buf offset smallest ranges = Inr (ranges, offset)"
| "decode_more_ranges (Suc count) buf offset smallest ranges =
     and_then (decode_varint (drop offset buf)) (\<lambda>(gap, n).
     let offset = offset + n in
     and_then (decode_varint (drop offset buf)) (\<lambda>(ack_range, n).
     let offset = offset + n in
     and_then (ok_or (InvalidFrame (Msg ''ACK range gap overflow'')) (checked_add gap 2))
       (\<lambda>gap_to_next_range.
     and_then (ok_or (InvalidFrame (Msg ''ACK range gap underflow''))
         (checked_sub smallest gap_to_next_range)) (\<lambda>end.
     and_then (ok_or (InvalidFrame (Msg ''ACK range underflow'')) (checked_sub end ack_range))
       (\<lambda>start.
     decode_more_ranges count buf offset start
       (ranges @ [\<lparr>ar_start = start, ar_end = end\<rparr>]))))))"

definition decode_ack_frame :: "bytes \<Rightarrow> bool \<Rightarrow> QuicError + AckFrame \<times> nat" where
  "decode_ack_frame buf has_ecn =
     and_then (decode_varint (drop 0 buf)) (\<lambda>(largest_ack, n).
     let offset = 0 + n in
     and_then (decode_varint (drop offset buf)) (\<lambda>(ack_delay, n).
     let offset = offset + n in
     and_then (decode_varint (drop offset buf)) (\<lambda>(range_count, n).
     let offset = offset + n in
     and_then (decode_varint (drop offset buf)) (\<lambda>(first_ack_range, n).
     let offset = offset + n in
     and_then (ok_or (InvalidFrame (Msg ''ACK first range underflow''))
         (checked_sub largest_ack first_ack_range)) (\<lambda>first_start.
     and_then (decode_more_ranges (unat range_count) buf offset first_start
         [\<lparr>ar_start = first_start, ar_end = largest_ack\<rparr>]) (\<lambda>(ranges, offset).
     if has_ecn
     then and_then (decode_varint (drop offset buf)) (\<lambda>(e0, n).
          let offset = offset + n in
          and_then (decode_varint (drop offset buf)) (\<lambda>(e1, n).
          let offset = offset + n in
          and_then (decode_varint (drop offset buf)) (\<lambda>(c, n).
          let offset = offset + n in
          Inr (\<lparr>largest_acknowledged = largest_ack, ack_delay = ack_delay, ack_ranges = ranges,
                ack_ecn = Some \<lparr>ect0 = e0, ect1 = e1, ce = c\<rparr>\<rparr>, offset))))
     else Inr (\<lparr>largest_acknowledged = largest_ack, ack_delay = ack_delay, ack_ranges = ranges,
                ack_ecn = None\<rparr>, offset)))))))"

definition decode_crypto_frame :: "bytes \<Rightarrow> QuicError + CryptoFrame \<times> nat" where
  "decode_crypto_frame buf =
     and_then (decode_varint (drop 0 buf)) (\<lambda>(crypto_offset, n).
     let offset = 0 + n in
     and_then (decode_varint (drop offset buf)) (\<lambda>(len, n).
     let offset = offset + n; len = unat len in
     if length buf < offset + len
     then Inl (InvalidFrame (Msg ''CRYPTO frame data truncated''))
     else Inr (\<lparr>cf_offset = crypto_offset, cf_data = take len (drop offset buf)\<rparr>, offset + len)))"

definition decode_stream_frame :: "bytes \<Rightarrow> u8 \<Rightarrow> QuicError + StreamFrame \<times> nat" where
  "decode_stream_frame buf type_byte =
     (let has_offset = (type_byte AND 0x04 \<noteq> 0);
          has_length = (type_byte AND 0x02 \<noteq> 0);
          fin = (type_byte AND 0x01 \<noteq> 0)
      in
     and_then (decode_varint (drop 0 buf)) (\<lambda>(stream_id, n).
     let pos = 0 + n in
     and_then (if has_offset
               then and_then (decode_varint (drop pos buf)) (\<lambda>(off, n). Inr (off, pos + n))
               else Inr (0, pos)) (\<lambda>(offset, pos).
     and_then (if has_length
               then and_then (decode_varint (drop pos buf)) (\<lambda>(len, n).
                    let pos = pos + n; len = unat len in
                    if length buf < pos + len
                    then Inl (InvalidFrame (Msg ''STREAM frame data truncated''))
                    else Inr (take len (drop pos buf), pos + len))
               else Inr (drop pos buf, length buf)) (\<lambda>(data, pos).
     Inr (\<lparr>sf_stream_id = stream_id, sf_offset = offset, sf_fin = fin, sf_data = data\<rparr>, pos)))))"

text \<open>Reading one, two or three consecutive varints, as most frame types do.\<close>

definition varint1 :: "bytes \<Rightarrow> nat \<Rightarrow> (u64 \<Rightarrow> Frame) \<Rightarrow> QuicError + Frame \<times> nat" where
  "varint1 buf offset k =
     and_then (decode_varint (drop offset buf)) (\<lambda>(a, n). Inr (k a, offset + n))"

definition varint2 :: "bytes \<Rightarrow> nat \<Rightarrow> (u64 \<Rightarrow> u64 \<Rightarrow> Frame) \<Rightarrow> QuicError + Frame \<times> nat" where
  "varint2 buf offset k =
     and_then (decode_varint (drop offset buf)) (\<lambda>(a, n). varint1 buf (offset + n) (k a))"

definition varint3 :: "bytes \<Rightarrow> nat \<Rightarrow> (u64 \<Rightarrow> u64 \<Rightarrow> u64 \<Rightarrow> Frame) \<Rightarrow> QuicError + Frame \<times> nat" where
  "varint3 buf offset k =
     and_then (decode_varint (drop offset buf)) (\<lambda>(a, n). varint2 buf (offset + n) (k a))"

definition decode_new_token :: "bytes \<Rightarrow> nat \<Rightarrow> QuicError + Frame \<times> nat" where
  "decode_new_token buf offset =
     and_then (decode_varint (drop offset buf)) (\<lambda>(token_len, n).
     let offset = offset + n; token_len = unat token_len in
     if length buf < offset + token_len
     then Inl (InvalidFrame (Msg ''NEW_TOKEN truncated''))
     else Inr (NewToken (take token_len (drop offset buf)), offset + token_len))"

definition decode_new_connection_id :: "bytes \<Rightarrow> nat \<Rightarrow> QuicError + Frame \<times> nat" where
  "decode_new_connection_id buf offset =
     and_then (decode_varint (drop offset buf)) (\<lambda>(seq, n).
     let offset = offset + n in
     and_then (decode_varint (drop offset buf)) (\<lambda>(retire, n).
     let offset = offset + n in
     if offset \<ge> length buf then Inl (InvalidFrame (Msg ''NEW_CONNECTION_ID truncated''))
     else
     let cid_len = unat (buf ! offset) in
     if \<not> (1 \<le> cid_len \<and> cid_len \<le> MAX_CID_LEN)
     then Inl (InvalidFrame (Msg ''NEW_CONNECTION_ID invalid connection ID length''))
     else
     let offset = offset + 1 in
     if length buf < offset + cid_len + 16
     then Inl (InvalidFrame (Msg ''NEW_CONNECTION_ID truncated''))
     else
     let connection_id = take cid_len (drop offset buf); offset = offset + cid_len;
         token = take 16 (drop offset buf); offset = offset + 16
     in Inr (NewConnectionId seq retire connection_id token, offset)))"

definition decode_path_data :: "message \<Rightarrow> (bytes \<Rightarrow> Frame) \<Rightarrow> bytes \<Rightarrow> nat \<Rightarrow> QuicError + Frame \<times> nat" where
  "decode_path_data truncated k buf offset =
     (if length buf < offset + 8 then Inl (InvalidFrame truncated)
      else Inr (k (take 8 (drop offset buf)), offset + 8))"

definition decode_connection_close :: "bytes \<Rightarrow> nat \<Rightarrow> bool \<Rightarrow> QuicError + Frame \<times> nat" where
  "decode_connection_close buf offset is_transport =
     and_then (decode_varint (drop offset buf)) (\<lambda>(error_code, n).
     let offset = offset + n in
     and_then (if is_transport
               then and_then (decode_varint (drop offset buf)) (\<lambda>(ft, n). Inr (Some ft, offset + n))
               else Inr (None, offset)) (\<lambda>(frame_type_field, offset).
     and_then (decode_varint (drop offset buf)) (\<lambda>(reason_len, n).
     let offset = offset + n; reason_len = unat reason_len in
     if length buf < offset + reason_len
     then Inl (InvalidFrame (Msg ''CONNECTION_CLOSE reason truncated''))
     else Inr (ConnectionClose is_transport error_code frame_type_field
                 (take reason_len (drop offset buf)), offset + reason_len))))"

definition decode_frame :: "bytes \<Rightarrow> QuicError + Frame \<times> nat" where
  "decode_frame buf =
     (if buf = [] then Inl (InvalidFrame (Msg ''empty frame data''))
      else if buf ! 0 = 0x00 then Inr (Padding, 1)
      else
      and_then (decode_varint buf) (\<lambda>(frame_type, type_len).
      let offset = type_len in
      if frame_type = 0x01 then Inr (Ping, offset)
      else if frame_type = 0x02 \<or> frame_type = 0x03
      then and_then (decode_ack_frame (drop offset buf) (frame_type = 0x03))
             (\<lambda>(ack, consumed). Inr (Ack ack, offset + consumed))
      else if frame_type = 0x04 then varint3 buf offset ResetStream
      else if frame_type = 0x05 then varint2 buf offset StopSending
      else if frame_type = 0x06
      then and_then (decode_crypto_frame (drop offset buf))
             (\<lambda>(crypto, consumed). Inr (Crypto crypto, offset + consumed))
      else if frame_type = 0x07 then decode_new_token buf offset
      else if 0x08 \<le> frame_type \<and> frame_type \<le> 0x0f
      then and_then (decode_stream_frame (drop offset buf) (ucast frame_type))
             (\<lambda>(stream_frame, consumed). Inr (Stream stream_frame, offset + consumed))
      else if frame_type = 0x10 then varint1 buf offset MaxData
      else if frame_type = 0x11 then varint2 buf offset MaxStreamData
      else if frame_type = 0x12 \<or> frame_type = 0x13
      then varint1 buf offset (MaxStreams (frame_type = 0x12))
      else if frame_type = 0x14 then varint1 buf offset DataBlocked
      else if frame_type = 0x15 then varint2 buf offset StreamDataBlocked
      else if frame_type = 0x16 \<or> frame_type = 0x17
      then varint1 buf offset (StreamsBlocked (frame_type = 0x16))
      else if frame_type = 0x18 then decode_new_connection_id buf offset
      else if frame_type = 0x19 then varint1 buf offset RetireConnectionId
      else if frame_type = 0x1a
      then decode_path_data (Msg ''PATH_CHALLENGE truncated'') PathChallenge buf offset
      else if frame_type = 0x1b
      then decode_path_data (Msg ''PATH_RESPONSE truncated'') PathResponse buf offset
      else if frame_type = 0x1c \<or> frame_type = 0x1d
      then decode_connection_close buf offset (frame_type = 0x1c)
      else if frame_type = 0x1e then Inr (HandshakeDone, offset)
      else Inl (InvalidFrame (Fmt ''unknown frame type: {frame_type:#x}'' [NumArg frame_type]))))"

section \<open>Decoders stay inside the buffer\<close>

lemma decode_varint_drop:
  "decode_varint (drop offset buf) = Inr (v, n) \<Longrightarrow> 0 < n \<and> offset + n \<le> length buf"
  using decode_varint_consumed [of "drop offset buf" v n] by auto

lemmas decoder_simps = and_then_eq_Inr Let_def

lemma decode_more_ranges_offset:
  "decode_more_ranges count buf offset smallest acc = Inr (rs, off') \<Longrightarrow> offset \<le> length buf
   \<Longrightarrow> offset \<le> off' \<and> off' \<le> length buf"
proof (induction count arbitrary: offset smallest acc)
  case (Suc count)
  from Suc.prems(1) obtain gap n ack_range m g e s where
      d: "decode_varint (drop offset buf) = Inr (gap, n)"
         "decode_varint (drop (offset + n) buf) = Inr (ack_range, m)"
    and a: "checked_add gap 2 = Some g" "checked_sub smallest g = Some e" "checked_sub e ack_range = Some s"
    and r: "decode_more_ranges count buf (offset + n + m) s (acc @ [\<lparr>ar_start = s, ar_end = e\<rparr>]) = Inr (rs, off')"
    by (auto simp: decoder_simps simp del: checked_sub_eq_Some)
  from d have "offset + n + m \<le> length buf" by (auto dest: decode_varint_drop)
  from Suc.IH [OF r this] show ?case by simp
qed simp

lemma decode_ack_frame_offset:
  "decode_ack_frame buf ecn = Inr (a, n) \<Longrightarrow> n \<le> length buf"
  by (auto simp: decode_ack_frame_def decoder_simps simp del: checked_sub_eq_Some
           dest!: decode_varint_drop decode_more_ranges_offset split: if_splits)

lemma decode_crypto_frame_offset: "decode_crypto_frame buf = Inr (c, n) \<Longrightarrow> n \<le> length buf"
  by (auto simp: decode_crypto_frame_def decoder_simps split: if_splits)

lemma decode_stream_frame_offset: "decode_stream_frame buf t = Inr (s, n) \<Longrightarrow> n \<le> length buf"
  by (auto simp: decode_stream_frame_def decoder_simps split: if_splits dest!: decode_varint_drop)

lemma varint_offsets:
  "varint1 buf off k1 = Inr (f, n) \<Longrightarrow> off \<le> n \<and> n \<le> length buf"
  "varint2 buf off k2 = Inr (f, n) \<Longrightarrow> off \<le> n \<and> n \<le> length buf"
  "varint3 buf off k3 = Inr (f, n) \<Longrightarrow> off \<le> n \<and> n \<le> length buf"
  by (auto simp: varint1_def varint2_def varint3_def decoder_simps dest!: decode_varint_drop)

lemma decode_parts_offset:
  "decode_new_token buf off = Inr (f, n) \<Longrightarrow> off \<le> n \<and> n \<le> length buf"
  "decode_new_connection_id buf off = Inr (f, n) \<Longrightarrow> off \<le> n \<and> n \<le> length buf"
  "decode_path_data m k buf off = Inr (f, n) \<Longrightarrow> off \<le> n \<and> n \<le> length buf"
  "decode_connection_close buf off tr = Inr (f, n) \<Longrightarrow> off \<le> n \<and> n \<le> length buf"
  by (auto simp: decode_new_token_def decode_new_connection_id_def decode_path_data_def
        decode_connection_close_def decoder_simps split: if_splits dest!: decode_varint_drop)

lemma decode_frame_consumed:
  assumes "decode_frame buf = Inr (f, n)"
  shows "0 < n \<and> n \<le> length buf"
proof (cases "buf ! 0 = 0")
  case True
  with assms show ?thesis by (auto simp: decode_frame_def Suc_le_eq split: if_splits)
next
  case False
  with assms obtain t k where t: "decode_varint buf = Inr (t, k)"
    by (auto simp: decode_frame_def and_then_eq_Inr split: if_splits)
  note k = decode_varint_consumed [OF t]
  have "k \<le> n \<and> n \<le> length buf"
    using assms False t k
    by (simp add: decode_frame_def decoder_simps split: if_splits prod.splits)
       (auto dest!: varint_offsets decode_parts_offset decode_ack_frame_offset
          decode_crypto_frame_offset decode_stream_frame_offset)
  with k show ?thesis by simp
qed

section \<open>The payload loop\<close>

function decode_frames :: "bytes \<Rightarrow> QuicError + Frame list" where
  "decode_frames buf =
     (if buf = [] then Inr []
      else and_then (decode_frame buf) (\<lambda>(frame, consumed).
           and_then (decode_frames (drop consumed buf)) (\<lambda>frames. Inr (frame # frames))))"
  by pat_completeness auto
termination
  by (relation "measure length") (auto dest: decode_frame_consumed)

declare decode_frames.simps [simp del]

section \<open>Encoders followed by decoders\<close>

lemma run_enc_varint:
  "run_enc (encode_varint v # ws) buf = (Inr (), buf') \<longleftrightarrow>
     v \<le> MAX_VARINT \<and> run_enc ws (buf @ varint_bytes v) = (Inr (), buf')"
  by (cases "v \<le> MAX_VARINT") (simp_all add: encode_varint_ok encode_varint_err not_le)

lemma run_enc_push: "run_enc (push_bytes bs # ws) buf = run_enc ws (buf @ bs)"
  by (simp add: push_bytes_def)

lemma run_enc_Nil: "run_enc [] buf = (Inr (), buf') \<longleftrightarrow> buf' = buf"
  by auto

lemmas run_enc_ok = run_enc_varint run_enc_push run_enc_Nil

declare run_enc.simps [simp del]

fun ranges_ok :: "u64 \<Rightarrow> AckRange list \<Rightarrow> bool" where
  "ranges_ok prev [] = True"
| "ranges_ok prev (r # rs) =
     (ar_start r \<le> ar_end r \<and> unat (ar_end r) + 2 \<le> unat prev \<and> ranges_ok (ar_start r) rs)"

definition wf_ack :: "AckFrame \<Rightarrow> bool" where
  "wf_ack a \<longleftrightarrow> (case ack_ranges a of
       [] \<Rightarrow> False
     | r # rs \<Rightarrow> ar_end r = largest_acknowledged a \<and> ar_start r \<le> ar_end r \<and> ranges_ok (ar_start r) rs
                \<and> length rs < 2 ^ 64)"

fun wf_frame :: "Frame \<Rightarrow> bool" where
  "wf_frame (Ack a) = wf_ack a"
| "wf_frame (Crypto c) = (length (cf_data c) < 2 ^ 64)"
| "wf_frame (NewToken t) = (length t < 2 ^ 64)"
| "wf_frame (Stream s) = (length (sf_data s) < 2 ^ 64)"
| "wf_frame (NewConnectionId _ _ cid token) = (1 \<le> length cid \<and> length cid \<le> MAX_CID_LEN \<and> length token = 16)"
| "wf_frame (PathChallenge d) = (length d = 8)"
| "wf_frame (PathResponse d) = (length d = 8)"
| "wf_frame (ConnectionClose tr _ ft reason) = ((tr \<longleftrightarrow> ft \<noteq> None) \<and> length reason < 2 ^ 64)"
| "wf_frame _ = True"

lemma gap_arith:
  assumes "unat e + 2 \<le> unat (p :: u64)"
  shows "\<exists>g. checked_add (saturating_sub (saturating_sub p e) 2) 2 = Some g \<and> checked_sub p g = Some e"
proof -
  let ?g = "saturating_sub (saturating_sub p e) 2"
  have g: "unat ?g = unat p - unat e - 2" by simp
  then have a: "checked_add ?g 2 = Some (?g + 2)" and u: "unat (?g + 2) = unat p - unat e"
    using assms unat_u64_less [of p] by (simp_all add: checked_add_def unat_word_ariths del: unat_saturating_sub)
  have "?g + 2 \<le> p" using u by (simp add: word_le_nat_alt)
  moreover from this have "unat (p - (?g + 2)) = unat e" using u assms by (simp add: unat_sub)
  ultimately have "checked_sub p (?g + 2) = Some e" by (simp add: word_unat_eq_iff)
  with a show ?thesis by blast
qed

lemma range_arith: "s \<le> e \<Longrightarrow> checked_sub e (saturating_sub e s) = Some (s :: u64)"
  by (simp add: saturating_sub_def word_sub_le)

lemma decode_more_ranges_encode:
  assumes "ranges_ok prev rs" and "run_enc (encode_more_ranges prev rs @ ws) buf = (Inr (), buf')"
  shows "\<exists>out. run_enc ws (buf @ out) = (Inr (), buf') \<and> (\<forall>pre rest acc.
     decode_more_ranges (length rs) (pre @ out @ rest) (length pre) prev acc
       = Inr (acc @ rs, length pre + length out))"
  using assms
proof (induction rs arbitrary: prev buf)
  case Nil
  then show ?case by (intro exI [of _ "[]"]) simp
next
  case (Cons r rs)
  let ?gap = "saturating_sub (saturating_sub prev (ar_end r)) 2"
  let ?len = "saturating_sub (ar_end r) (ar_start r)"
  from Cons.prems have m: "?gap \<le> MAX_VARINT" "?len \<le> MAX_VARINT"
    and e: "run_enc (encode_more_ranges (ar_start r) rs @ ws) ((buf @ varint_bytes ?gap) @ varint_bytes ?len) = (Inr (), buf')"
    and ok: "ar_start r \<le> ar_end r" "unat (ar_end r) + 2 \<le> unat prev" "ranges_ok (ar_start r) rs"
    by (simp_all add: run_enc_ok)
  from Cons.IH [OF ok(3) e] obtain out where o: "run_enc ws (((buf @ varint_bytes ?gap) @ varint_bytes ?len) @ out) = (Inr (), buf')"
    and d: "\<And>pre rest acc. decode_more_ranges (length rs) (pre @ out @ rest) (length pre) (ar_start r) acc
       = Inr (acc @ rs, length pre + length out)" by blast
  from gap_arith [OF ok(2)] obtain g where g: "checked_add ?gap 2 = Some g" "checked_sub prev g = Some (ar_end r)"
    by blast
  show ?case
  proof (intro exI conjI allI)
    show "run_enc ws (buf @ varint_bytes ?gap @ varint_bytes ?len @ out) = (Inr (), buf')" using o by simp
    fix pre rest acc
    have "decode_more_ranges (length rs) ((pre @ varint_bytes ?gap @ varint_bytes ?len) @ out @ rest)
        (length (pre @ varint_bytes ?gap @ varint_bytes ?len)) (ar_start r)
        (acc @ [\<lparr>ar_start = ar_start r, ar_end = ar_end r\<rparr>])
      = Inr (acc @ r # rs, length pre + length (varint_bytes ?gap @ varint_bytes ?len @ out))"
      by (subst d) simp
    then show "decode_more_ranges (length (r # rs)) (pre @ (varint_bytes ?gap @ varint_bytes ?len @ out) @ rest)
        (length pre) prev acc = Inr (acc @ r # rs, length pre + length (varint_bytes ?gap @ varint_bytes ?len @ out))"
      using m g range_arith [OF ok(1)]
      by (simp add: decode_varint_bytes add.assoc del: checked_sub_eq_Some)
  qed
qed

lemma ack_ranges_roundtrip:
  assumes "wf_ack a" and "encode_ack a buf = (Inr (), buf')"
  shows "\<exists>out. buf' = buf @ varint_bytes (if ack_ecn a \<noteq> None then 0x03 else 0x02) @ out \<and>
     (\<forall>rest. decode_ack_frame (out @ rest) (ack_ecn a \<noteq> None) = Inr (a, length out))"
proof -
  obtain r rs where rr: "ack_ranges a = r # rs" "ar_end r = largest_acknowledged a" "ar_start r \<le> ar_end r"
      "ranges_ok (ar_start r) rs" "length rs < 2 ^ 64"
    using assms(1) by (auto simp: wf_ack_def split: list.splits)
  let ?t = "if ack_ecn a \<noteq> None then 0x03 else 0x02 :: u64"
  let ?cnt = "word_of_nat (length rs) :: u64"
  let ?first = "saturating_sub (largest_acknowledged a) (ar_start r)"
  let ?hd = "varint_bytes (largest_acknowledged a) @ varint_bytes (ack_delay a) @ varint_bytes ?cnt @ varint_bytes ?first"
  let ?ecn = "(case ack_ecn a of
           Some ecn \<Rightarrow> [encode_varint (ect0 ecn), encode_varint (ect1 ecn), encode_varint (ce ecn)]
         | None \<Rightarrow> [])"
  from assms(2) have m: "largest_acknowledged a \<le> MAX_VARINT" "ack_delay a \<le> MAX_VARINT" "?cnt \<le> MAX_VARINT"
      "?first \<le> MAX_VARINT"
    and e: "run_enc (encode_more_ranges (ar_start r) rs @ ?ecn) (buf @ varint_bytes ?t @ ?hd) = (Inr (), buf')"
    by (simp_all add: encode_ack_def rr(1) run_enc_ok)
  from decode_more_ranges_encode [OF rr(4) e] obtain out where
      o: "run_enc ?ecn ((buf @ varint_bytes ?t @ ?hd) @ out) = (Inr (), buf')"
    and d: "\<And>pre rest acc. decode_more_ranges (length rs) (pre @ out @ rest) (length pre) (ar_start r) acc
       = Inr (acc @ rs, length pre + length out)" by blast
  have cnt: "unat ?cnt = length rs" using rr(5) by (simp add: unsigned_of_nat take_bit_nat_eq_self)
  have fst: "checked_sub (largest_acknowledged a) ?first = Some (ar_start r)"
    using range_arith [OF rr(3)] rr(2) by simp
  have D: "decode_more_ranges (length rs) (?hd @ out @ more) (length ?hd) (ar_start r)
      [\<lparr>ar_start = ar_start r, ar_end = largest_acknowledged a\<rparr>] = Inr (ack_ranges a, length ?hd + length out)" for more
    by (subst d) (simp add: rr(1) rr(2) [symmetric])
  have A: "decode_ack_frame (?hd @ out @ more) ecn =
     (if ecn then and_then (decode_varint more) (\<lambda>(e0, n).
          and_then (decode_varint (drop n more)) (\<lambda>(e1, n').
          and_then (decode_varint (drop (n + n') more)) (\<lambda>(c, n'').
          Inr (\<lparr>largest_acknowledged = largest_acknowledged a, ack_delay = ack_delay a, ack_ranges = ack_ranges a,
                ack_ecn = Some \<lparr>ect0 = e0, ect1 = e1, ce = c\<rparr>\<rparr>, length ?hd + length out + (n + n' + n'')))))
     else Inr (\<lparr>largest_acknowledged = largest_acknowledged a, ack_delay = ack_delay a, ack_ranges = ack_ranges a,
                ack_ecn = None\<rparr>, length ?hd + length out))" for ecn more
    using m cnt fst D [of more]
    by (simp add: decode_ack_frame_def decode_varint_bytes add.assoc Let_def del: checked_sub_eq_Some)
  show ?thesis
  proof (cases "ack_ecn a")
    case None
    then have b: "buf' = buf @ varint_bytes ?t @ ?hd @ out" using o by (simp add: run_enc_ok)
    moreover have "decode_ack_frame ((?hd @ out) @ rest) (ack_ecn a \<noteq> None) = Inr (a, length (?hd @ out))" for rest
      using A [of rest False] None by simp
    ultimately show ?thesis by blast
  next
    case (Some ecn)
    let ?e = "varint_bytes (ect0 ecn) @ varint_bytes (ect1 ecn) @ varint_bytes (ce ecn)"
    have b: "buf' = buf @ varint_bytes ?t @ ?hd @ out @ ?e"
      and me: "ect0 ecn \<le> MAX_VARINT" "ect1 ecn \<le> MAX_VARINT" "ce ecn \<le> MAX_VARINT"
      using o Some by (simp_all add: run_enc_ok)
    moreover have "decode_ack_frame ((?hd @ out @ ?e) @ rest) (ack_ecn a \<noteq> None) = Inr (a, length (?hd @ out @ ?e))" for rest
      using A [of "?e @ rest" True] Some me by (simp add: decode_varint_bytes)
    ultimately show ?thesis by blast
  qed
qed

lemma decode_varint_small:
  assumes "x < (0x40 :: u8)" shows "decode_varint (x # xs) = Inr (ucast x, 1)"
proof -
  have "unat x < 64" using assms by (simp add: word_less_nat_alt)
  then show ?thesis using tag_bits [of x 0] by (simp add: decode_varint_def)
qed

lemma le_MAX_VARINT_small: "unat (v :: u64) < 64 \<Longrightarrow> v \<le> MAX_VARINT"
  by (simp add: word_le_nat_alt unat_MAX_VARINT)

lemma unat_word_of_length: "n < 2 ^ 64 \<Longrightarrow> unat (word_of_nat n :: u64) = n"
  by (simp add: unsigned_of_nat take_bit_nat_eq_self)

lemma ucast_small_types:
  "(ucast (0x0e :: u8) :: u64) = 0x0e" "(ucast (0x0f :: u8) :: u64) = 0x0f"
  by simp_all

lemmas frame_codec_simps = run_enc_ok le_MAX_VARINT_small varint_bytes_small decode_varint_small
  decode_varint_bytes unat_word_of_length varint1_def varint2_def varint3_def
  decode_new_token_def decode_path_data_def decode_connection_close_def decode_new_connection_id_def
  decode_crypto_frame_def decode_stream_frame_def encode_crypto_def encode_stream_def

lemma stream_type: "encode_stream s = run_enc [encode_varint (if sf_fin s then 0x0f else 0x0e),
   encode_varint (sf_stream_id s), encode_varint (sf_offset s), encode_varint (word_of_nat (length (sf_data s))),
          push_bytes (sf_data s)]"
  by (simp add: encode_stream_def)

lemma frame_enc_dec:
  assumes "wf_frame f" and "encode_frame f buf = (Inr (), buf')"
  shows "\<exists>out. buf' = buf @ out \<and> (\<forall>rest. decode_frame (out @ rest) = Inr (f, length out))"
proof (cases f)
  case Padding
  then show ?thesis using assms by (auto simp: push_bytes_def decode_frame_def)
next
  case Ping
  then show ?thesis using assms by (auto simp: push_bytes_def decode_frame_def decode_varint_small)
next
  case (Ack a)
  then obtain out where o: "buf' = buf @ varint_bytes (if ack_ecn a \<noteq> None then 0x03 else 0x02) @ out"
     and d: "\<And>rest. decode_ack_frame (out @ rest) (ack_ecn a \<noteq> None) = Inr (a, length out)"
    using ack_ranges_roundtrip [of a buf buf'] assms by auto
  let ?t = "if ack_ecn a \<noteq> None then 3 else 2 :: u8"
  have "decode_frame (?t # out @ rest) = Inr (f, Suc (length out))" for rest
    using d [of rest] Ack by (cases "ack_ecn a") (simp_all add: decode_frame_def decode_varint_small)
  moreover have "varint_bytes (if ack_ecn a \<noteq> None then 0x03 else 0x02) = [?t]"
    by (simp add: varint_bytes_small)
  ultimately show ?thesis using o by (intro exI [of _ "?t # out"]) simp
next
  case (Stream s)
  then show ?thesis using assms
    by (cases "sf_fin s") (auto simp: decode_frame_def Let_def stream_type run_enc_ok le_MAX_VARINT_small
       varint_bytes_small decode_varint_small decode_varint_bytes unat_word_of_length decode_stream_frame_def)
next
  case (MaxStreams b v)
  then show ?thesis using assms by (cases b) (auto simp: decode_frame_def Let_def frame_codec_simps)
next
  case (StreamsBlocked b v)
  then show ?thesis using assms by (cases b) (auto simp: decode_frame_def Let_def frame_codec_simps)
next
  case (ConnectionClose tr ec ft reason)
  then show ?thesis using assms by (cases tr; cases ft) (auto simp: decode_frame_def Let_def frame_codec_simps)
next
  case (NewConnectionId sq re cid tok)
  then show ?thesis using assms
    by (auto simp: decode_frame_def Let_def frame_codec_simps MAX_CID_LEN_def unat_of_nat_u8)
qed (use assms in \<open>auto simp: decode_frame_def Let_def frame_codec_simps\<close>)

section \<open>The codec contract, discharged\<close>

declare unat_u64_less_num [simp]

interpretation varint_codec: prefix_codec encode_varint decode_varint "\<lambda>_. True"
proof unfold_locales
  fix x buf buf'
  assume "encode_varint x buf = (Inr (), buf')"
  then show "\<exists>out. buf' = buf @ out \<and> (\<forall>rest. decode_varint (out @ rest) = Inr (x, length out))"
    by (cases "x \<le> MAX_VARINT") (auto simp: encode_varint_ok encode_varint_err decode_varint_bytes not_le)
qed (rule decode_varint_consumed)

interpretation frame_codec: payload_codec encode_frame decode_frame wf_frame decode_frames
  by unfold_locales (use frame_enc_dec decode_frame_consumed decode_frames.simps in blast)+

section \<open>Decoded frames are well formed\<close>

lemma decode_more_ranges_ok:
  "decode_more_ranges count buf offset smallest acc = Inr (rs, off') \<Longrightarrow>
     \<exists>new. rs = acc @ new \<and> length new = count \<and> ranges_ok smallest new"
proof (induction count arbitrary: offset smallest acc)
  case (Suc count)
  from Suc.prems(1) obtain gap n ack_range m g e s where
      a: "checked_add gap 2 = Some g" "checked_sub smallest g = Some e" "checked_sub e ack_range = Some s"
    and r: "decode_more_ranges count buf (offset + n + m) s (acc @ [\<lparr>ar_start = s, ar_end = e\<rparr>]) = Inr (rs, off')"
    by (auto simp: decoder_simps simp del: checked_sub_eq_Some)
  from Suc.IH [OF r] obtain new where new: "rs = (acc @ [\<lparr>ar_start = s, ar_end = e\<rparr>]) @ new" "length new = count"
    "ranges_ok s new" by blast
  have g: "unat g = unat gap + 2" using a(1) by (auto dest: checked_add_Some_unat)
  from a(2,3) have "g \<le> smallest" "e = smallest - g" "s \<le> e"
    by (auto simp: word_sub_le)
  then have "unat e + 2 \<le> unat smallest" using g by (simp add: unat_sub word_le_nat_alt)
  with new \<open>s \<le> e\<close> show ?case by (intro exI [of _ "\<lparr>ar_start = s, ar_end = e\<rparr> # new"]) simp
qed simp

lemma decode_ack_frame_wf: "decode_ack_frame buf ecn = Inr (a, n) \<Longrightarrow> wf_ack a"
  by (auto simp: decode_ack_frame_def wf_ack_def decoder_simps word_sub_le
           dest!: decode_more_ranges_ok split: if_splits)

lemma decode_stream_frame_wf:
  "decode_stream_frame buf t = Inr (s, n) \<Longrightarrow> length buf < 2 ^ 64 \<Longrightarrow> length (sf_data s) < 2 ^ 64"
  by (auto simp: decode_stream_frame_def decoder_simps split: if_splits)

lemma decode_crypto_frame_wf:
  "decode_crypto_frame buf = Inr (c, n) \<Longrightarrow> length (cf_data c) < 2 ^ 64"
  by (auto simp: decode_crypto_frame_def decoder_simps split: if_splits)

lemma decode_parts_wf:
  "decode_new_token buf off = Inr (f, n) \<Longrightarrow> wf_frame f"
  "decode_new_connection_id buf off = Inr (f, n) \<Longrightarrow> wf_frame f"
  "decode_path_data m PathChallenge buf off = Inr (f, n) \<Longrightarrow> wf_frame f"
  "decode_path_data m PathResponse buf off = Inr (f, n) \<Longrightarrow> wf_frame f"
  "decode_connection_close buf off tr = Inr (f, n) \<Longrightarrow> wf_frame f"
  by (auto simp: decode_new_token_def decode_new_connection_id_def decode_path_data_def
        decode_connection_close_def decoder_simps split: if_splits)

lemma varints_wf:
  "varint1 buf off k1 = Inr (f, n) \<Longrightarrow> \<exists>a. f = k1 a"
  "varint2 buf off k2 = Inr (f, n) \<Longrightarrow> \<exists>a b. f = k2 a b"
  "varint3 buf off k3 = Inr (f, n) \<Longrightarrow> \<exists>a b c. f = k3 a b c"
  by (auto simp: varint1_def varint2_def varint3_def decoder_simps)

lemma decode_frame_wf:
  assumes "decode_frame buf = Inr (f, n)" and "length buf < 2 ^ 64"
  shows "wf_frame f"
proof -
  have "length (drop k buf) < 2 ^ 64" for k using assms(2) by simp
  with assms(1) show ?thesis
    by (simp add: decode_frame_def decoder_simps split: if_splits prod.splits)
       (auto dest!: varints_wf decode_parts_wf decode_ack_frame_wf decode_crypto_frame_wf decode_stream_frame_wf)
qed

section \<open>Properties\<close>

text \<open>C1: a well-formed frame that encodes is decoded back to itself, with the exact number of
  bytes the encoder appended, whatever follows it in the packet.\<close>

theorem frame_roundtrip:
  assumes "wf_frame f" and "encode_frame f buf = (Inr (), buf')"
  shows "\<exists>out. buf' = buf @ out \<and> (\<forall>rest. decode_frame (out @ rest) = Inr (f, length out))"
  using assms by (rule frame_codec.enc_dec)

lemma example_ack_encodes:
  "encode_frame (Ack \<lparr>largest_acknowledged = 20, ack_delay = 1,
        ack_ranges = [\<lparr>ar_start = 18, ar_end = 20\<rparr>, \<lparr>ar_start = 10, ar_end = 12\<rparr>], ack_ecn = None\<rparr>) [0]
     = (Inr (), [0, 2, 20, 1, 1, 2, 4, 2])"
  by (simp add: encode_ack_def run_enc.simps encode_varint_def MAX_VARINT_eq saturating_sub_def)

theorem frame_roundtrip_witness:
  "let f = Ack \<lparr>largest_acknowledged = 20, ack_delay = 1,
        ack_ranges = [\<lparr>ar_start = 18, ar_end = 20\<rparr>, \<lparr>ar_start = 10, ar_end = 12\<rparr>], ack_ecn = None\<rparr>
   in wf_frame f \<and> encode_frame f [0] = (Inr (), [0, 2, 20, 1, 1, 2, 4, 2]) \<and>
      (\<exists>out. [0, 2, 20, 1, 1, 2, 4, 2] = [0] @ out \<and> decode_frame (out @ [1]) = Inr (f, length out))"
proof -
  let ?f = "Ack \<lparr>largest_acknowledged = 20, ack_delay = 1,
        ack_ranges = [\<lparr>ar_start = 18, ar_end = 20\<rparr>, \<lparr>ar_start = 10, ar_end = 12\<rparr>], ack_ecn = None\<rparr>"
  have w: "wf_frame ?f" by (simp add: wf_ack_def)
  show ?thesis unfolding Let_def
    using w example_ack_encodes frame_roundtrip [OF w example_ack_encodes] by blast
qed

text \<open>C2: decoding the payload made of the encodings of a list of well-formed frames returns exactly
  that list, in order.\<close>

theorem payload_roundtrip:
  assumes "list_all wf_frame fs" and "run_enc (map encode_frame fs) [] = (Inr (), payload)"
  shows "decode_frames payload = Inr fs"
  using frame_codec.dec_all_encoded [OF assms] by auto

theorem payload_roundtrip_witness:
  "list_all wf_frame [Ping, MaxData 5, Padding] \<and>
   run_enc (map encode_frame [Ping, MaxData 5, Padding]) [] = (Inr (), [1, 0x10, 5, 0]) \<and>
   decode_frames [1, 0x10, 5, 0] = Inr [Ping, MaxData 5, Padding]"
proof -
  have e: "run_enc (map encode_frame [Ping, MaxData 5, Padding]) [] = (Inr (), [1, 0x10, 5, 0])"
    by (simp add: run_enc.simps push_bytes_def encode_varint_def MAX_VARINT_eq)
  have w: "list_all wf_frame [Ping, MaxData 5, Padding]" by simp
  show ?thesis using w e payload_roundtrip [OF w e] by blast
qed

text \<open>C32: whatever bytes a packet holds, the decoder either reports an error or consumes at least one
  byte, stays inside the buffer and returns a well-formed frame: ACK ranges are ordered, disjoint and
  free of underflow, connection IDs and tokens have the lengths the protocol fixes.\<close>

theorem decode_frame_sound:
  assumes "decode_frame buf = Inr (f, n)" and "length buf < 2 ^ 64"
  shows "0 < n \<and> n \<le> length buf \<and> wf_frame f"
  using decode_frame_consumed [OF assms(1)] decode_frame_wf [OF assms] by blast

theorem decode_frame_sound_witness:
  "decode_frame [0x1a, 1, 2, 3, 4, 5, 6, 7, 8, 9] = Inr (PathChallenge [1, 2, 3, 4, 5, 6, 7, 8], 9)
   \<and> wf_frame (PathChallenge [1, 2, 3, 4, 5, 6, 7, 8])"
proof -
  have d: "decode_frame [0x1a, 1, 2, 3, 4, 5, 6, 7, 8, 9] = Inr (PathChallenge [1, 2, 3, 4, 5, 6, 7, 8], 9)"
    by (simp add: decode_frame_def decode_varint_small decode_path_data_def)
  show ?thesis using d decode_frame_sound [OF d] by simp
qed

end
