(* ===== verification/Transport_Params.thy ===== *)
theory Transport_Params
  imports Frame "HOL-Library.Sublist"
begin

text \<open>
  The QUIC transport parameters extension (\<open>starfish-quic/src/packet/mod.rs\<close>): the parameters each
  side sends, their encoder with its unknown (GREASE) parameter, and the parser of the peer's
  parameters.  The process-wide GREASE counter is the argument \<open>counter\<close>, and its next value is returned.
  On a 64-bit target \<open>usize::try_from\<close> of a length cannot fail.
\<close>

section \<open>Parameters\<close>

definition MAX_ACK_DELAY_EXPONENT :: u32 where "MAX_ACK_DELAY_EXPONENT = 20"
definition DEFAULT_MAX_UDP_PAYLOAD_SIZE :: u64 where "DEFAULT_MAX_UDP_PAYLOAD_SIZE = 65527"
definition MIN_MAX_UDP_PAYLOAD_SIZE :: u64 where "MIN_MAX_UDP_PAYLOAD_SIZE = 1200"
definition DEFAULT_MAX_ACK_DELAY_MS :: u64 where "DEFAULT_MAX_ACK_DELAY_MS = 25"
definition MAX_MAX_ACK_DELAY_MS :: u64 where "MAX_MAX_ACK_DELAY_MS = push_bit 14 1"

abbreviation (input) "TP_ORIGINAL_DESTINATION_CONNECTION_ID \<equiv> 0x00 :: u64"
abbreviation (input) "TP_MAX_IDLE_TIMEOUT \<equiv> 0x01 :: u64"
abbreviation (input) "TP_STATELESS_RESET_TOKEN \<equiv> 0x02 :: u64"
abbreviation (input) "TP_MAX_UDP_PAYLOAD_SIZE \<equiv> 0x03 :: u64"
abbreviation (input) "TP_INITIAL_MAX_DATA \<equiv> 0x04 :: u64"
abbreviation (input) "TP_INITIAL_MAX_STREAM_DATA_BIDI_LOCAL \<equiv> 0x05 :: u64"
abbreviation (input) "TP_INITIAL_MAX_STREAM_DATA_BIDI_REMOTE \<equiv> 0x06 :: u64"
abbreviation (input) "TP_INITIAL_MAX_STREAM_DATA_UNI \<equiv> 0x07 :: u64"
abbreviation (input) "TP_INITIAL_MAX_STREAMS_BIDI \<equiv> 0x08 :: u64"
abbreviation (input) "TP_INITIAL_MAX_STREAMS_UNI \<equiv> 0x09 :: u64"
abbreviation (input) "TP_ACK_DELAY_EXPONENT \<equiv> 0x0a :: u64"
abbreviation (input) "TP_MAX_ACK_DELAY \<equiv> 0x0b :: u64"
abbreviation (input) "TP_DISABLE_ACTIVE_MIGRATION \<equiv> 0x0c :: u64"
abbreviation (input) "TP_PREFERRED_ADDRESS \<equiv> 0x0d :: u64"
abbreviation (input) "TP_ACTIVE_CONNECTION_ID_LIMIT \<equiv> 0x0e :: u64"
abbreviation (input) "TP_INITIAL_SOURCE_CONNECTION_ID \<equiv> 0x0f :: u64"
abbreviation (input) "TP_RETRY_SOURCE_CONNECTION_ID \<equiv> 0x10 :: u64"

record LocalTransportParameters =
  l_original_destination_connection_id :: "ConnectionId option"
  l_max_idle_timeout_ms :: u64
  l_stateless_reset_token :: "bytes option"
  l_max_udp_payload_size :: u64
  l_initial_max_data :: u64
  l_initial_max_stream_data_bidi_local :: u64
  l_initial_max_stream_data_bidi_remote :: u64
  l_initial_max_stream_data_uni :: u64
  l_initial_max_streams_bidi :: u64
  l_initial_max_streams_uni :: u64
  l_ack_delay_exponent :: u32
  l_max_ack_delay_ms :: u64
  l_disable_active_migration :: bool
  l_preferred_address :: "bytes option"
  l_active_connection_id_limit :: u64
  l_initial_source_connection_id :: "ConnectionId option"
  l_retry_source_connection_id :: "ConnectionId option"

definition local_params_default :: LocalTransportParameters where
  "local_params_default =
     \<lparr>l_original_destination_connection_id = None, l_max_idle_timeout_ms = 0,
      l_stateless_reset_token = None, l_max_udp_payload_size = DEFAULT_MAX_UDP_PAYLOAD_SIZE,
      l_initial_max_data = 0, l_initial_max_stream_data_bidi_local = 0,
      l_initial_max_stream_data_bidi_remote = 0, l_initial_max_stream_data_uni = 0,
      l_initial_max_streams_bidi = 0, l_initial_max_streams_uni = 0, l_ack_delay_exponent = 3,
      l_max_ack_delay_ms = DEFAULT_MAX_ACK_DELAY_MS, l_disable_active_migration = False,
      l_preferred_address = None, l_active_connection_id_limit = 2,
      l_initial_source_connection_id = None, l_retry_source_connection_id = None\<rparr>"

definition local_params_new :: "u64 \<Rightarrow> u64 \<Rightarrow> u64 \<Rightarrow> u64 \<Rightarrow> LocalTransportParameters" where
  "local_params_new initial_max_data initial_max_stream_data initial_max_streams_bidi initial_max_streams_uni =
     local_params_default
       \<lparr>l_initial_max_data := initial_max_data,
        l_initial_max_stream_data_bidi_local := initial_max_stream_data,
        l_initial_max_stream_data_bidi_remote := initial_max_stream_data,
        l_initial_max_stream_data_uni := initial_max_stream_data,
        l_initial_max_streams_bidi := initial_max_streams_bidi,
        l_initial_max_streams_uni := initial_max_streams_uni\<rparr>"

record PeerTransportParameters =
  p_original_destination_connection_id :: "ConnectionId option"
  p_max_idle_timeout_ms :: u64
  p_max_udp_payload_size :: u64
  p_initial_max_data :: u64
  p_initial_max_stream_data_bidi_local :: u64
  p_initial_max_stream_data_bidi_remote :: u64
  p_initial_max_stream_data_uni :: u64
  p_initial_max_streams_bidi :: u64
  p_initial_max_streams_uni :: u64
  p_ack_delay_exponent :: u32
  p_max_ack_delay_ms :: u64
  p_disable_active_migration :: bool
  p_preferred_address :: "bytes option"
  p_active_connection_id_limit :: u64
  p_initial_source_connection_id :: "ConnectionId option"
  p_retry_source_connection_id :: "ConnectionId option"
  p_stateless_reset_token :: "bytes option"

definition peer_params_default :: PeerTransportParameters where
  "peer_params_default =
     \<lparr>p_original_destination_connection_id = None, p_max_idle_timeout_ms = 0,
      p_max_udp_payload_size = DEFAULT_MAX_UDP_PAYLOAD_SIZE,
      p_initial_max_data = 0, p_initial_max_stream_data_bidi_local = 0,
      p_initial_max_stream_data_bidi_remote = 0, p_initial_max_stream_data_uni = 0,
      p_initial_max_streams_bidi = 0, p_initial_max_streams_uni = 0, p_ack_delay_exponent = 3,
      p_max_ack_delay_ms = DEFAULT_MAX_ACK_DELAY_MS, p_disable_active_migration = False,
      p_preferred_address = None, p_active_connection_id_limit = 2,
      p_initial_source_connection_id = None, p_retry_source_connection_id = None,
      p_stateless_reset_token = None\<rparr>"

text \<open>\<open>std::net::SocketAddr\<close>: the octets of the address and the port; the flow label and scope of
  an IPv6 socket address are zero wherever the sources build one.\<close>

datatype SocketAddr = V4 bytes u16 | V6 bytes u16

record DecodedPreferredAddress =
  pa_ipv4 :: "SocketAddr option"
  pa_ipv6 :: "SocketAddr option"
  pa_connection_id :: ConnectionId
  pa_stateless_reset_token :: bytes

section \<open>Encoder\<close>

fun grease_bytes :: "nat \<Rightarrow> u64 \<Rightarrow> bytes" where
  "grease_bytes 0 x = []"
| "grease_bytes (Suc n) x =
     ucast (x AND 0xff) # grease_bytes n (word_rotl 9 x XOR 0x9e3779b97f4a7c15)"

definition next_grease_transport_parameter :: "u64 \<Rightarrow> (u64 \<times> bytes) \<times> u64" where
  "next_grease_transport_parameter counter =
     (let seed = counter + 1;
          id' = 31 * ((seed mod 128) + 1) + 27;
          value_len = unat (drop_bit 8 seed) mod 8 + 1;
          value = grease_bytes value_len (seed XOR 0xfaceb00c1337aa55)
      in ((id', value), counter + 1))"

definition encode_transport_param :: "u64 \<Rightarrow> u64 \<Rightarrow> QuicError writer" where
  "encode_transport_param id' value =
     run_enc [encode_varint id', encode_varint (word_of_nat (varint_len value)), encode_varint value]"

definition encode_transport_bytes_param :: "u64 \<Rightarrow> bytes \<Rightarrow> QuicError writer" where
  "encode_transport_bytes_param id' value =
     run_enc [encode_varint id', encode_varint (word_of_nat (length value)), push_bytes value]"

definition transport_parameter_error :: "message \<Rightarrow> QuicError" where
  "transport_parameter_error m = Transport TransportParameterError m"

definition decode_transport_param_value :: "bytes \<Rightarrow> QuicError + u64" where
  "decode_transport_param_value value =
     and_then (map_err (\<lambda>_. transport_parameter_error (Msg ''invalid transport parameter value''))
                 (decode_varint value)) (\<lambda>(decoded, consumed).
       if consumed \<noteq> length value
       then Inl (transport_parameter_error (Msg ''transport parameter value has trailing bytes''))
       else Inr decoded)"

definition decode_transport_connection_id :: "string \<Rightarrow> bytes \<Rightarrow> QuicError + ConnectionId" where
  "decode_transport_connection_id name value =
     (if length value > MAX_CID_LEN
      then Inl (transport_parameter_error
             (Fmt ''{name} exceeds maximum connection ID length'' [StrArg name]))
      else Inr (cid_from_slice value))"

definition validate_preferred_address :: "bytes \<Rightarrow> QuicError + unit" where
  "validate_preferred_address value =
     (if length value < 41
      then Inl (transport_parameter_error
             (Msg ''preferred_address is too short to contain the fixed fields''))
      else
      let cid_len = unat (value ! 24) in
      if cid_len > MAX_CID_LEN
      then Inl (transport_parameter_error
             (Msg ''preferred_address connection ID exceeds maximum length''))
      else if length value \<noteq> 41 + cid_len
      then Inl (transport_parameter_error
             (Msg ''preferred_address length does not match its encoded connection ID length''))
      else Inr ())"

definition decode_preferred_address :: "bytes \<Rightarrow> QuicError + DecodedPreferredAddress" where
  "decode_preferred_address value =
     and_then (validate_preferred_address value) (\<lambda>_.
       let ipv4_addr = take 4 value;
           ipv4_port = from_be_bytes [value ! 4, value ! 5];
           ipv6_addr = take 16 (drop 6 value);
           ipv6_port = from_be_bytes [value ! 22, value ! 23];
           cid_len = unat (value ! 24);
           cid = cid_from_slice (take cid_len (drop 25 value));
           stateless_reset_token = take 16 (drop (25 + cid_len) value);
           ipv4 = (if ipv4_port \<noteq> 0 \<and> ipv4_addr \<noteq> replicate 4 0 then Some (V4 ipv4_addr ipv4_port) else None);
           ipv6 = (if ipv6_port \<noteq> 0 \<and> ipv6_addr \<noteq> replicate 16 0 then Some (V6 ipv6_addr ipv6_port) else None)
       in Inr \<lparr>pa_ipv4 = ipv4, pa_ipv6 = ipv6, pa_connection_id = cid,
               pa_stateless_reset_token = stateless_reset_token\<rparr>)"

definition when_true :: "bool \<Rightarrow> 'e writer \<Rightarrow> 'e writer" where
  "when_true c w = (if c then w else (\<lambda>buf. (Inr (), buf)))"

definition when_some :: "'a option \<Rightarrow> ('a \<Rightarrow> 'e writer) \<Rightarrow> 'e writer" where
  "when_some x w = (case x of None \<Rightarrow> (\<lambda>buf. (Inr (), buf)) | Some a \<Rightarrow> w a)"

definition check_first :: "'e + unit \<Rightarrow> 'e writer" where
  "check_first r buf = (r, buf)"

text \<open>The result comes with the advanced GREASE counter; the counter is only taken when everything
  before it has been encoded.\<close>

definition encode_known_parameters :: "LocalTransportParameters \<Rightarrow> QuicError writer" where
  "encode_known_parameters params =
     run_enc
      [when_some (l_original_destination_connection_id params) (\<lambda>cid.
         encode_transport_bytes_param TP_ORIGINAL_DESTINATION_CONNECTION_ID (cid_as_slice cid)),
       when_true (l_max_idle_timeout_ms params > 0)
         (encode_transport_param TP_MAX_IDLE_TIMEOUT (l_max_idle_timeout_ms params)),
       when_some (l_stateless_reset_token params) (\<lambda>token.
         encode_transport_bytes_param TP_STATELESS_RESET_TOKEN token),
       when_true (l_max_udp_payload_size params \<noteq> DEFAULT_MAX_UDP_PAYLOAD_SIZE)
         (encode_transport_param TP_MAX_UDP_PAYLOAD_SIZE (l_max_udp_payload_size params)),
       encode_transport_param TP_INITIAL_MAX_DATA (l_initial_max_data params),
       encode_transport_param TP_INITIAL_MAX_STREAM_DATA_BIDI_LOCAL
         (l_initial_max_stream_data_bidi_local params),
       encode_transport_param TP_INITIAL_MAX_STREAM_DATA_BIDI_REMOTE
         (l_initial_max_stream_data_bidi_remote params),
       encode_transport_param TP_INITIAL_MAX_STREAM_DATA_UNI (l_initial_max_stream_data_uni params),
       encode_transport_param TP_INITIAL_MAX_STREAMS_BIDI (l_initial_max_streams_bidi params),
       encode_transport_param TP_INITIAL_MAX_STREAMS_UNI (l_initial_max_streams_uni params),
       when_true (l_ack_delay_exponent params \<noteq> 3)
         (encode_transport_param TP_ACK_DELAY_EXPONENT (ucast (l_ack_delay_exponent params))),
       when_true (l_max_ack_delay_ms params \<noteq> DEFAULT_MAX_ACK_DELAY_MS)
         (encode_transport_param TP_MAX_ACK_DELAY (l_max_ack_delay_ms params)),
       when_true (l_disable_active_migration params)
         (encode_transport_bytes_param TP_DISABLE_ACTIVE_MIGRATION []),
       when_some (l_preferred_address params) (\<lambda>preferred_address.
         run_enc [check_first (validate_preferred_address preferred_address),
                  encode_transport_bytes_param TP_PREFERRED_ADDRESS preferred_address]),
       encode_transport_param TP_ACTIVE_CONNECTION_ID_LIMIT (l_active_connection_id_limit params),
       when_some (l_initial_source_connection_id params) (\<lambda>cid.
         encode_transport_bytes_param TP_INITIAL_SOURCE_CONNECTION_ID (cid_as_slice cid)),
       when_some (l_retry_source_connection_id params) (\<lambda>cid.
         encode_transport_bytes_param TP_RETRY_SOURCE_CONNECTION_ID (cid_as_slice cid))]"

definition encode_transport_parameters ::
    "LocalTransportParameters \<Rightarrow> u64 \<Rightarrow> (QuicError + bytes) \<times> u64" where
  "encode_transport_parameters params counter =
     (case encode_known_parameters params [] of
        (Inl e, _) \<Rightarrow> (Inl e, counter)
      | (Inr _, buf) \<Rightarrow>
          (let ((grease_id, grease_value), counter') = next_grease_transport_parameter counter in
           case encode_transport_bytes_param grease_id grease_value buf of
             (Inl e, _) \<Rightarrow> (Inl e, counter')
           | (Inr _, buf) \<Rightarrow> (Inr buf, counter')))"

section \<open>Parser\<close>

text \<open>The \<open>match id\<close> of the loop body.\<close>

definition apply_param ::
    "u64 \<Rightarrow> bytes \<Rightarrow> PeerTransportParameters \<Rightarrow> QuicError + PeerTransportParameters" where
  "apply_param id' value params =
     (if id' = TP_ORIGINAL_DESTINATION_CONNECTION_ID then
        and_then (decode_transport_connection_id ''original_destination_connection_id'' value)
          (\<lambda>cid. Inr (params\<lparr>p_original_destination_connection_id := Some cid\<rparr>))
      else if id' = TP_MAX_IDLE_TIMEOUT then
        and_then (decode_transport_param_value value) (\<lambda>v. Inr (params\<lparr>p_max_idle_timeout_ms := v\<rparr>))
      else if id' = TP_STATELESS_RESET_TOKEN then
        (if length value \<noteq> 16
         then Inl (transport_parameter_error (Msg ''stateless reset token must be 16 bytes''))
         else Inr (params\<lparr>p_stateless_reset_token := Some value\<rparr>))
      else if id' = TP_MAX_UDP_PAYLOAD_SIZE then
        and_then (decode_transport_param_value value) (\<lambda>size.
          if size < MIN_MAX_UDP_PAYLOAD_SIZE
          then Inl (transport_parameter_error (Msg ''max_udp_payload_size must be at least 1200''))
          else Inr (params\<lparr>p_max_udp_payload_size := size\<rparr>))
      else if id' = TP_INITIAL_MAX_DATA then
        and_then (decode_transport_param_value value) (\<lambda>v. Inr (params\<lparr>p_initial_max_data := v\<rparr>))
      else if id' = TP_INITIAL_MAX_STREAM_DATA_BIDI_LOCAL then
        and_then (decode_transport_param_value value)
          (\<lambda>v. Inr (params\<lparr>p_initial_max_stream_data_bidi_local := v\<rparr>))
      else if id' = TP_INITIAL_MAX_STREAM_DATA_BIDI_REMOTE then
        and_then (decode_transport_param_value value)
          (\<lambda>v. Inr (params\<lparr>p_initial_max_stream_data_bidi_remote := v\<rparr>))
      else if id' = TP_INITIAL_MAX_STREAM_DATA_UNI then
        and_then (decode_transport_param_value value)
          (\<lambda>v. Inr (params\<lparr>p_initial_max_stream_data_uni := v\<rparr>))
      else if id' = TP_INITIAL_MAX_STREAMS_BIDI then
        and_then (decode_transport_param_value value)
          (\<lambda>v. Inr (params\<lparr>p_initial_max_streams_bidi := v\<rparr>))
      else if id' = TP_INITIAL_MAX_STREAMS_UNI then
        and_then (decode_transport_param_value value)
          (\<lambda>v. Inr (params\<lparr>p_initial_max_streams_uni := v\<rparr>))
      else if id' = TP_ACK_DELAY_EXPONENT then
        and_then (decode_transport_param_value value) (\<lambda>exponent.
          if exponent > ucast MAX_ACK_DELAY_EXPONENT
          then Inl (transport_parameter_error (Msg ''ack delay exponent must be <= 20''))
          else Inr (params\<lparr>p_ack_delay_exponent := ucast exponent\<rparr>))
      else if id' = TP_MAX_ACK_DELAY then
        and_then (decode_transport_param_value value) (\<lambda>delay.
          if delay > MAX_MAX_ACK_DELAY_MS
          then Inl (transport_parameter_error (Msg ''max_ack_delay must be <= 16384 milliseconds''))
          else Inr (params\<lparr>p_max_ack_delay_ms := delay\<rparr>))
      else if id' = TP_DISABLE_ACTIVE_MIGRATION then
        (if value \<noteq> []
         then Inl (transport_parameter_error (Msg ''disable_active_migration must be zero-length''))
         else Inr (params\<lparr>p_disable_active_migration := True\<rparr>))
      else if id' = TP_PREFERRED_ADDRESS then
        and_then (validate_preferred_address value)
          (\<lambda>_. Inr (params\<lparr>p_preferred_address := Some value\<rparr>))
      else if id' = TP_ACTIVE_CONNECTION_ID_LIMIT then
        and_then (decode_transport_param_value value) (\<lambda>limit.
          if limit < 2
          then Inl (transport_parameter_error (Msg ''active_connection_id_limit must be >= 2''))
          else Inr (params\<lparr>p_active_connection_id_limit := limit\<rparr>))
      else if id' = TP_INITIAL_SOURCE_CONNECTION_ID then
        and_then (decode_transport_connection_id ''initial_source_connection_id'' value)
          (\<lambda>cid. Inr (params\<lparr>p_initial_source_connection_id := Some cid\<rparr>))
      else if id' = TP_RETRY_SOURCE_CONNECTION_ID then
        and_then (decode_transport_connection_id ''retry_source_connection_id'' value)
          (\<lambda>cid. Inr (params\<lparr>p_retry_source_connection_id := Some cid\<rparr>))
      else Inr params)"

text \<open>One iteration of the loop up to the \<open>match\<close>: the parameter ID, its value and the new offset.\<close>

definition next_param :: "bytes \<Rightarrow> nat \<Rightarrow> QuicError + u64 \<times> bytes \<times> nat" where
  "next_param buf offset =
     and_then (map_err (\<lambda>_. transport_parameter_error (Msg ''truncated transport parameter id''))
                 (decode_varint (drop offset buf))) (\<lambda>(id', n).
     let offset = offset + n in
     and_then (map_err (\<lambda>_. transport_parameter_error (Msg ''truncated transport parameter length''))
                 (decode_varint (drop offset buf))) (\<lambda>(len, n).
     let offset = offset + n; len = unat len in
     if length buf < offset + len
     then Inl (transport_parameter_error (Msg ''truncated transport parameter value''))
     else Inr (id', take len (drop offset buf), offset + len)))"

lemma next_param_progress:
  "next_param buf offset = Inr (id', value, offset') \<Longrightarrow> offset < offset' \<and> offset' \<le> length buf"
  using decode_varint_consumed
  by (fastforce simp: next_param_def and_then_eq_Inr Let_def split: if_splits)

function parse_params_loop ::
    "bytes \<Rightarrow> nat \<Rightarrow> PeerTransportParameters \<Rightarrow> u64 set \<Rightarrow> QuicError + PeerTransportParameters" where
  "parse_params_loop buf offset params seen =
     (if offset < length buf then
        and_then (next_param buf offset) (\<lambda>(id', value, offset').
          if id' \<in> seen
          then Inl (transport_parameter_error (Fmt ''duplicate transport parameter 0x{id:x}'' [NumArg id']))
          else and_then (apply_param id' value params)
                 (\<lambda>params'. parse_params_loop buf offset' params' (insert id' seen)))
      else Inr params)"
  by pat_completeness auto
termination
  by (relation "measure (\<lambda>(buf, offset, _). length buf - offset)") (auto dest: next_param_progress)

declare parse_params_loop.simps [simp del]

definition parse_transport_parameters :: "bytes \<Rightarrow> QuicError + PeerTransportParameters" where
  "parse_transport_parameters buf = parse_params_loop buf 0 peer_params_default {}"

section \<open>The parameter list behind the encoding\<close>

text \<open>The wire form of one parameter, and the list of parameters a configuration sends.\<close>

definition entry_bytes :: "u64 \<times> bytes \<Rightarrow> bytes" where
  "entry_bytes e = varint_bytes (fst e) @ varint_bytes (word_of_nat (length (snd e))) @ snd e"

definition entry_ok :: "u64 \<times> bytes \<Rightarrow> bool" where
  "entry_ok e \<longleftrightarrow> fst e \<le> MAX_VARINT \<and> length (snd e) < 2 ^ 62"

definition num_entry :: "u64 \<Rightarrow> u64 \<Rightarrow> (u64 \<times> bytes) list" where
  "num_entry id' v = [(id', varint_bytes v)]"

definition bytes_entry :: "u64 \<Rightarrow> bytes option \<Rightarrow> (u64 \<times> bytes) list" where
  "bytes_entry id' v = (case v of None \<Rightarrow> [] | Some b \<Rightarrow> [(id', b)])"

definition known_entries :: "LocalTransportParameters \<Rightarrow> (u64 \<times> bytes) list" where
  "known_entries p =
     bytes_entry 0x00 (map_option cid_as_slice (l_original_destination_connection_id p))
     @ (if l_max_idle_timeout_ms p > 0 then num_entry 0x01 (l_max_idle_timeout_ms p) else [])
     @ bytes_entry 0x02 (l_stateless_reset_token p)
     @ (if l_max_udp_payload_size p \<noteq> DEFAULT_MAX_UDP_PAYLOAD_SIZE
        then num_entry 0x03 (l_max_udp_payload_size p) else [])
     @ num_entry 0x04 (l_initial_max_data p)
     @ num_entry 0x05 (l_initial_max_stream_data_bidi_local p)
     @ num_entry 0x06 (l_initial_max_stream_data_bidi_remote p)
     @ num_entry 0x07 (l_initial_max_stream_data_uni p)
     @ num_entry 0x08 (l_initial_max_streams_bidi p)
     @ num_entry 0x09 (l_initial_max_streams_uni p)
     @ (if l_ack_delay_exponent p \<noteq> 3 then num_entry 0x0a (ucast (l_ack_delay_exponent p)) else [])
     @ (if l_max_ack_delay_ms p \<noteq> DEFAULT_MAX_ACK_DELAY_MS
        then num_entry 0x0b (l_max_ack_delay_ms p) else [])
     @ (if l_disable_active_migration p then bytes_entry 0x0c (Some []) else [])
     @ bytes_entry 0x0d (l_preferred_address p)
     @ num_entry 0x0e (l_active_connection_id_limit p)
     @ bytes_entry 0x0f (map_option cid_as_slice (l_initial_source_connection_id p))
     @ bytes_entry 0x10 (map_option cid_as_slice (l_retry_source_connection_id p))"

definition wf_local :: "LocalTransportParameters \<Rightarrow> bool" where
  "wf_local p \<longleftrightarrow>
     (\<forall>cid \<in> set_option (l_original_destination_connection_id p) \<union>
             set_option (l_initial_source_connection_id p) \<union>
             set_option (l_retry_source_connection_id p). wf_cid cid) \<and>
     (\<forall>t \<in> set_option (l_stateless_reset_token p). length t = 16) \<and>
     (\<forall>a \<in> set_option (l_preferred_address p). validate_preferred_address a = Inr ()) \<and>
     (\<forall>v \<in> {l_max_idle_timeout_ms p, l_max_udp_payload_size p, l_initial_max_data p,
            l_initial_max_stream_data_bidi_local p, l_initial_max_stream_data_bidi_remote p,
            l_initial_max_stream_data_uni p, l_initial_max_streams_bidi p,
            l_initial_max_streams_uni p, l_active_connection_id_limit p}. v \<le> MAX_VARINT) \<and>
     MIN_MAX_UDP_PAYLOAD_SIZE \<le> l_max_udp_payload_size p \<and>
     l_ack_delay_exponent p \<le> MAX_ACK_DELAY_EXPONENT \<and>
     l_max_ack_delay_ms p \<le> MAX_MAX_ACK_DELAY_MS \<and>
     2 \<le> l_active_connection_id_limit p"

text \<open>What the peer should learn from a configuration.\<close>

definition peer_view :: "LocalTransportParameters \<Rightarrow> PeerTransportParameters" where
  "peer_view p =
     \<lparr>p_original_destination_connection_id = l_original_destination_connection_id p,
      p_max_idle_timeout_ms = l_max_idle_timeout_ms p,
      p_max_udp_payload_size = l_max_udp_payload_size p,
      p_initial_max_data = l_initial_max_data p,
      p_initial_max_stream_data_bidi_local = l_initial_max_stream_data_bidi_local p,
      p_initial_max_stream_data_bidi_remote = l_initial_max_stream_data_bidi_remote p,
      p_initial_max_stream_data_uni = l_initial_max_stream_data_uni p,
      p_initial_max_streams_bidi = l_initial_max_streams_bidi p,
      p_initial_max_streams_uni = l_initial_max_streams_uni p,
      p_ack_delay_exponent = l_ack_delay_exponent p,
      p_max_ack_delay_ms = l_max_ack_delay_ms p,
      p_disable_active_migration = l_disable_active_migration p,
      p_preferred_address = l_preferred_address p,
      p_active_connection_id_limit = l_active_connection_id_limit p,
      p_initial_source_connection_id = l_initial_source_connection_id p,
      p_retry_source_connection_id = l_retry_source_connection_id p,
      p_stateless_reset_token = l_stateless_reset_token p\<rparr>"

abbreviation entries_bytes :: "(u64 \<times> bytes) list \<Rightarrow> bytes" where
  "entries_bytes es \<equiv> concat (map entry_bytes es)"

section \<open>The encoder writes that list\<close>

lemma varint_len_le: "varint_len v \<le> 8"
  by (simp add: varint_len_def)

lemma writes_num_entry:
  assumes "id' \<le> MAX_VARINT" "v \<le> MAX_VARINT"
  shows "writes (encode_transport_param id' v) (entries_bytes (num_entry id' v))"
proof -
  have "word_of_nat (varint_len v) \<le> MAX_VARINT"
    using varint_len_le [of v] by (intro le_MAX_VARINT_small) (simp add: unat_word_of_length)
  then have "writes (encode_transport_param id' v)
      (varint_bytes id' @ varint_bytes (word_of_nat (varint_len v)) @ varint_bytes v @ [])"
    unfolding encode_transport_param_def using assms by (intro writes_run_enc_Cons writes_encode_varint) auto
  then show ?thesis using assms by (simp add: num_entry_def entry_bytes_def length_varint_bytes)
qed

lemma writes_bytes_entry:
  assumes "id' \<le> MAX_VARINT" "length v < 2 ^ 62"
  shows "writes (encode_transport_bytes_param id' v) (entry_bytes (id', v))"
proof -
  have "word_of_nat (length v) \<le> MAX_VARINT"
    using assms(2) by (simp add: word_of_nat_le_MAX_VARINT)
  then have "writes (encode_transport_bytes_param id' v)
      (varint_bytes id' @ varint_bytes (word_of_nat (length v)) @ v @ [])"
    unfolding encode_transport_bytes_param_def using assms
    by (intro writes_run_enc_Cons writes_encode_varint writes_push_bytes writes_run_enc_Nil)
  then show ?thesis by (simp add: entry_bytes_def)
qed

lemma writes_bytes_entry_some:
  assumes "id' \<le> MAX_VARINT" "\<And>a. x = Some a \<Longrightarrow> length (f a) < 2 ^ 62"
  shows "writes (when_some x (\<lambda>a. encode_transport_bytes_param id' (f a)))
           (entries_bytes (bytes_entry id' (map_option f x)))"
  using assms writes_bytes_entry
  by (cases x) (auto simp: when_some_def bytes_entry_def writes_def)

lemma writes_bytes_entry_opt:
  assumes "id' \<le> MAX_VARINT" "\<And>a. x = Some a \<Longrightarrow> length a < 2 ^ 62"
  shows "writes (when_some x (\<lambda>a. encode_transport_bytes_param id' a)) (entries_bytes (bytes_entry id' x))"
  using writes_bytes_entry_some [of id' x "\<lambda>a. a"] assms by (simp add: option.map_ident)

lemma writes_bytes_entry_one:
  assumes "id' \<le> MAX_VARINT" "length a < 2 ^ 62"
  shows "writes (encode_transport_bytes_param id' a) (entries_bytes (bytes_entry id' (Some a)))"
  using writes_bytes_entry [OF assms] by (simp add: bytes_entry_def)

lemma writes_when_true:
  "(c \<Longrightarrow> writes w (entries_bytes es)) \<Longrightarrow> writes (when_true c w) (entries_bytes (if c then es else []))"
  by (auto simp: when_true_def writes_def)

lemma writes_run_enc_Cons_entries:
  "writes w (entries_bytes es) \<Longrightarrow> writes (run_enc ws) (entries_bytes es') \<Longrightarrow>
   writes (run_enc (w # ws)) (entries_bytes (es @ es'))"
  using writes_run_enc_Cons by fastforce

lemma validate_preferred_length: "validate_preferred_address a = Inr () \<Longrightarrow> length a \<le> 61"
  by (auto simp: validate_preferred_address_def Let_def MAX_CID_LEN_def split: if_splits)

lemma writes_preferred_address:
  assumes "\<And>a. x = Some a \<Longrightarrow> validate_preferred_address a = Inr ()"
  shows "writes (when_some x (\<lambda>a. run_enc [check_first (validate_preferred_address a),
                  encode_transport_bytes_param 0x0d a])) (entries_bytes (bytes_entry 0x0d x))"
proof (cases x)
  case None
  then show ?thesis by (simp add: when_some_def bytes_entry_def writes_def)
next
  case (Some a)
  then have v: "validate_preferred_address a = Inr ()" using assms by simp
  have "writes (encode_transport_bytes_param 0x0d a) (entry_bytes (0x0d, a))"
    using validate_preferred_length [OF v] by (intro writes_bytes_entry) (auto simp: MAX_VARINT_eq)
  then show ?thesis
    using Some v by (simp add: when_some_def bytes_entry_def writes_def check_first_def run_enc.simps)
qed

lemma unat_ucast_u32_u64 [simp]: "unat (ucast (x :: u32) :: u64) = unat x"
  using unsigned_less [of x, where 'a = nat] by (simp add: unsigned_ucast_eq take_bit_nat_eq_self)

lemma writes_known_parameters:
  assumes "wf_local p"
  shows "writes (encode_known_parameters p) (entries_bytes (known_entries p))"
proof -
  have cids: "\<And>cid. wf_cid cid \<Longrightarrow> length (cid_as_slice cid) < 2 ^ 62"
    using cid_len_le by (fastforce simp: length_cid_as_slice)
  have small: "ucast (l_ack_delay_exponent p) \<le> MAX_VARINT" "l_max_ack_delay_ms p \<le> MAX_VARINT"
    using assms
    by (auto simp: wf_local_def MAX_VARINT_eq MAX_MAX_ACK_DELAY_MS_def MAX_ACK_DELAY_EXPONENT_def
        word_le_nat_alt)
  have ids: "\<And>k. k < 0x40 \<Longrightarrow> k \<le> MAX_VARINT" by (simp add: MAX_VARINT_eq word_le_nat_alt word_less_nat_alt)
  have "writes (encode_known_parameters p) (entries_bytes (known_entries p @ []))"
    unfolding encode_known_parameters_def known_entries_def append_assoc
    apply (intro writes_run_enc_Cons_entries writes_bytes_entry_some writes_bytes_entry_opt writes_when_true
       writes_num_entry writes_preferred_address writes_bytes_entry_one)
    using assms small cids by (simp_all add: wf_local_def ids)
  then show ?thesis by simp
qed

section \<open>The parser reads that list\<close>

fun apply_all :: "(u64 \<times> bytes) list \<Rightarrow> PeerTransportParameters \<Rightarrow> QuicError + PeerTransportParameters" where
  "apply_all [] p = Inr p"
| "apply_all ((id', v) # es) p = and_then (apply_param id' v p) (apply_all es)"

lemma apply_all_append: "apply_all (es @ fs) p = and_then (apply_all es p) (apply_all fs)"
proof (induction es arbitrary: p)
  case (Cons e es)
  then show ?case by (cases e; cases "apply_param (fst e) (snd e) p") simp_all
qed simp

lemma next_param_entry:
  assumes "entry_ok (id', v)"
  shows "next_param (pre @ entry_bytes (id', v) @ rest) (length pre)
    = Inr (id', v, length (pre @ entry_bytes (id', v)))"
proof -
  have i: "id' \<le> MAX_VARINT" and l: "word_of_nat (length v) \<le> MAX_VARINT"
      "unat (word_of_nat (length v) :: u64) = length v"
    using assms word_of_nat_le_MAX_VARINT [of "length v"] by (auto simp: entry_ok_def)
  show ?thesis
    using decode_varint_bytes [OF i, of "varint_bytes (word_of_nat (length v)) @ v @ rest"]
      decode_varint_bytes [OF l(1), of "v @ rest"]
    by (simp add: next_param_def entry_bytes_def length_varint_bytes i l Let_def)
qed

lemma parse_params_loop_entries:
  assumes "list_all entry_ok es" "distinct (map fst es)" "fst ` set es \<inter> seen = {}"
  shows "parse_params_loop (pre @ entries_bytes es) (length pre) p seen = apply_all es p"
  using assms
proof (induction es arbitrary: pre p seen)
  case Nil
  then show ?case by (simp add: parse_params_loop.simps)
next
  case (Cons e es)
  obtain id' v where e: "e = (id', v)" by (cases e)
  have "0 < length (entry_bytes (id', v))"
    using Cons.prems(1) e by (simp add: entry_bytes_def entry_ok_def length_varint_bytes varint_len_def)
  then have "parse_params_loop (pre @ entries_bytes (e # es)) (length pre) p seen =
      and_then (apply_param id' v p) (\<lambda>p'.
         parse_params_loop ((pre @ entry_bytes e) @ entries_bytes es) (length (pre @ entry_bytes e)) p' (insert id' seen))"
    using Cons.prems next_param_entry [of id' v pre "entries_bytes es"] e
    by (subst parse_params_loop.simps) simp
  also have "\<dots> = and_then (apply_param id' v p) (\<lambda>p'. apply_all es p')"
    using Cons.prems e by (subst Cons.IH) (auto intro: image_eqI)
  finally show ?case using e by simp
qed

section \<open>Replaying the list gives the peer's view\<close>

lemma decode_param_value_bytes [simp]:
  "v \<le> MAX_VARINT \<Longrightarrow> decode_transport_param_value (varint_bytes v) = Inr v"
  using decode_varint_bytes [of v "[]"] by (simp add: decode_transport_param_value_def length_varint_bytes)

lemma decode_param_cid [simp]:
  "wf_cid c \<Longrightarrow> decode_transport_connection_id name (cid_as_slice c) = Inr c"
  using cid_len_le [of c] by (simp add: decode_transport_connection_id_def length_cid_as_slice MAX_CID_LEN_def)

lemma apply_num_entries:
  assumes "v \<le> MAX_VARINT"
  shows "apply_all (num_entry 0x01 v) p = Inr (p\<lparr>p_max_idle_timeout_ms := v\<rparr>)"
    and "MIN_MAX_UDP_PAYLOAD_SIZE \<le> v \<Longrightarrow> apply_all (num_entry 0x03 v) p = Inr (p\<lparr>p_max_udp_payload_size := v\<rparr>)"
    and "apply_all (num_entry 0x04 v) p = Inr (p\<lparr>p_initial_max_data := v\<rparr>)"
    and "apply_all (num_entry 0x05 v) p = Inr (p\<lparr>p_initial_max_stream_data_bidi_local := v\<rparr>)"
    and "apply_all (num_entry 0x06 v) p = Inr (p\<lparr>p_initial_max_stream_data_bidi_remote := v\<rparr>)"
    and "apply_all (num_entry 0x07 v) p = Inr (p\<lparr>p_initial_max_stream_data_uni := v\<rparr>)"
    and "apply_all (num_entry 0x08 v) p = Inr (p\<lparr>p_initial_max_streams_bidi := v\<rparr>)"
    and "apply_all (num_entry 0x09 v) p = Inr (p\<lparr>p_initial_max_streams_uni := v\<rparr>)"
    and "v \<le> ucast MAX_ACK_DELAY_EXPONENT \<Longrightarrow> apply_all (num_entry 0x0a v) p = Inr (p\<lparr>p_ack_delay_exponent := ucast v\<rparr>)"
    and "v \<le> MAX_MAX_ACK_DELAY_MS \<Longrightarrow> apply_all (num_entry 0x0b v) p = Inr (p\<lparr>p_max_ack_delay_ms := v\<rparr>)"
    and "2 \<le> v \<Longrightarrow> apply_all (num_entry 0x0e v) p = Inr (p\<lparr>p_active_connection_id_limit := v\<rparr>)"
  using assms by (simp_all add: num_entry_def apply_param_def not_less)

lemma apply_bytes_entries:
  "(\<And>c. x = Some c \<Longrightarrow> wf_cid c) \<Longrightarrow> p_original_destination_connection_id p = None \<Longrightarrow>
     apply_all (bytes_entry 0x00 (map_option cid_as_slice x)) p
       = Inr (p\<lparr>p_original_destination_connection_id := x\<rparr>)"
  "(\<And>t. y = Some t \<Longrightarrow> length t = 16) \<Longrightarrow> p_stateless_reset_token p = None \<Longrightarrow>
     apply_all (bytes_entry 0x02 y) p = Inr (p\<lparr>p_stateless_reset_token := y\<rparr>)"
  "apply_all (bytes_entry 0x0c (Some [])) p = Inr (p\<lparr>p_disable_active_migration := True\<rparr>)"
  "(\<And>a. y = Some a \<Longrightarrow> validate_preferred_address a = Inr ()) \<Longrightarrow> p_preferred_address p = None \<Longrightarrow>
     apply_all (bytes_entry 0x0d y) p = Inr (p\<lparr>p_preferred_address := y\<rparr>)"
  "(\<And>c. x = Some c \<Longrightarrow> wf_cid c) \<Longrightarrow> p_initial_source_connection_id p = None \<Longrightarrow>
     apply_all (bytes_entry 0x0f (map_option cid_as_slice x)) p
       = Inr (p\<lparr>p_initial_source_connection_id := x\<rparr>)"
  "(\<And>c. x = Some c \<Longrightarrow> wf_cid c) \<Longrightarrow> p_retry_source_connection_id p = None \<Longrightarrow>
     apply_all (bytes_entry 0x10 (map_option cid_as_slice x)) p
       = Inr (p\<lparr>p_retry_source_connection_id := x\<rparr>)"
  by (cases x; cases y; simp add: bytes_entry_def apply_param_def)+

lemma ucast_u32_u64_inverse [simp]: "(ucast (ucast (x :: u32) :: u64) :: u32) = x"
  using unsigned_less [of x, where 'a = nat]
  by (intro word_unat_eq_iff [THEN iffD2])
     (simp add: unsigned_ucast_eq [of "ucast x :: u64"] take_bit_nat_eq_self)

text \<open>A parameter left out because it has its default value leaves the default in place.\<close>

lemma apply_optional_entries:
  assumes "v \<le> MAX_VARINT"
  shows "p_max_idle_timeout_ms p = 0 \<Longrightarrow>
     apply_all (if v > 0 then num_entry 0x01 v else []) p = Inr (p\<lparr>p_max_idle_timeout_ms := v\<rparr>)"
    and "p_max_udp_payload_size p = DEFAULT_MAX_UDP_PAYLOAD_SIZE \<Longrightarrow> MIN_MAX_UDP_PAYLOAD_SIZE \<le> v \<Longrightarrow>
     apply_all (if v \<noteq> DEFAULT_MAX_UDP_PAYLOAD_SIZE then num_entry 0x03 v else []) p
       = Inr (p\<lparr>p_max_udp_payload_size := v\<rparr>)"
    and "p_ack_delay_exponent p = 3 \<Longrightarrow> x \<le> MAX_ACK_DELAY_EXPONENT \<Longrightarrow>
     apply_all (if x \<noteq> 3 then num_entry 0x0a (ucast x) else []) p = Inr (p\<lparr>p_ack_delay_exponent := x\<rparr>)"
    and "p_max_ack_delay_ms p = DEFAULT_MAX_ACK_DELAY_MS \<Longrightarrow> v \<le> MAX_MAX_ACK_DELAY_MS \<Longrightarrow>
     apply_all (if v \<noteq> DEFAULT_MAX_ACK_DELAY_MS then num_entry 0x0b v else []) p
       = Inr (p\<lparr>p_max_ack_delay_ms := v\<rparr>)"
    and "p_disable_active_migration p = False \<Longrightarrow>
     apply_all (if b then bytes_entry 0x0c (Some []) else []) p = Inr (p\<lparr>p_disable_active_migration := b\<rparr>)"
proof -
  have x: "x \<le> MAX_ACK_DELAY_EXPONENT \<Longrightarrow> ucast x \<le> (ucast MAX_ACK_DELAY_EXPONENT :: u64) \<and> ucast x \<le> MAX_VARINT"
    by (simp add: word_le_nat_alt MAX_ACK_DELAY_EXPONENT_def MAX_VARINT_eq)
  show "p_ack_delay_exponent p = 3 \<Longrightarrow> x \<le> MAX_ACK_DELAY_EXPONENT \<Longrightarrow>
     apply_all (if x \<noteq> 3 then num_entry 0x0a (ucast x) else []) p = Inr (p\<lparr>p_ack_delay_exponent := x\<rparr>)"
    using x apply_num_entries(9) [of "ucast x" p] by simp
qed (use assms in \<open>simp_all add: apply_num_entries apply_bytes_entries word_gt_0\<close>)

lemma apply_known_entries:
  assumes "wf_local p"
  shows "apply_all (known_entries p) peer_params_default = Inr (peer_view p)"
proof -
  have "l_max_ack_delay_ms p \<le> MAX_VARINT"
    using assms by (auto simp: wf_local_def word_le_nat_alt MAX_VARINT_eq MAX_MAX_ACK_DELAY_MS_def)
  then show ?thesis
    using assms unfolding known_entries_def apply_all_append peer_params_default_def
    by (simp add: wf_local_def apply_num_entries apply_bytes_entries apply_optional_entries peer_view_def
        cong: if_cong)
qed

lemma length_grease_bytes [simp]: "length (grease_bytes n x) = n"
  by (induction n arbitrary: x) simp_all

lemma grease_id:
  assumes "next_grease_transport_parameter c = ((i, v), c')"
  shows "0x3a \<le> i" "i \<le> 0xf9b" "length v \<le> 8" "c' = c + 1"
proof -
  have i: "i = 31 * (((c + 1) mod 128) + 1) + 27" and l: "length v = unat (drop_bit 8 (c + 1)) mod 8 + 1"
    and "c' = c + 1"
    using assms by (auto simp: next_grease_transport_parameter_def Let_def)
  then show "c' = c + 1" by simp
  show "length v \<le> 8" using l by simp
  have s: "unat ((c + 1) mod 128) < 128" by (simp add: unat_mod)
  then have "unat i = 31 * (unat ((c + 1) mod 128) + 1) + 27"
    unfolding i by (simp add: unat_word_ariths)
  then show "0x3a \<le> i" "i \<le> 0xf9b" using s by (simp_all add: word_le_nat_alt)
qed

lemma subseq_distinct_subset:
  "subseq xs ys \<Longrightarrow> set xs \<subseteq> set ys \<and> (distinct ys \<longrightarrow> distinct xs)"
  by (induction rule: list_emb.induct) auto

lemma entry_ids:
  "subseq (map fst (num_entry k v)) [k]"
  "subseq (map fst (bytes_entry k x)) [k]"
  "subseq (map fst es) ks \<Longrightarrow> subseq (map fst (if c then es else [])) ks"
  by (simp_all add: num_entry_def bytes_entry_def split: option.split)

lemma known_entries_ids:
  "subseq (map fst (known_entries p))
     ([0x00] @ [0x01] @ [0x02] @ [0x03] @ [0x04] @ [0x05] @ [0x06] @ [0x07] @ [0x08] @ [0x09]
      @ [0x0a] @ [0x0b] @ [0x0c] @ [0x0d] @ [0x0e] @ [0x0f] @ [0x10])"
  unfolding known_entries_def map_append by (intro list_emb_append_mono entry_ids)

lemma known_entries_ok:
  assumes "wf_local p"
  shows "list_all entry_ok (known_entries p)"
proof -
  have ids: "k < 0x40 \<Longrightarrow> k \<le> MAX_VARINT" for k
    by (simp add: MAX_VARINT_eq word_le_nat_alt word_less_nat_alt)
  have num: "list_all entry_ok (num_entry k v)" if "k < 0x40" "v \<le> MAX_VARINT" for k v
    using varint_len_le [of v] that by (simp add: num_entry_def entry_ok_def ids length_varint_bytes)
  have byt: "list_all entry_ok (bytes_entry k x)" if "k < 0x40" "\<And>a. x = Some a \<Longrightarrow> length a \<le> 61" for k x
    using that by (force simp: bytes_entry_def entry_ok_def ids split: option.split)
  have cids: "wf_cid c \<Longrightarrow> length (cid_as_slice c) \<le> 61" for c
    using cid_len_le [of c] by (simp add: length_cid_as_slice)
  have cond: "(c \<Longrightarrow> list_all entry_ok es) \<Longrightarrow> list_all entry_ok (if c then es else [])" for c es
    by simp
  have small: "ucast (l_ack_delay_exponent p) \<le> MAX_VARINT" "l_max_ack_delay_ms p \<le> MAX_VARINT"
    using assms
    by (auto simp: wf_local_def MAX_VARINT_eq MAX_MAX_ACK_DELAY_MS_def MAX_ACK_DELAY_EXPONENT_def
        word_le_nat_alt)
  show ?thesis
    unfolding known_entries_def list_all_append
    apply (intro conjI num byt cond)
    using assms small by (auto simp: wf_local_def cids validate_preferred_length)
qed

lemma known_entries_distinct:
  "distinct (map fst (known_entries p))" "0x3a \<le> i \<Longrightarrow> i \<notin> fst ` set (known_entries p)"
  using subseq_distinct_subset [OF known_entries_ids [of p]] by (auto simp: subset_iff word_le_nat_alt)

lemma apply_unknown:
  assumes "0x10 < id'" shows "apply_param id' v p = Inr p"
proof -
  have ne: "id' \<noteq> k" if "k \<le> 0x10" for k using assms that by auto
  show ?thesis by (simp add: apply_param_def ne [of 0] ne)
qed

text \<open>C10: every well-formed local configuration encodes, whatever the GREASE counter, and parsing the
  encoding gives the peer exactly the configured values: omitted parameters come back as their
  defaults, and the unknown GREASE parameter is ignored and never taken for a duplicate.\<close>

theorem transport_parameters_roundtrip:
  assumes "wf_local params"
  shows "\<exists>buf. encode_transport_parameters params counter = (Inr buf, counter + 1) \<and>
               parse_transport_parameters buf = Inr (peer_view params)"
proof -
  obtain i v c where g: "next_grease_transport_parameter counter = ((i, v), c)"
    by (metis surj_pair)
  note gi = grease_id [OF g]
  have iv: "entry_ok (i, v)" using gi by (auto simp: entry_ok_def MAX_VARINT_eq elim: order_trans)
  let ?es = "known_entries params @ [(i, v)]"
  have "encode_transport_parameters params counter = (Inr (entries_bytes ?es), counter + 1)"
    using writesD [OF writes_known_parameters [OF assms], of "[]"] gi iv
      writesD [OF writes_bytes_entry [of i v]]
    by (simp add: encode_transport_parameters_def g entry_ok_def)
  moreover have "parse_transport_parameters (entries_bytes ?es) = apply_all ?es peer_params_default"
  proof -
    show ?thesis
      using parse_params_loop_entries [of ?es "{}" "[]"] known_entries_ok [OF assms] iv
        known_entries_distinct(1) [of params] known_entries_distinct(2) [OF gi(1), of params]
      by (simp add: parse_transport_parameters_def)
  qed
  moreover have "apply_all ?es peer_params_default = Inr (peer_view params)"
  proof -
    have "0x10 < i" using gi(1) by (simp add: word_le_nat_alt word_less_nat_alt)
    then show ?thesis by (simp add: apply_all_append apply_known_entries [OF assms] apply_unknown)
  qed
  ultimately show ?thesis by simp
qed

theorem transport_parameters_roundtrip_witness:
  "let p = (local_params_new 1000 500 10 20)\<lparr>l_max_idle_timeout_ms := 30000, l_stateless_reset_token := Some (replicate 16 7)\<rparr>
   in wf_local p \<and> (\<exists>buf. encode_transport_parameters p 5 = (Inr buf, 6) \<and>
        parse_transport_parameters buf = Inr (peer_view p))"
proof -
  let ?p = "(local_params_new 1000 500 10 20)\<lparr>l_max_idle_timeout_ms := 30000, l_stateless_reset_token := Some (replicate 16 7)\<rparr>"
  have w: "wf_local ?p"
    by (simp add: wf_local_def local_params_new_def local_params_default_def MAX_VARINT_eq MAX_MAX_ACK_DELAY_MS_def
        MIN_MAX_UDP_PAYLOAD_SIZE_def DEFAULT_MAX_UDP_PAYLOAD_SIZE_def MAX_ACK_DELAY_EXPONENT_def DEFAULT_MAX_ACK_DELAY_MS_def)
  show ?thesis using w transport_parameters_roundtrip [OF w, of 5] by (simp add: Let_def)
qed

text \<open>What the parser guarantees about any accepted input.\<close>

definition wf_peer :: "PeerTransportParameters \<Rightarrow> bool" where
  "wf_peer p \<longleftrightarrow>
     MIN_MAX_UDP_PAYLOAD_SIZE \<le> p_max_udp_payload_size p \<and>
     p_ack_delay_exponent p \<le> MAX_ACK_DELAY_EXPONENT \<and>
     p_max_ack_delay_ms p \<le> MAX_MAX_ACK_DELAY_MS \<and>
     2 \<le> p_active_connection_id_limit p \<and>
     (\<forall>t \<in> set_option (p_stateless_reset_token p). length t = 16) \<and>
     (\<forall>a \<in> set_option (p_preferred_address p). validate_preferred_address a = Inr ()) \<and>
     (\<forall>c \<in> set_option (p_original_destination_connection_id p) \<union>
           set_option (p_initial_source_connection_id p) \<union>
           set_option (p_retry_source_connection_id p). wf_cid c)"

lemma wf_peer_default: "wf_peer peer_params_default"
  by (simp add: wf_peer_def peer_params_default_def MAX_MAX_ACK_DELAY_MS_def
      MIN_MAX_UDP_PAYLOAD_SIZE_def DEFAULT_MAX_UDP_PAYLOAD_SIZE_def MAX_ACK_DELAY_EXPONENT_def DEFAULT_MAX_ACK_DELAY_MS_def)

lemma ucast_exponent_le:
  "(v :: u64) \<le> ucast MAX_ACK_DELAY_EXPONENT \<Longrightarrow> ucast v \<le> MAX_ACK_DELAY_EXPONENT"
  by (simp add: word_le_nat_alt MAX_ACK_DELAY_EXPONENT_def unsigned_ucast_eq
      take_bit_nat_less_eq_self [THEN order_trans])

lemma apply_param_wf:
  assumes "wf_peer p" "apply_param id' v p = Inr p'"
  shows "wf_peer p'"
  using assms unfolding apply_param_def
  by (auto simp: wf_peer_def and_then_eq_Inr decode_transport_connection_id_def ucast_exponent_le not_less
      split: if_splits)

lemma parse_params_loop_wf:
  "parse_params_loop buf offset p seen = Inr p' \<Longrightarrow> wf_peer p \<Longrightarrow> wf_peer p'"
proof (induction buf offset p seen rule: parse_params_loop.induct)
  case (1 buf offset p seen)
  then show ?case
    using apply_param_wf parse_params_loop.simps [of buf offset p seen]
    by (fastforce simp: and_then_eq_Inr split: if_splits)
qed

lemmas tp_error_simps = transport_parameter_error_def decode_transport_param_value_def
  decode_transport_connection_id_def validate_preferred_address_def next_param_def Let_def

lemma and_then_eq_Inl: "and_then r k = Inl e \<longleftrightarrow> r = Inl e \<or> (\<exists>x. r = Inr x \<and> k x = Inl e)"
  by (cases r) auto

lemma map_err_eq_Inl: "map_err f r = Inl e \<longleftrightarrow> (\<exists>x. r = Inl x \<and> e = f x)"
  by (cases r) auto

lemma apply_param_err: "apply_param id' v p = Inl e \<Longrightarrow> \<exists>m. e = Transport TransportParameterError m"
  unfolding apply_param_def
  by (auto simp: tp_error_simps and_then_eq_Inl map_err_eq_Inl split: if_splits)

lemma next_param_err: "next_param buf offset = Inl e \<Longrightarrow> \<exists>m. e = Transport TransportParameterError m"
  by (auto simp: tp_error_simps and_then_eq_Inl map_err_eq_Inl split: if_splits)

lemma parse_params_loop_err:
  "parse_params_loop buf offset p seen = Inl e \<Longrightarrow> \<exists>m. e = Transport TransportParameterError m"
proof (induction buf offset p seen rule: parse_params_loop.induct)
  case (1 buf offset p seen)
  then show ?case
    using apply_param_err next_param_err parse_params_loop.simps [of buf offset p seen]
    by (fastforce simp: and_then_eq_Inl transport_parameter_error_def split: if_splits)
qed


end
