(* ===== verification/F64.thy ===== *)
theory F64
  imports Complex_Main "HOL-Library.Log_Nat"
begin

text \<open>
  Double-precision arithmetic as the timing and congestion code uses it.  A finite \<open>f64\<close> is the rational
  number it denotes, and every operation rounds its exact result to 53 significant bits, to the nearest
  and ties to even.  The values in the code (seconds, windows in packets, products of them) lie far
  inside the exponent range, so overflow to infinity and subnormal numbers do not occur and are not
  represented.
\<close>

type_synonym f64 = rat

section \<open>Rounding\<close>

text \<open>The binary exponent of a nonzero number: the integer \<open>e\<close> with \<open>2 powi e \<le> \<bar>x\<bar> < 2 powi (e + 1)\<close>.\<close>

definition exponent :: "rat \<Rightarrow> int" where
  "exponent x =
     (let (p, q) = quotient_of \<bar>x\<bar>;
          k = bitlen p - bitlen q
      in if 2 powi k \<le> \<bar>x\<bar> then k else k - 1)"

definition round_even :: "rat \<Rightarrow> int" where
  "round_even x =
     (let f = \<lfloor>x\<rfloor>; d = x - of_int f in
      if d < 1 / 2 then f else if d > 1 / 2 then f + 1 else if even f then f else f + 1)"

definition fl :: "rat \<Rightarrow> f64" where
  "fl x = (if x = 0 then 0
           else let u = 2 powi (exponent x - 52) in of_int (round_even (x / u)) * u)"

section \<open>Conversions of the standard library\<close>

definition f64_of_usize :: "nat \<Rightarrow> f64" where
  "f64_of_usize n = fl (of_nat n)"

text \<open>\<open>as usize\<close> truncates and saturates.\<close>

definition usize_of_f64 :: "f64 \<Rightarrow> nat" where
  "usize_of_f64 x = min (2 ^ 64 - 1) (nat \<lfloor>x\<rfloor>)"

definition NANOS_PER_SEC :: nat where "NANOS_PER_SEC = 10 ^ 9"

text \<open>\<open>Duration::as_secs_f64\<close> and \<open>Duration::from_secs_f64\<close>; a duration is its number of nanoseconds.\<close>

definition as_secs_f64 :: "nat \<Rightarrow> f64" where
  "as_secs_f64 d = fl (fl (of_nat (d div NANOS_PER_SEC)) + fl (of_nat (d mod NANOS_PER_SEC) / of_nat NANOS_PER_SEC))"

definition from_secs_f64 :: "f64 \<Rightarrow> nat" where
  "from_secs_f64 s = nat (round_even (s * of_nat NANOS_PER_SEC))"

section \<open>Rounding error\<close>

lemma round_even_error: "\<bar>of_int (round_even x) - x\<bar> \<le> 1 / 2"
  unfolding round_even_def Let_def by (auto simp: abs_if) linarith+

lemma round_even_nonneg: "0 \<le> x \<Longrightarrow> 0 \<le> round_even x"
  by (auto simp: round_even_def Let_def)

lemma floorlog_powi:
  assumes "0 < n"
  shows "2 powi (int (floorlog 2 n) - 1) \<le> (of_nat n :: rat)" "(of_nat n :: rat) < 2 powi int (floorlog 2 n)"
proof -
  have g: "0 < floorlog 2 n" using assms by (simp add: floorlog_def)
  have "2 ^ (floorlog 2 n - 1) \<le> n" "n < 2 ^ floorlog 2 n"
    using floorlog_bounds [of n 2] assms by auto
  then have "(of_nat (2 ^ (floorlog 2 n - 1)) :: rat) \<le> of_nat n" "(of_nat n :: rat) < of_nat (2 ^ floorlog 2 n)"
    by (simp_all only: of_nat_le_iff of_nat_less_iff)
  moreover have "int (floorlog 2 n) - 1 = int (floorlog 2 n - 1)" using g by simp
  ultimately show "2 powi (int (floorlog 2 n) - 1) \<le> (of_nat n :: rat)" "(of_nat n :: rat) < 2 powi int (floorlog 2 n)"
    by (simp_all del: of_nat_diff)
qed

lemma exponent_le:
  assumes "x \<noteq> 0" shows "2 powi exponent x \<le> \<bar>x\<bar>"
proof -
  obtain p q where pq: "quotient_of \<bar>x\<bar> = (p, q)" by fastforce
  have q: "0 < q" using quotient_of_denom_pos [OF pq] .
  have x: "\<bar>x\<bar> = of_int p / of_int q" using quotient_of_div [OF pq] .
  have p: "0 < p" using assms q x by (metis divide_pos_pos of_int_0_less_iff zero_less_abs_iff zero_less_divide_iff not_less_iff_gr_or_eq)
  let ?P = "int (floorlog 2 (nat p))" and ?Q = "int (floorlog 2 (nat q))"
  have "2 powi (?P - 1) \<le> (of_int p :: rat)" using floorlog_powi(1) [of "nat p"] p by simp
  moreover have "(of_int q :: rat) < 2 powi ?Q" using floorlog_powi(2) [of "nat q"] q by simp
  ultimately have "2 powi (?P - 1) / 2 powi ?Q \<le> (of_int p / of_int q :: rat)"
    using p q by (intro frac_le) auto
  moreover have "(2 :: rat) powi (?P - ?Q - 1) = 2 powi (?P - 1) / 2 powi ?Q"
    by (metis power_int_diff [of "2 :: rat" "?P - 1" ?Q] diff_right_commute zero_neq_numeral)
  ultimately have "2 powi (?P - ?Q - 1) \<le> \<bar>x\<bar>" by (simp only: x)
  then show ?thesis by (simp add: exponent_def pq bitlen_def Let_def)
qed

lemma fl_error: "\<bar>fl x - x\<bar> \<le> \<bar>x\<bar> / 2 ^ 53"
proof (cases "x = 0")
  case False
  define u :: rat where "u = 2 powi (exponent x - 52)"
  have u: "0 < u" "u = 2 powi exponent x / 2 ^ 52" by (simp_all add: u_def power_int_diff)
  have "fl x - x = (of_int (round_even (x / u)) - x / u) * u"
    using False u(1) by (simp add: fl_def u_def [symmetric] Let_def left_diff_distrib)
  then have "\<bar>fl x - x\<bar> = \<bar>of_int (round_even (x / u)) - x / u\<bar> * u" using u(1) by (simp add: abs_mult)
  also have "\<dots> \<le> 1 / 2 * u" using round_even_error u(1) by (intro mult_right_mono) auto
  also have "\<dots> \<le> \<bar>x\<bar> / 2 ^ 53" using exponent_le [OF False] by (simp add: u(2))
  finally show ?thesis .
qed (simp add: fl_def)

lemma fl_bounds:
  assumes "0 \<le> x"
  shows "x * (1 - 1 / 2 ^ 53) \<le> fl x" "fl x \<le> x * (1 + 1 / 2 ^ 53)"
proof -
  have "\<bar>fl x - x\<bar> \<le> x / 2 ^ 53" using fl_error [of x] assms by simp
  then have "x - x / 2 ^ 53 \<le> fl x" "fl x \<le> x + x / 2 ^ 53" by linarith+
  then show "x * (1 - 1 / 2 ^ 53) \<le> fl x" "fl x \<le> x * (1 + 1 / 2 ^ 53)" by (simp_all add: algebra_simps)
qed

lemma fl_nonneg: "0 \<le> x \<Longrightarrow> 0 \<le> fl x"
  by (rule order_trans [OF _ fl_bounds(1)]) auto

text \<open>The value read back from a duration is within a relative error of about \<open>2 ^ -52\<close>.\<close>

lemma as_secs_f64_bounds:
  "of_nat d / 10 ^ 9 * (1 - 1 / 2 ^ 51) \<le> as_secs_f64 d" "as_secs_f64 d \<le> of_nat d / 10 ^ 9 * (1 + 1 / 2 ^ 51)"
proof -
  define s n where "s = (of_nat (d div NANOS_PER_SEC) :: rat)" and "n = (of_nat (d mod NANOS_PER_SEC) / 10 ^ 9 :: rat)"
  have nn: "0 \<le> s" "0 \<le> n" by (simp_all add: s_def n_def)
  have d: "of_nat d / 10 ^ 9 = s + n"
  proof -
    have "(of_nat d :: rat) = of_nat (d div NANOS_PER_SEC * NANOS_PER_SEC + d mod NANOS_PER_SEC)" by simp
    then have "(of_nat d :: rat) = of_nat (d div NANOS_PER_SEC) * 10 ^ 9 + of_nat (d mod NANOS_PER_SEC)"
      by (simp only: of_nat_add of_nat_mult) (simp add: NANOS_PER_SEC_def)
    then show ?thesis by (simp add: s_def n_def field_simps)
  qed
  have a: "as_secs_f64 d = fl (fl s + fl n)" by (simp add: as_secs_f64_def s_def n_def NANOS_PER_SEC_def)
  let ?l = "1 - 1 / 2 ^ 53 :: rat" and ?u = "1 + 1 / 2 ^ 53 :: rat"
  have l: "(s + n) * ?l \<le> fl s + fl n" using fl_bounds(1) [OF nn(1)] fl_bounds(1) [OF nn(2)] unfolding distrib_right by simp
  have u: "fl s + fl n \<le> (s + n) * ?u" using fl_bounds(2) [OF nn(1)] fl_bounds(2) [OF nn(2)] unfolding distrib_right by simp
  have pos: "0 \<le> fl s + fl n" using fl_nonneg nn by (simp add: add_nonneg_nonneg)
  have "(s + n) * (?l * ?l) \<le> fl (fl s + fl n)"
    using fl_bounds(1) [OF pos] mult_right_mono [OF l, of ?l] by (simp add: mult.assoc)
  moreover have "(s + n) * (1 - 1 / 2 ^ 51) \<le> (s + n) * (?l * ?l)" using nn by (intro mult_left_mono) auto
  ultimately show "of_nat d / 10 ^ 9 * (1 - 1 / 2 ^ 51) \<le> as_secs_f64 d" unfolding a d by linarith
  have "fl (fl s + fl n) \<le> (s + n) * (?u * ?u)"
    using fl_bounds(2) [OF pos] mult_right_mono [OF u, of ?u] by (simp add: mult.assoc)
  moreover have "(s + n) * (?u * ?u) \<le> (s + n) * (1 + 1 / 2 ^ 51)" using nn by (intro mult_left_mono) auto
  ultimately show "as_secs_f64 d \<le> of_nat d / 10 ^ 9 * (1 + 1 / 2 ^ 51)" unfolding a d by linarith
qed

end
