(* ===== verification/Flow_Control.thy ===== *)
theory Flow_Control
  imports Quic_Error
begin

text \<open>
  Flow control (\<open>starfish-quic/src/transport/flow_control.rs\<close>): the connection-level and the per-stream
  counters.  Additions are 64-bit and wrap, as in a release build.  What the two structures share on the
  receiving side, extending the peer's credit, is the contract \<open>recv_window\<close>, from which the bounds on
  the credit are proved once and used for both.
\<close>

section \<open>Connection-level flow control\<close>

record ConnectionFlowControl =
  cfc_send_max :: u64
  cfc_sent :: u64
  cfc_recv_max :: u64
  cfc_received :: u64
  cfc_initial_window :: u64

definition cfc_new :: "u64 \<Rightarrow> u64 \<Rightarrow> ConnectionFlowControl" where
  "cfc_new initial_send_max initial_recv_max =
     \<lparr>cfc_send_max = initial_send_max, cfc_sent = 0, cfc_recv_max = initial_recv_max,
      cfc_received = 0, cfc_initial_window = initial_recv_max\<rparr>"

definition cfc_send_window :: "ConnectionFlowControl \<Rightarrow> u64" where
  "cfc_send_window fc = saturating_sub (cfc_send_max fc) (cfc_sent fc)"

definition cfc_on_data_sent :: "u64 \<Rightarrow> ConnectionFlowControl \<Rightarrow> ConnectionFlowControl" where
  "cfc_on_data_sent n fc = fc\<lparr>cfc_sent := cfc_sent fc + n\<rparr>"

definition cfc_update_send_max :: "u64 \<Rightarrow> ConnectionFlowControl \<Rightarrow> ConnectionFlowControl" where
  "cfc_update_send_max new_max fc =
     (if new_max > cfc_send_max fc then fc\<lparr>cfc_send_max := new_max\<rparr> else fc)"

definition cfc_set_send_max :: "u64 \<Rightarrow> ConnectionFlowControl \<Rightarrow> ConnectionFlowControl" where
  "cfc_set_send_max new_max fc = fc\<lparr>cfc_send_max := new_max\<rparr>"

definition cfc_on_data_received :: "u64 \<Rightarrow> ConnectionFlowControl \<Rightarrow> ConnectionFlowControl" where
  "cfc_on_data_received n fc = fc\<lparr>cfc_received := cfc_received fc + n\<rparr>"

definition should_send_max_data :: "ConnectionFlowControl \<Rightarrow> u64 option" where
  "should_send_max_data fc =
     (let consumed = cfc_received fc;
          threshold = saturating_sub (cfc_recv_max fc) (cfc_initial_window fc div 2)
      in if consumed \<ge> threshold then Some (cfc_received fc + cfc_initial_window fc) else None)"

definition commit_max_data :: "u64 \<Rightarrow> ConnectionFlowControl \<Rightarrow> ConnectionFlowControl" where
  "commit_max_data new_max fc = fc\<lparr>cfc_recv_max := new_max\<rparr>"

definition update_from_data_blocked ::
    "u64 \<Rightarrow> ConnectionFlowControl \<Rightarrow> u64 option \<times> ConnectionFlowControl" where
  "update_from_data_blocked blocked_at fc =
     (if blocked_at < cfc_recv_max fc then (Some (cfc_recv_max fc), fc)
      else
      let new_max = saturating_add (cfc_recv_max fc) (cfc_initial_window fc);
          fc = (if new_max > cfc_recv_max fc then fc\<lparr>cfc_recv_max := new_max\<rparr> else fc)
      in (Some (cfc_recv_max fc), fc))"

definition cfc_check_recv_limit :: "ConnectionFlowControl \<Rightarrow> bool" where
  "cfc_check_recv_limit fc \<longleftrightarrow> cfc_received fc \<le> cfc_recv_max fc"

section \<open>Stream-level flow control\<close>

record StreamFlowControl =
  sfc_send_max :: u64
  sfc_sent :: u64
  sfc_recv_max :: u64
  sfc_received :: u64
  sfc_initial_window :: u64

definition sfc_new :: "u64 \<Rightarrow> u64 \<Rightarrow> StreamFlowControl" where
  "sfc_new initial_send_max initial_recv_max =
     \<lparr>sfc_send_max = initial_send_max, sfc_sent = 0, sfc_recv_max = initial_recv_max,
      sfc_received = 0, sfc_initial_window = initial_recv_max\<rparr>"

definition sfc_send_window :: "StreamFlowControl \<Rightarrow> u64" where
  "sfc_send_window fc = saturating_sub (sfc_send_max fc) (sfc_sent fc)"

definition sfc_on_data_sent :: "u64 \<Rightarrow> StreamFlowControl \<Rightarrow> StreamFlowControl" where
  "sfc_on_data_sent n fc = fc\<lparr>sfc_sent := sfc_sent fc + n\<rparr>"

definition sfc_update_send_max :: "u64 \<Rightarrow> StreamFlowControl \<Rightarrow> StreamFlowControl" where
  "sfc_update_send_max new_max fc =
     (if new_max > sfc_send_max fc then fc\<lparr>sfc_send_max := new_max\<rparr> else fc)"

definition sfc_set_send_max :: "u64 \<Rightarrow> StreamFlowControl \<Rightarrow> StreamFlowControl" where
  "sfc_set_send_max new_max fc = fc\<lparr>sfc_send_max := new_max\<rparr>"

definition sfc_on_data_received :: "u64 \<Rightarrow> u64 \<Rightarrow> StreamFlowControl \<Rightarrow> u64 \<times> StreamFlowControl" where
  "sfc_on_data_received offset len fc =
     (let end' = offset + len in
      if end' > sfc_received fc
      then (end' - sfc_received fc, fc\<lparr>sfc_received := end'\<rparr>)
      else (0, fc))"

definition should_send_max_stream_data :: "StreamFlowControl \<Rightarrow> u64 option" where
  "should_send_max_stream_data fc =
     (let threshold = saturating_sub (sfc_recv_max fc) (sfc_initial_window fc div 2)
      in if sfc_received fc \<ge> threshold then Some (sfc_received fc + sfc_initial_window fc) else None)"

definition commit_max_stream_data :: "u64 \<Rightarrow> StreamFlowControl \<Rightarrow> StreamFlowControl" where
  "commit_max_stream_data new_max fc = fc\<lparr>sfc_recv_max := new_max\<rparr>"

definition update_from_stream_data_blocked ::
    "u64 \<Rightarrow> StreamFlowControl \<Rightarrow> u64 option \<times> StreamFlowControl" where
  "update_from_stream_data_blocked blocked_at fc =
     (if blocked_at < sfc_recv_max fc then (Some (sfc_recv_max fc), fc)
      else
      let new_max = saturating_add (sfc_recv_max fc) (sfc_initial_window fc);
          fc = (if new_max > sfc_recv_max fc then fc\<lparr>sfc_recv_max := new_max\<rparr> else fc)
      in (Some (sfc_recv_max fc), fc))"

definition sfc_check_recv_limit :: "StreamFlowControl \<Rightarrow> bool" where
  "sfc_check_recv_limit fc \<longleftrightarrow> sfc_received fc \<le> sfc_recv_max fc"

definition received_max_offset :: "StreamFlowControl \<Rightarrow> u64" where
  "received_max_offset fc = sfc_received fc"

section \<open>The receive window as a contract\<close>

text \<open>
  The two ways in which the receiver raises its limit: the periodic check, whose proposal is committed,
  and a BLOCKED hint of the peer.  Both are steps on any state that offers the operations below.
\<close>

datatype window_event = Periodic | Blocked_hint u64

fun credit_step ::
    "('s \<Rightarrow> u64 option) \<Rightarrow> (u64 \<Rightarrow> 's \<Rightarrow> 's) \<Rightarrow> (u64 \<Rightarrow> 's \<Rightarrow> u64 option \<times> 's) \<Rightarrow> window_event \<Rightarrow> 's \<Rightarrow> 's" where
  "credit_step proposal commit hint Periodic s = (case proposal s of None \<Rightarrow> s | Some m \<Rightarrow> commit m s)"
| "credit_step proposal commit hint (Blocked_hint b) s = snd (hint b s)"

definition hints :: "window_event list \<Rightarrow> nat" where
  "hints es = length (filter (\<lambda>e. e \<noteq> Periodic) es)"

locale recv_window =
  fixes limit :: "'s \<Rightarrow> u64"
    and received :: "'s \<Rightarrow> u64"
    and window :: "'s \<Rightarrow> u64"
    and proposal :: "'s \<Rightarrow> u64 option"
    and commit :: "u64 \<Rightarrow> 's \<Rightarrow> 's"
    and hint :: "u64 \<Rightarrow> 's \<Rightarrow> u64 option \<times> 's"
  assumes proposal_value: "proposal s = Some m \<Longrightarrow> m = received s + window s"
    and proposal_extends:
      "proposal s = Some m \<Longrightarrow> unat (received s) + unat (window s) < 2 ^ 64 \<Longrightarrow> limit s \<le> m"
    and commit_limit: "limit (commit m s) = m"
    and commit_frame: "received (commit m s) = received s" "window (commit m s) = window s"
    and hint_frame: "received (snd (hint b s)) = received s" "window (snd (hint b s)) = window s"
    and hint_extends: "limit s \<le> limit (snd (hint b s))"
    and hint_bound: "unat (limit (snd (hint b s))) \<le> unat (limit s) + unat (window s)"
    and hint_answer: "fst (hint b s) = Some (limit (snd (hint b s)))"
begin

lemma step_frame: "received (credit_step proposal commit hint e s) = received s" "window (credit_step proposal commit hint e s) = window s"
  by (cases e; simp add: commit_frame hint_frame split: option.split)+

lemma step_monotone:
  "unat (received s) + unat (window s) < 2 ^ 64 \<Longrightarrow> limit s \<le> limit (credit_step proposal commit hint e s)"
  by (cases e) (auto simp: commit_limit hint_extends proposal_extends split: option.split)

lemma run_frame:
  "received (fold (credit_step proposal commit hint) es s) = received s \<and> window (fold (credit_step proposal commit hint) es s) = window s"
  by (induction es arbitrary: s) (simp_all add: step_frame)

lemma run_monotone:
  "unat (received s) + unat (window s) < 2 ^ 64 \<Longrightarrow> limit s \<le> limit (fold (credit_step proposal commit hint) es s)"
proof (induction es arbitrary: s)
  case (Cons e es)
  then show ?case
    using step_monotone [of s e] Cons.IH [of "credit_step proposal commit hint e s"]
    by (auto simp: step_frame intro: order_trans)
qed simp

lemma step_bound:
  assumes "unat (received s) + unat (window s) < 2 ^ 64"
    and "unat (limit s) \<le> L" "unat (received s) + unat (window s) \<le> L"
  shows "unat (limit (credit_step proposal commit hint e s)) \<le> L + (if e = Periodic then 0 else unat (window s))"
proof (cases e)
  case Periodic
  have "m = received s + window s \<Longrightarrow> unat m = unat (received s) + unat (window s)" for m
    using assms(1) by (simp add: unat_word_ariths)
  then show ?thesis
    using Periodic assms proposal_value [of s] by (auto simp: commit_limit split: option.split)
next
  case (Blocked_hint b)
  then show ?thesis using hint_bound [of b s] assms by simp
qed

lemma run_bound:
  assumes "unat (received s) + unat (window s) < 2 ^ 64"
    and "unat (limit s) \<le> L" "unat (received s) + unat (window s) \<le> L"
  shows "unat (limit (fold (credit_step proposal commit hint) es s)) \<le> L + hints es * unat (window s)"
  using assms
proof (induction es arbitrary: s L)
  case (Cons e es)
  let ?L = "L + (if e = Periodic then 0 else unat (window s))"
  have "unat (limit (fold (credit_step proposal commit hint) es (credit_step proposal commit hint e s))) \<le> ?L + hints es * unat (window (credit_step proposal commit hint e s))"
    using Cons.prems step_bound [OF Cons.prems, of e]
    by (intro Cons.IH) (auto simp: step_frame intro: trans_le_add1)
  then show ?case by (simp add: step_frame hints_def algebra_simps split: if_splits)
qed (simp add: hints_def)

end

lemma window_proposal_extends:
  assumes "saturating_sub (l :: u64) (w div 2) \<le> r" "unat r + unat w < 2 ^ 64"
  shows "l \<le> r + w"
proof -
  have "unat l - unat w div 2 \<le> unat r"
    using assms(1) by (simp add: word_le_nat_alt unat_div)
  then have "unat l \<le> unat r + unat w" by linarith
  then show ?thesis using assms(2) by (simp add: word_le_nat_alt unat_word_ariths)
qed

lemma saturating_add_ge: "a \<le> saturating_add a (b :: u64)"
  using unat_u64_less_num [of a] by (simp add: word_le_nat_alt unat_saturating_add del: unat_u64_less_num)

interpretation conn_window: recv_window cfc_recv_max cfc_received cfc_initial_window
    should_send_max_data commit_max_data update_from_data_blocked
proof unfold_locales
  fix s m assume "should_send_max_data s = Some m" "unat (cfc_received s) + unat (cfc_initial_window s) < 2 ^ 64"
  then show "cfc_recv_max s \<le> m"
    using window_proposal_extends by (auto simp: should_send_max_data_def Let_def split: if_splits)
qed (auto simp: should_send_max_data_def commit_max_data_def update_from_data_blocked_def Let_def
       saturating_add_ge unat_saturating_add split: if_splits)

interpretation stream_window: recv_window sfc_recv_max sfc_received sfc_initial_window
    should_send_max_stream_data commit_max_stream_data update_from_stream_data_blocked
proof unfold_locales
  fix s m assume "should_send_max_stream_data s = Some m" "unat (sfc_received s) + unat (sfc_initial_window s) < 2 ^ 64"
  then show "sfc_recv_max s \<le> m"
    using window_proposal_extends by (auto simp: should_send_max_stream_data_def Let_def split: if_splits)
qed (auto simp: should_send_max_stream_data_def commit_max_stream_data_def update_from_stream_data_blocked_def Let_def
       saturating_add_ge unat_saturating_add split: if_splits)

section \<open>Accounting of received data\<close>

text \<open>The bytes the connection is charged for a sequence of frames \<open>(offset, len)\<close> on one stream.\<close>

fun charge_all :: "(u64 \<times> u64) list \<Rightarrow> StreamFlowControl \<Rightarrow> u64 \<times> StreamFlowControl" where
  "charge_all [] fc = (0, fc)"
| "charge_all ((offset, len) # fs) fc =
     (let (d, fc') = sfc_on_data_received offset len fc; (ds, fc'') = charge_all fs fc' in (d + ds, fc''))"

definition frame_end :: "u64 \<times> u64 \<Rightarrow> nat" where
  "frame_end f = unat (fst f) + unat (snd f)"

lemma frame_end_pair [simp]: "frame_end (offset, len) = unat offset + unat len"
  by (simp add: frame_end_def)

lemma on_data_received_value:
  assumes "unat offset + unat len < 2 ^ 64"
  shows "unat (sfc_received (snd (sfc_on_data_received offset len fc)))
           = max (unat (sfc_received fc)) (unat offset + unat len)"
    and "sfc_received fc + fst (sfc_on_data_received offset len fc)
           = sfc_received (snd (sfc_on_data_received offset len fc))"
proof -
  have e: "unat (offset + len) = unat offset + unat len" using assms by (simp add: unat_word_ariths)
  show "unat (sfc_received (snd (sfc_on_data_received offset len fc)))
           = max (unat (sfc_received fc)) (unat offset + unat len)"
    using e by (simp add: sfc_on_data_received_def Let_def word_less_nat_alt max_def)
  show "sfc_received fc + fst (sfc_on_data_received offset len fc)
           = sfc_received (snd (sfc_on_data_received offset len fc))"
    by (simp add: sfc_on_data_received_def Let_def)
qed

lemma charge_all_value:
  assumes "\<forall>f \<in> set fs. frame_end f < 2 ^ 64"
  shows "unat (sfc_received (snd (charge_all fs fc))) = fold max (map frame_end fs) (unat (sfc_received fc))
       \<and> sfc_received fc + fst (charge_all fs fc) = sfc_received (snd (charge_all fs fc))"
  using assms
proof (induction fs arbitrary: fc)
  case (Cons f fs)
  obtain offset len where f: "f = (offset, len)" by (cases f)
  let ?r = "sfc_on_data_received offset len fc"
  have b: "unat offset + unat len < 2 ^ 64" using Cons.prems f by (simp add: frame_end_def)
  note v = on_data_received_value [OF b, of fc]
  have ih: "unat (sfc_received (snd (charge_all fs (snd ?r))))
        = fold max (map frame_end fs) (unat (sfc_received (snd ?r)))"
     "sfc_received (snd ?r) + fst (charge_all fs (snd ?r)) = sfc_received (snd (charge_all fs (snd ?r)))"
    using Cons by auto
  show ?case
    using ih v f by (simp add: split_beta Let_def max.commute add.assoc [symmetric])
qed simp

text \<open>C34: retransmitted and overlapping data is charged once: over any sequence of frames of a stream,
  in any order, the connection is charged exactly the growth of the highest offset seen.\<close>

theorem stream_data_charged_once:
  assumes "\<forall>f \<in> set fs. frame_end f < 2 ^ 64"
  shows "unat (fst (charge_all fs (sfc_new send recv))) = Max (insert 0 (frame_end ` set fs)) \<and>
    received_max_offset (snd (charge_all fs (sfc_new send recv))) = fst (charge_all fs (sfc_new send recv))"
proof -
  have m: "fold max xs a = Max (insert a (set xs))" for xs :: "nat list" and a
    by (simp add: Max.set_eq_fold [symmetric])
  have r: "received_max_offset (snd (charge_all fs (sfc_new send recv))) = fst (charge_all fs (sfc_new send recv))"
    using charge_all_value [OF assms, of "sfc_new send recv"] by (simp add: sfc_new_def received_max_offset_def)
  then show ?thesis
    using charge_all_value [OF assms, of "sfc_new send recv"] by (simp add: m sfc_new_def received_max_offset_def)
qed

theorem stream_data_charged_once_witness:
  "unat (fst (charge_all [(0, 100), (50, 100), (0, 100)] (sfc_new 1000 1000))) = 150"
proof -
  have h: "\<forall>f \<in> set [(0, 100), (50, 100), (0, 100 :: u64)]. frame_end f < 2 ^ 64" by simp
  then show ?thesis using stream_data_charged_once [OF h, of 1000 1000] by simp
qed

section \<open>Bounded credit\<close>

abbreviation "data_credit_step \<equiv> credit_step should_send_max_data commit_max_data update_from_data_blocked"
abbreviation "stream_credit_step \<equiv>
  credit_step should_send_max_stream_data commit_max_stream_data update_from_stream_data_blocked"



text \<open>The same bound for one stream.\<close>

lemma stream_credit_bounded:
  assumes "unat (sfc_received fc) + unat (sfc_initial_window fc) < 2 ^ 64"
    and "unat (sfc_recv_max fc) \<le> unat (sfc_received fc) + unat (sfc_initial_window fc)"
  shows "sfc_recv_max fc \<le> sfc_recv_max (fold stream_credit_step es fc) \<and>
    unat (sfc_recv_max (fold stream_credit_step es fc))
      \<le> unat (sfc_received fc) + (1 + hints es) * unat (sfc_initial_window fc)"
  using stream_window.run_monotone [OF assms(1)] stream_window.run_bound [OF assms(1) assms(2) order_refl]
  by (simp add: algebra_simps)

text \<open>The bound is tight in the number of hints: a peer that repeats DATA_BLOCKED without sending any
  data raises the limit by one window each time, up to \<open>u64::MAX\<close>.\<close>

lemma hint_max_step:
  "cfc_recv_max (snd (update_from_data_blocked (- 1) fc)) = saturating_add (cfc_recv_max fc) (cfc_initial_window fc)"
  using saturating_add_ge [of "cfc_recv_max fc" "cfc_initial_window fc"]
  by (auto simp: update_from_data_blocked_def Let_def)

lemma repeated_hints_grow:
  "unat (cfc_recv_max (fold data_credit_step (replicate n (Blocked_hint (- 1))) fc))
     = min (unat (cfc_recv_max fc) + n * unat (cfc_initial_window fc)) (2 ^ 64 - 1)"
proof (induction n arbitrary: fc)
  case 0
  then show ?case using unat_u64_less_num [of "cfc_recv_max fc"] by (simp del: unat_u64_less_num)
next
  case (Suc n)
  then show ?case
    using hint_max_step [of fc] conn_window.hint_frame(2) [of "- 1" fc]
    by (simp add: unat_saturating_add min_def)
qed

end
