(* ===== verification/Stream_Manager.thy ===== *)
theory Stream_Manager
  imports Flow_Control "HOL-Library.AList"
begin

text \<open>
  Streams (\<open>starfish-quic/src/transport/stream_manager.rs\<close>): the state of one stream with the record of
  acknowledged byte ranges, the stream identifiers, and the manager that opens, accepts and retires
  streams.  A \<open>HashMap\<close> is an association list with distinct keys (the library's \<open>AList\<close>); its
  iteration order, which the sources leave open, is the order of the list.
\<close>

type_synonym ('k, 'v) HashMap = "('k \<times> 'v) list"
type_synonym StreamId = u64

section \<open>Stream state\<close>

datatype StreamInitiator = InitClient | InitServer
datatype StreamDirection = Bidirectional | Unidirectional
datatype SendState = SsReady | SsSend | SsDataSent | SsResetSent | SsDataRecvd | SsResetRecvd
datatype RecvState = RsRecv | RsSizeKnown | RsDataRecvd | RsResetRecvd | RsDataRead | RsResetRead
datatype Side = Client | Server

record StreamState =
  ss_id :: StreamId
  ss_send :: "SendState option"
  ss_recv :: "RecvState option"
  ss_flow_control :: StreamFlowControl
  ss_recv_buf :: "(u64, bytes) HashMap"
  ss_recv_offset :: u64
  ss_final_size :: "u64 option"
  ss_reset_error_code :: "u64 option"
  ss_send_offset :: u64
  ss_fin_sent :: bool
  ss_acked_send_ranges :: "(u64 \<times> u64) list"
  ss_fin_acked :: bool

definition stream_new :: "StreamId \<Rightarrow> StreamDirection \<Rightarrow> bool \<Rightarrow> u64 \<Rightarrow> u64 \<Rightarrow> StreamState" where
  "stream_new id' direction is_local initial_send_max initial_recv_max =
     (let (send, recv) = (case direction of
            Bidirectional \<Rightarrow> (Some SsReady, Some RsRecv)
          | Unidirectional \<Rightarrow> if is_local then (Some SsReady, None) else (None, Some RsRecv))
      in \<lparr>ss_id = id', ss_send = send, ss_recv = recv,
          ss_flow_control = sfc_new initial_send_max initial_recv_max,
          ss_recv_buf = [], ss_recv_offset = 0, ss_final_size = None, ss_reset_error_code = None,
          ss_send_offset = 0, ss_fin_sent = False, ss_acked_send_ranges = [], ss_fin_acked = False\<rparr>)"

text \<open>One turn of the merging loop; \<open>merged\<close> is the vector built so far.\<close>

definition merge_range :: "(u64 \<times> u64) list \<Rightarrow> u64 \<times> u64 \<Rightarrow> (u64 \<times> u64) list" where
  "merge_range merged r =
     (let (range_start, range_end) = r in
      if merged \<noteq> [] \<and> range_start \<le> snd (last merged)
      then butlast merged @ [(fst (last merged), max (snd (last merged)) range_end)]
      else merged @ [(range_start, range_end)])"

definition acknowledge_sent_data :: "u64 \<Rightarrow> usize \<Rightarrow> bool \<Rightarrow> StreamState \<Rightarrow> StreamState" where
  "acknowledge_sent_data offset len fin s =
     (let end' = offset + len;
          s = (if offset < end'
               then s\<lparr>ss_acked_send_ranges :=
                       foldl merge_range [] (sort_key fst (ss_acked_send_ranges s @ [(offset, end')]))\<rparr>
               else s)
      in if fin then s\<lparr>ss_fin_acked := True\<rparr> else s)"

fun covers_from :: "u64 \<Rightarrow> u64 \<Rightarrow> (u64 \<times> u64) list \<Rightarrow> bool" where
  "covers_from send_offset covered_end [] = False"
| "covers_from send_offset covered_end ((range_start, range_end) # rs) =
     (if range_start > covered_end then False
      else let covered_end = max covered_end range_end in
           if covered_end \<ge> send_offset then True else covers_from send_offset covered_end rs)"

definition all_sent_data_acked :: "StreamState \<Rightarrow> bool" where
  "all_sent_data_acked s =
     (if \<not> ss_fin_sent s \<or> \<not> ss_fin_acked s then False
      else if ss_send_offset s = 0 then True
      else covers_from (ss_send_offset s) 0 (ss_acked_send_ranges s))"

section \<open>Stream identifiers\<close>

definition stream_initiator :: "StreamId \<Rightarrow> StreamInitiator" where
  "stream_initiator id' = (if id' AND 0x01 = 0 then InitClient else InitServer)"

definition stream_direction :: "StreamId \<Rightarrow> StreamDirection" where
  "stream_direction id' = (if id' AND 0x02 = 0 then Bidirectional else Unidirectional)"

section \<open>The manager\<close>

record StreamManager =
  streams :: "(StreamId, StreamState) HashMap"
  sm_side :: Side
  next_bidi_id :: StreamId
  next_uni_id :: StreamId
  max_bidi_streams :: u64
  max_uni_streams :: u64
  bidi_opened :: u64
  uni_opened :: u64
  local_max_bidi_streams :: u64
  local_max_uni_streams :: u64
  advertised_local_max_bidi_streams :: u64
  advertised_local_max_uni_streams :: u64
  remote_bidi_opened :: u64
  remote_uni_opened :: u64
  local_bidi_local_recv_max :: u64
  local_bidi_remote_recv_max :: u64
  local_uni_recv_max :: u64
  peer_bidi_local_send_max :: u64
  peer_bidi_remote_send_max :: u64
  peer_uni_send_max :: u64

definition sm_new :: "Side \<Rightarrow> u64 \<Rightarrow> u64 \<Rightarrow> u64 \<Rightarrow> StreamManager" where
  "sm_new side max_bidi max_uni initial_flow =
     (let (next_bidi, next_uni) = (case side of Client \<Rightarrow> (0, 2) | Server \<Rightarrow> (1, 3)) in
      \<lparr>streams = [], sm_side = side, next_bidi_id = next_bidi, next_uni_id = next_uni,
       max_bidi_streams = max_bidi, max_uni_streams = max_uni, bidi_opened = 0, uni_opened = 0,
       local_max_bidi_streams = max_bidi, local_max_uni_streams = max_uni,
       advertised_local_max_bidi_streams = max_bidi, advertised_local_max_uni_streams = max_uni,
       remote_bidi_opened = 0, remote_uni_opened = 0,
       local_bidi_local_recv_max = initial_flow, local_bidi_remote_recv_max = initial_flow,
       local_uni_recv_max = initial_flow, peer_bidi_local_send_max = initial_flow,
       peer_bidi_remote_send_max = initial_flow, peer_uni_send_max = initial_flow\<rparr>)"

definition initiated_by :: "Side \<Rightarrow> StreamId \<Rightarrow> bool" where
  "initiated_by side id' =
     (case (side, stream_initiator id') of
        (Client, InitClient) \<Rightarrow> True | (Server, InitServer) \<Rightarrow> True | _ \<Rightarrow> False)"

definition is_local_initiated :: "StreamManager \<Rightarrow> StreamId \<Rightarrow> bool" where
  "is_local_initiated sm id' = initiated_by (sm_side sm) id'"

definition remote_stream_base :: "StreamManager \<Rightarrow> StreamDirection \<Rightarrow> StreamId" where
  "remote_stream_base sm direction =
     (case (sm_side sm, direction) of
        (Client, Bidirectional) \<Rightarrow> 1 | (Client, Unidirectional) \<Rightarrow> 3
      | (Server, Bidirectional) \<Rightarrow> 0 | (Server, Unidirectional) \<Rightarrow> 2)"

definition initial_limits_for_stream :: "StreamManager \<Rightarrow> StreamId \<Rightarrow> bool \<Rightarrow> u64 \<times> u64" where
  "initial_limits_for_stream sm id' is_local =
     (case (stream_direction id', is_local) of
        (Bidirectional, True) \<Rightarrow> (peer_bidi_remote_send_max sm, local_bidi_local_recv_max sm)
      | (Bidirectional, False) \<Rightarrow> (peer_bidi_local_send_max sm, local_bidi_remote_recv_max sm)
      | (Unidirectional, True) \<Rightarrow> (peer_uni_send_max sm, 0)
      | (Unidirectional, False) \<Rightarrow> (0, local_uni_recv_max sm))"

definition apply_peer_initial_limits ::
    "u64 \<Rightarrow> u64 \<Rightarrow> u64 \<Rightarrow> u64 \<Rightarrow> u64 \<Rightarrow> StreamManager \<Rightarrow> StreamManager" where
  "apply_peer_initial_limits bidi_local_send_max bidi_remote_send_max uni_send_max max_bidi max_uni sm =
     (let sm = sm\<lparr>peer_bidi_local_send_max := bidi_local_send_max,
                  peer_bidi_remote_send_max := bidi_remote_send_max,
                  peer_uni_send_max := uni_send_max,
                  max_bidi_streams := max_bidi, max_uni_streams := max_uni\<rparr>;
          limit = (\<lambda>id'. case (stream_direction id', initiated_by (sm_side sm) id') of
                     (Bidirectional, True) \<Rightarrow> peer_bidi_remote_send_max sm
                   | (Bidirectional, False) \<Rightarrow> peer_bidi_local_send_max sm
                   | (Unidirectional, True) \<Rightarrow> peer_uni_send_max sm
                   | (Unidirectional, False) \<Rightarrow> 0)
      in sm\<lparr>streams := map (\<lambda>(id', stream).
              (id', stream\<lparr>ss_flow_control := sfc_set_send_max (limit id') (ss_flow_control stream)\<rparr>))
            (streams sm)\<rparr>)"

definition open_bidi :: "StreamManager \<Rightarrow> (QuicError + StreamId) \<times> StreamManager" where
  "open_bidi sm =
     (if bidi_opened sm \<ge> max_bidi_streams sm
      then (Inl (Transport StreamLimitError (Msg ''bidirectional stream limit reached'')), sm)
      else
      let id' = next_bidi_id sm in
      (Inr id', sm\<lparr>next_bidi_id := next_bidi_id sm + 4, bidi_opened := bidi_opened sm + 1,
        streams := AList.update id' (stream_new id' Bidirectional True
          (peer_bidi_remote_send_max sm) (local_bidi_local_recv_max sm)) (streams sm)\<rparr>))"

definition open_uni :: "StreamManager \<Rightarrow> (QuicError + StreamId) \<times> StreamManager" where
  "open_uni sm =
     (if uni_opened sm \<ge> max_uni_streams sm
      then (Inl (Transport StreamLimitError (Msg ''unidirectional stream limit reached'')), sm)
      else
      let id' = next_uni_id sm in
      (Inr id', sm\<lparr>next_uni_id := next_uni_id sm + 4, uni_opened := uni_opened sm + 1,
        streams := AList.update id' (stream_new id' Unidirectional True
          (peer_uni_send_max sm) 0) (streams sm)\<rparr>))"

fun direction_name :: "StreamDirection \<Rightarrow> string" where
  "direction_name Bidirectional = ''Bidirectional''"
| "direction_name Unidirectional = ''Unidirectional''"

text \<open>The loop \<open>for index in already_opened..opened\<close>, with the index as a natural number.\<close>

definition open_remote :: "StreamDirection \<Rightarrow> StreamId \<Rightarrow> nat \<Rightarrow> StreamManager \<Rightarrow> StreamManager" where
  "open_remote direction base index sm =
     (let stream_id = base + word_of_nat index * 4;
          (initial_send_max, initial_recv_max) = initial_limits_for_stream sm stream_id False
      in sm\<lparr>streams := AList.update stream_id
              (stream_new stream_id direction False initial_send_max initial_recv_max) (streams sm)\<rparr>)"

definition accept_stream :: "StreamId \<Rightarrow> StreamManager \<Rightarrow> (QuicError + unit) \<times> StreamManager" where
  "accept_stream id' sm =
     (if map_of (streams sm) id' \<noteq> None then (Inr (), sm)
      else if is_local_initiated sm id'
      then (Inl (Transport StreamStateError (Fmt ''stream {id} is locally initiated'' [NumArg id'])), sm)
      else
      let direction = stream_direction id'; base = remote_stream_base sm direction in
      if id' mod 4 \<noteq> base mod 4
      then (Inl (Transport StreamStateError
              (Fmt ''stream {id} does not match remote {:?} stream numbering''
                [NumArg id', StrArg (direction_name direction)])), sm)
      else case checked_sub id' base of
        None \<Rightarrow> (Inl (Transport StreamStateError
              (Fmt ''stream {id} is below remote {:?} stream base {base}''
                [NumArg id', StrArg (direction_name direction), NumArg base])), sm)
      | Some ordinal \<Rightarrow>
          let opened = ordinal div 4 + 1;
              (limit, already_opened) = (case direction of
                 Bidirectional \<Rightarrow> (local_max_bidi_streams sm, remote_bidi_opened sm)
               | Unidirectional \<Rightarrow> (local_max_uni_streams sm, remote_uni_opened sm))
          in if opened > limit
             then (Inl (Transport StreamLimitError
                     (Fmt ''stream {id} exceeds remote {:?} stream limit {limit}''
                       [NumArg id', StrArg (direction_name direction), NumArg limit])), sm)
             else if opened \<le> already_opened then (Inr (), sm)
             else let sm = fold (open_remote direction base) [unat already_opened..<unat opened] sm
                  in (Inr (), case direction of
                        Bidirectional \<Rightarrow> sm\<lparr>remote_bidi_opened := opened\<rparr>
                      | Unidirectional \<Rightarrow> sm\<lparr>remote_uni_opened := opened\<rparr>))"

definition sm_get :: "StreamManager \<Rightarrow> StreamId \<Rightarrow> StreamState option" where
  "sm_get sm id' = map_of (streams sm) id'"

text \<open>Writing back through the reference \<open>get_mut\<close> returns.\<close>

definition sm_put :: "StreamId \<Rightarrow> StreamState \<Rightarrow> StreamManager \<Rightarrow> StreamManager" where
  "sm_put id' s sm = sm\<lparr>streams := AList.update id' s (streams sm)\<rparr>"

definition update_max_bidi_streams :: "u64 \<Rightarrow> StreamManager \<Rightarrow> StreamManager" where
  "update_max_bidi_streams max' sm =
     (if max' > max_bidi_streams sm then sm\<lparr>max_bidi_streams := max'\<rparr> else sm)"

definition update_max_uni_streams :: "u64 \<Rightarrow> StreamManager \<Rightarrow> StreamManager" where
  "update_max_uni_streams max' sm =
     (if max' > max_uni_streams sm then sm\<lparr>max_uni_streams := max'\<rparr> else sm)"

definition take_max_streams_updates :: "StreamManager \<Rightarrow> (u64 option \<times> u64 option) \<times> StreamManager" where
  "take_max_streams_updates sm =
     (let bidi = (if local_max_bidi_streams sm > advertised_local_max_bidi_streams sm
                  then Some (local_max_bidi_streams sm) else None);
          uni = (if local_max_uni_streams sm > advertised_local_max_uni_streams sm
                 then Some (local_max_uni_streams sm) else None);
          sm = (case bidi of Some m \<Rightarrow> sm\<lparr>advertised_local_max_bidi_streams := m\<rparr> | None \<Rightarrow> sm);
          sm = (case uni of Some m \<Rightarrow> sm\<lparr>advertised_local_max_uni_streams := m\<rparr> | None \<Rightarrow> sm)
      in ((bidi, uni), sm))"

definition local_max_streams :: "StreamManager \<Rightarrow> bool \<Rightarrow> u64" where
  "local_max_streams sm bidirectional =
     (if bidirectional then local_max_bidi_streams sm else local_max_uni_streams sm)"

definition stream_ids :: "StreamManager \<Rightarrow> StreamId list" where
  "stream_ids sm = map fst (streams sm)"

definition remote_initiator_bit :: "StreamManager \<Rightarrow> u64" where
  "remote_initiator_bit sm = (case sm_side sm of Client \<Rightarrow> 1 | Server \<Rightarrow> 0)"

definition find_incoming_bidi :: "StreamManager \<Rightarrow> StreamId option" where
  "find_incoming_bidi sm =
     map_option fst (List.find (\<lambda>(id', s). id' AND 0x01 = remote_initiator_bit sm \<and> id' AND 0x02 = 0 \<and>
       ss_recv_buf s \<noteq> []) (streams sm))"

definition incoming_uni_ids :: "StreamManager \<Rightarrow> StreamId list" where
  "incoming_uni_ids sm =
     sort (map fst (filter (\<lambda>(id', s). id' AND 0x01 = remote_initiator_bit sm \<and> id' AND 0x02 = 0x02 \<and>
       ss_recv_buf s \<noteq> []) (streams sm)))"

definition find_incoming_uni :: "StreamManager \<Rightarrow> StreamId option" where
  "find_incoming_uni sm = (case incoming_uni_ids sm of [] \<Rightarrow> None | id' # _ \<Rightarrow> Some id')"

definition active_count :: "StreamManager \<Rightarrow> nat" where
  "active_count sm = length (streams sm)"

definition stream_closed :: "StreamState \<Rightarrow> bool" where
  "stream_closed s \<longleftrightarrow>
     ss_send s \<in> {Some SsDataRecvd, Some SsResetRecvd, None} \<and>
     ss_recv s \<in> {Some RsDataRead, Some RsResetRead, None}"

text \<open>The closure given to \<open>retain\<close> counts the remote streams it drops; the counters are the lengths
  of the dropped parts.\<close>

definition retired_remote :: "StreamDirection \<Rightarrow> StreamManager \<Rightarrow> nat" where
  "retired_remote direction sm =
     length (filter (\<lambda>(id', s). stream_closed s \<and> \<not> initiated_by (sm_side sm) id' \<and>
       stream_direction id' = direction) (streams sm))"

definition gc_closed_streams :: "StreamManager \<Rightarrow> nat \<times> StreamManager" where
  "gc_closed_streams sm =
     (let before = length (streams sm);
          kept = filter (\<lambda>(id', s). \<not> stream_closed s) (streams sm)
      in (before - length kept,
          sm\<lparr>streams := kept,
             local_max_bidi_streams :=
               saturating_add (local_max_bidi_streams sm) (word_of_nat (retired_remote Bidirectional sm)),
             local_max_uni_streams :=
               saturating_add (local_max_uni_streams sm) (word_of_nat (retired_remote Unidirectional sm))\<rparr>))"

section \<open>Acknowledged ranges\<close>

definition rset :: "(u64 \<times> u64) list \<Rightarrow> nat set" where
  "rset rs = (\<Union>(s, e) \<in> set rs. {unat s..<unat e})"

definition wf_ranges :: "(u64 \<times> u64) list \<Rightarrow> bool" where
  "wf_ranges rs \<longleftrightarrow> sorted_wrt (\<lambda>r q. snd r < fst q) rs \<and> (\<forall>r \<in> set rs. fst r < snd r)"

lemma rset_simps [simp]:
  "rset [] = {}"
  "rset (r # rs) = {unat (fst r)..<unat (snd r)} \<union> rset rs"
  "rset (rs @ qs) = rset rs \<union> rset qs"
  by (auto simp: rset_def split: prod.splits)

lemma wf_ranges_Nil [simp]: "wf_ranges []"
  by (simp add: wf_ranges_def)

lemma wf_ranges_snoc:
  "wf_ranges (rs @ [r]) \<longleftrightarrow> wf_ranges rs \<and> fst r < snd r \<and> (\<forall>q \<in> set rs. snd q < fst r)"
  by (auto simp: wf_ranges_def sorted_wrt_append)

lemma merge_range_last:
  assumes "wf_ranges acc" "s < e" "acc \<noteq> [] \<Longrightarrow> fst (last acc) \<le> s"
  shows "wf_ranges (merge_range acc (s, e)) \<and> rset (merge_range acc (s, e)) = rset acc \<union> {unat s..<unat e}
     \<and> merge_range acc (s, e) \<noteq> [] \<and> fst (last (merge_range acc (s, e))) \<le> s"
proof (cases acc rule: rev_cases)
  case Nil
  then show ?thesis using assms by (simp add: merge_range_def wf_ranges_def)
next
  case (snoc ys l)
  obtain ls le where l: "l = (ls, le)" by (cases l)
  have ys: "wf_ranges ys" "ls < le" "\<And>q. q \<in> set ys \<Longrightarrow> snd q < ls" "ls \<le> s"
    using assms snoc l by (auto simp: wf_ranges_snoc)
  show ?thesis
  proof (cases "s \<le> le")
    case True
    have "{unat ls..<unat le} \<union> {unat s..<unat e} = {unat ls..<unat (max le e)}"
      using True ys(2,4) assms(2) by (auto simp: word_le_nat_alt word_less_nat_alt max_def)
    then show ?thesis
      using True ys snoc l by (auto simp: merge_range_def wf_ranges_snoc less_max_iff_disj)
  next
    case False
    then have "\<And>q. q \<in> set ys \<Longrightarrow> snd q < s" using ys by fastforce
    then show ?thesis
      using False ys snoc l assms(2) by (auto simp: merge_range_def wf_ranges_def sorted_wrt_append)
  qed
qed

lemma merge_ranges_fold:
  assumes "wf_ranges acc" "sorted (map fst rs)" "\<forall>r \<in> set rs. fst r < snd r"
    and "acc \<noteq> [] \<Longrightarrow> \<forall>r \<in> set rs. fst (last acc) \<le> fst r"
  shows "wf_ranges (foldl merge_range acc rs) \<and> rset (foldl merge_range acc rs) = rset acc \<union> rset rs"
  using assms
proof (induction rs arbitrary: acc)
  case (Cons r rs)
  note m = merge_range_last [of acc "fst r" "snd r"]
  have "\<forall>q \<in> set rs. fst (last (merge_range acc r)) \<le> fst q"
    using m Cons.prems by (fastforce intro: order_trans)
  then show ?case using Cons.IH [of "merge_range acc r"] m Cons.prems by auto
qed simp

lemma rset_set_cong: "set rs = set qs \<Longrightarrow> rset rs = rset qs"
  by (simp add: rset_def)

lemma acknowledge_ranges:
  assumes "wf_ranges (ss_acked_send_ranges s)" "unat offset + unat len < 2 ^ 64"
  shows "wf_ranges (ss_acked_send_ranges (acknowledge_sent_data offset len fin s)) \<and>
    rset (ss_acked_send_ranges (acknowledge_sent_data offset len fin s))
      = rset (ss_acked_send_ranges s) \<union> {unat offset..<unat offset + unat len}"
proof -
  have e: "unat (offset + len) = unat offset + unat len" using assms(2) by (simp add: unat_word_ariths)
  let ?rs = "ss_acked_send_ranges s @ [(offset, offset + len)]"
  show ?thesis
  proof (cases "offset < offset + len")
    case True
    have "\<forall>r \<in> set (sort_key fst ?rs). fst r < snd r"
      using True assms(1) by (auto simp: wf_ranges_def)
    then have "wf_ranges (foldl merge_range [] (sort_key fst ?rs)) \<and>
        rset (foldl merge_range [] (sort_key fst ?rs)) = rset ?rs"
      using merge_ranges_fold [of "[]" "sort_key fst ?rs"] rset_set_cong [of "sort_key fst ?rs" ?rs] by simp
    then show ?thesis using True e by (simp add: acknowledge_sent_data_def Let_def)
  next
    case False
    then have "unat len = 0" using e by (simp add: word_less_nat_alt)
    then show ?thesis using False assms(1) by (simp add: acknowledge_sent_data_def Let_def)
  qed
qed

lemma acknowledge_frame [simp]:
  "ss_fin_sent (acknowledge_sent_data offset len fin s) = ss_fin_sent s"
  "ss_send_offset (acknowledge_sent_data offset len fin s) = ss_send_offset s"
  "ss_fin_acked (acknowledge_sent_data offset len fin s) = (ss_fin_acked s \<or> fin)"
  by (simp_all add: acknowledge_sent_data_def Let_def)

lemma wf_ranges_Cons:
  "wf_ranges (r # rs) \<longleftrightarrow> fst r < snd r \<and> (\<forall>q \<in> set rs. snd r < fst q) \<and> wf_ranges rs"
  by (auto simp: wf_ranges_def)

lemma covers_from_iff:
  assumes "wf_ranges rs" "c < so"
  shows "covers_from so c rs \<longleftrightarrow> {unat c..<unat so} \<subseteq> rset rs"
  using assms
proof (induction rs arbitrary: c)
  case Nil
  then show ?case by (auto simp: word_less_nat_alt)
next
  case (Cons r rs)
  obtain s e where r: "r = (s, e)" by (cases r)
  have later: "x \<in> rset rs \<Longrightarrow> unat e < x" for x
    using Cons.prems(1) r by (fastforce simp: wf_ranges_Cons rset_def word_less_nat_alt)
  have se: "s < e" "wf_ranges rs" using Cons.prems(1) r by (auto simp: wf_ranges_Cons)
  show ?case
  proof (cases "s > c")
    case True
    then have "unat c \<notin> rset (r # rs)" using r later se(1) by (fastforce simp: word_less_nat_alt)
    then show ?thesis using True r Cons.prems(2) by (auto simp: word_less_nat_alt)
  next
    case False
    show ?thesis
    proof (cases "max c e \<ge> so")
      case True
      then show ?thesis
        using False r Cons.prems(2) by (auto simp: word_less_nat_alt word_le_nat_alt max_def split: if_splits)
    next
      case nomax: False
      then have ih: "covers_from so (max c e) rs \<longleftrightarrow> {unat (max c e)..<unat so} \<subseteq> rset rs"
        using Cons.IH [OF se(2), of "max c e"] by (simp only: not_le)
      have "{unat (max c e)..<unat so} \<subseteq> rset rs \<longleftrightarrow> {unat c..<unat so} \<subseteq> rset (r # rs)"
      proof -
        have sc: "unat s \<le> unat c" using False by (simp add: word_less_nat_alt)
        have "unat (max c e) = max (unat c) (unat e)" by (simp add: max_def word_le_nat_alt)
        moreover have "t < unat e \<or> t \<in> rset rs"
          if "unat c \<le> t" "t < unat so" "{max (unat c) (unat e)..<unat so} \<subseteq> rset rs" for t
          using that by (cases "t < unat e") auto
        ultimately show ?thesis using sc r by (auto simp: subset_iff)
      qed
      then show ?thesis using ih nomax False r by simp
    qed
  qed
qed

lemma all_sent_data_acked_iff:
  assumes "wf_ranges (ss_acked_send_ranges s)"
  shows "all_sent_data_acked s \<longleftrightarrow>
    ss_fin_sent s \<and> ss_fin_acked s \<and> {0..<unat (ss_send_offset s)} \<subseteq> rset (ss_acked_send_ranges s)"
  using covers_from_iff [OF assms, of 0 "ss_send_offset s"]
  by (auto simp: all_sent_data_acked_def word_gt_0)

text \<open>A sequence of acknowledged frames: offset, length and FIN of each.\<close>

abbreviation acknowledge_all :: "(u64 \<times> usize \<times> bool) list \<Rightarrow> StreamState \<Rightarrow> StreamState" where
  "acknowledge_all acks s \<equiv> fold (\<lambda>(offset, len, fin). acknowledge_sent_data offset len fin) acks s"

lemma acknowledge_all_ranges:
  assumes "wf_ranges (ss_acked_send_ranges s)" "\<forall>(offset, len, fin) \<in> set acks. unat offset + unat len < 2 ^ 64"
  shows "wf_ranges (ss_acked_send_ranges (acknowledge_all acks s)) \<and>
    rset (ss_acked_send_ranges (acknowledge_all acks s)) = rset (ss_acked_send_ranges s) \<union>
      (\<Union>(offset, len, fin) \<in> set acks. {unat offset..<unat offset + unat len}) \<and>
    ss_fin_sent (acknowledge_all acks s) = ss_fin_sent s \<and>
    ss_send_offset (acknowledge_all acks s) = ss_send_offset s \<and>
    ss_fin_acked (acknowledge_all acks s) = (ss_fin_acked s \<or> (\<exists>(offset, len, fin) \<in> set acks. fin))"
  using assms
proof (induction acks arbitrary: s)
  case (Cons a acks)
  obtain offset len fin where a: "a = (offset, len, fin)" by (cases a)
  have b: "unat offset + unat len < 2 ^ 64" using Cons.prems a by simp
  show ?case
    using Cons.IH [of "acknowledge_sent_data offset len fin s"] Cons.prems a
      acknowledge_ranges [OF Cons.prems(1) b, of fin] by auto
qed simp

text \<open>C13: after any sequence of acknowledgements, in any order and with any overlap, a stream counts as
  fully acknowledged exactly when its FIN was sent and acknowledged and every byte sent lies in some
  acknowledged frame.\<close>

theorem all_sent_data_acked_exact:
  assumes "ss_acked_send_ranges s = []" "\<not> ss_fin_acked s"
    and "\<forall>(offset, len, fin) \<in> set acks. unat offset + unat len < 2 ^ 64"
  shows "all_sent_data_acked (acknowledge_all acks s) \<longleftrightarrow>
    ss_fin_sent s \<and> (\<exists>(offset, len, fin) \<in> set acks. fin) \<and>
    {0..<unat (ss_send_offset s)} \<subseteq> (\<Union>(offset, len, fin) \<in> set acks. {unat offset..<unat offset + unat len})"
proof -
  have "wf_ranges (ss_acked_send_ranges s)" using assms(1) by simp
  note r = acknowledge_all_ranges [OF this assms(3)]
  show ?thesis using all_sent_data_acked_iff [of "acknowledge_all acks s"] r assms by simp
qed

theorem all_sent_data_acked_exact_witness:
  "let s = (stream_new 0 Bidirectional True 100 100)\<lparr>ss_fin_sent := True, ss_send_offset := 30\<rparr>;
       acks = [(20, 10, True), (0, 15, False), (10, 10, False)]
   in ss_acked_send_ranges s = [] \<and> \<not> ss_fin_acked s \<and> all_sent_data_acked (acknowledge_all acks s)"
proof -
  let ?s = "(stream_new 0 Bidirectional True 100 100)\<lparr>ss_fin_sent := True, ss_send_offset := 30\<rparr>"
  have s: "ss_acked_send_ranges ?s = []" "\<not> ss_fin_acked ?s" "ss_fin_sent ?s" "ss_send_offset ?s = 30"
    by (simp_all add: stream_new_def)
  show ?thesis
    using s all_sent_data_acked_exact [of ?s "[(20, 10, True), (0, 15, False), (10, 10, False)]"]
    by (auto simp: Let_def)
qed

section \<open>Stream identifiers\<close>

lemma low_bits_add4: "((x :: u64) + k * 4) AND 3 = x AND 3"
proof -
  have "(unat x + unat k * 4 mod 2 ^ 64) mod 2 ^ 64 mod 4 = unat x mod 4"
    by (simp add: mod_mod_cancel mod_simps)
  then show ?thesis
    using unat_and_mask [of "x + k * 4" 2] unat_and_mask [of x 2]
    by (intro word_unat_eq_iff [THEN iffD2]) (simp add: mask_eq_exp_minus_1 unat_word_ariths)
qed

lemma id_bits:
  "stream_initiator x = stream_initiator (x AND 3)" "stream_direction x = stream_direction (x AND 3)"
  "initiated_by side x = initiated_by side (x AND 3)"
  by (simp_all add: stream_initiator_def stream_direction_def initiated_by_def and.assoc)

lemma id_add4 [simp]:
  "stream_direction (x + k * 4) = stream_direction x" "initiated_by side (x + k * 4) = initiated_by side x"
  "stream_direction (x + 4) = stream_direction x" "initiated_by side (x + 4) = initiated_by side x"
  using low_bits_add4 [of x k] low_bits_add4 [of x 1] by (metis id_bits mult_1)+

lemma remote_base_bits:
  "stream_direction (remote_stream_base sm d) = d" "\<not> initiated_by (sm_side sm) (remote_stream_base sm d)"
  by (cases "sm_side sm"; cases d;
      simp add: remote_stream_base_def stream_direction_def initiated_by_def stream_initiator_def)+

section \<open>The manager as a transition system\<close>

text \<open>One call of a method; the last rule is a change made to a stream through \<open>get_mut\<close>.\<close>

inductive sm_step :: "StreamManager \<Rightarrow> StreamManager \<Rightarrow> bool" where
  step_open_bidi: "sm_step sm (snd (open_bidi sm))"
| step_open_uni: "sm_step sm (snd (open_uni sm))"
| step_accept: "sm_step sm (snd (accept_stream id' sm))"
| step_max_bidi: "sm_step sm (update_max_bidi_streams m sm)"
| step_max_uni: "sm_step sm (update_max_uni_streams m sm)"
| step_peer_limits: "sm_step sm (apply_peer_initial_limits bl br u mb mu sm)"
| step_take: "sm_step sm (snd (take_max_streams_updates sm))"
| step_gc: "sm_step sm (snd (gc_closed_streams sm))"
| step_stream: "sm_get sm id' = Some s \<Longrightarrow> sm_step sm (sm_put id' s' sm)"

definition live_remote :: "StreamDirection \<Rightarrow> StreamManager \<Rightarrow> nat" where
  "live_remote d sm =
     length (filter (\<lambda>id'. \<not> initiated_by (sm_side sm) id' \<and> stream_direction id' = d) (map fst (streams sm)))"

definition peer_limit :: "StreamDirection \<Rightarrow> StreamManager \<Rightarrow> nat" where
  "peer_limit d sm = (case d of Bidirectional \<Rightarrow> unat (local_max_bidi_streams sm)
                              | Unidirectional \<Rightarrow> unat (local_max_uni_streams sm))"

definition peer_opened :: "StreamDirection \<Rightarrow> StreamManager \<Rightarrow> nat" where
  "peer_opened d sm = (case d of Bidirectional \<Rightarrow> unat (remote_bidi_opened sm)
                               | Unidirectional \<Rightarrow> unat (remote_uni_opened sm))"

text \<open>The peer's remaining credit and its live streams together stay within the configured number.\<close>

definition credit_inv :: "StreamDirection \<Rightarrow> nat \<Rightarrow> StreamManager \<Rightarrow> bool" where
  "credit_inv d n sm \<longleftrightarrow>
     peer_opened d sm \<le> peer_limit d sm \<and> live_remote d sm + (peer_limit d sm - peer_opened d sm) \<le> n"

definition ids_inv :: "StreamManager \<Rightarrow> bool" where
  "ids_inv sm \<longleftrightarrow>
     distinct (map fst (streams sm)) \<and>
     initiated_by (sm_side sm) (next_bidi_id sm) \<and> stream_direction (next_bidi_id sm) = Bidirectional \<and>
     initiated_by (sm_side sm) (next_uni_id sm) \<and> stream_direction (next_uni_id sm) = Unidirectional"

lemma length_filter_update:
  "length (filter P (map fst (AList.update k v m))) \<le> length (filter P (map fst m)) + (if P k then 1 else 0)"
  by (auto simp: update_keys)

lemma open_remote_frame [simp]:
  "sm_side (open_remote d b i sm) = sm_side sm"
  "next_bidi_id (open_remote d b i sm) = next_bidi_id sm" "next_uni_id (open_remote d b i sm) = next_uni_id sm"
  "peer_limit x (open_remote d b i sm) = peer_limit x sm" "peer_opened x (open_remote d b i sm) = peer_opened x sm"
  by (cases x; simp add: open_remote_def Let_def split_beta peer_limit_def peer_opened_def)+

lemma open_remote_keys:
  "map fst (streams (open_remote d b i sm)) = map fst (AList.update (b + word_of_nat i * 4) undefined (streams sm))"
  by (simp add: open_remote_def Let_def split_beta update_keys)

lemma open_remote_live:
  assumes "stream_direction base = d" "\<not> initiated_by (sm_side sm) base"
  shows "live_remote x (open_remote d base i sm) \<le> live_remote x sm + (if x = d then 1 else 0)"
  using length_filter_update [of "\<lambda>id'. \<not> initiated_by (sm_side sm) id' \<and> stream_direction id' = x"
      "base + word_of_nat i * 4" undefined "streams sm"] assms
  unfolding live_remote_def open_remote_keys by (auto split: if_splits)

lemma open_remotes:
  assumes "stream_direction base = d" "\<not> initiated_by (sm_side sm) base"
  shows "live_remote x (fold (open_remote d base) is sm) \<le> live_remote x sm + (if x = d then length is else 0)
     \<and> sm_side (fold (open_remote d base) is sm) = sm_side sm
     \<and> next_bidi_id (fold (open_remote d base) is sm) = next_bidi_id sm
     \<and> next_uni_id (fold (open_remote d base) is sm) = next_uni_id sm
     \<and> (\<forall>y. peer_limit y (fold (open_remote d base) is sm) = peer_limit y sm)
     \<and> (\<forall>y. peer_opened y (fold (open_remote d base) is sm) = peer_opened y sm)
     \<and> (distinct (map fst (streams sm)) \<longrightarrow> distinct (map fst (streams (fold (open_remote d base) is sm))))"
  using assms
proof (induction "is" arbitrary: sm)
  case (Cons i "is")
  show ?case
    using Cons.IH [of "open_remote d base i sm"] Cons.prems open_remote_live [OF Cons.prems, of x i]
    by (auto simp: open_remote_keys distinct_update)
qed simp

lemma live_remote_frame:
  "map fst (streams sm') = map fst (streams sm) \<Longrightarrow> sm_side sm' = sm_side sm \<Longrightarrow> live_remote d sm' = live_remote d sm"
  by (simp add: live_remote_def)

definition set_opened :: "StreamDirection \<Rightarrow> u64 \<Rightarrow> StreamManager \<Rightarrow> StreamManager" where
  "set_opened d opened sm = (case d of Bidirectional \<Rightarrow> sm\<lparr>remote_bidi_opened := opened\<rparr>
                                     | Unidirectional \<Rightarrow> sm\<lparr>remote_uni_opened := opened\<rparr>)"

lemma accept_stream_cases:
  "snd (accept_stream id' sm) = sm \<or>
   (\<exists>opened. unat opened \<le> peer_limit (stream_direction id') sm \<and> peer_opened (stream_direction id') sm < unat opened \<and>
     accept_stream id' sm = (Inr (), set_opened (stream_direction id') opened
       (fold (open_remote (stream_direction id') (remote_stream_base sm (stream_direction id')))
          [peer_opened (stream_direction id') sm..<unat opened] sm)))"
proof (cases "checked_sub id' (remote_stream_base sm (stream_direction id'))")
  case None
  then show ?thesis by (simp add: accept_stream_def Let_def split_beta)
next
  case (Some ordinal)
  have "snd (accept_stream id' sm) = sm \<or> (unat (ordinal div 4 + 1) \<le> peer_limit (stream_direction id') sm \<and>
      peer_opened (stream_direction id') sm < unat (ordinal div 4 + 1) \<and>
     accept_stream id' sm = (Inr (), set_opened (stream_direction id') (ordinal div 4 + 1)
       (fold (open_remote (stream_direction id') (remote_stream_base sm (stream_direction id')))
          [peer_opened (stream_direction id') sm..<unat (ordinal div 4 + 1)] sm)))"
    using Some unfolding accept_stream_def Let_def peer_limit_def peer_opened_def set_opened_def
    by (cases "stream_direction id'") (simp_all add: word_le_nat_alt word_less_nat_alt del: checked_sub_eq_Some)
  then show ?thesis by blast
qed

lemma set_opened_simps [simp]:
  "streams (set_opened d n sm) = streams sm" "sm_side (set_opened d n sm) = sm_side sm"
  "next_bidi_id (set_opened d n sm) = next_bidi_id sm" "next_uni_id (set_opened d n sm) = next_uni_id sm"
  "peer_limit x (set_opened d n sm) = peer_limit x sm"
  "peer_opened x (set_opened d n sm) = (if x = d then unat n else peer_opened x sm)"
  by (cases d; cases x; simp add: set_opened_def peer_limit_def peer_opened_def)+

lemma accept_ids_inv:
  assumes "ids_inv sm" shows "ids_inv (snd (accept_stream id' sm)) \<and> sm_side (snd (accept_stream id' sm)) = sm_side sm"
  using accept_stream_cases [of id' sm] assms
    open_remotes [OF remote_base_bits [of sm "stream_direction id'"]]
  by (auto simp: ids_inv_def)

lemma peer_limits_frame:
  "map fst (streams (apply_peer_initial_limits bl br u mb mu sm)) = map fst (streams sm)"
  "sm_side (apply_peer_initial_limits bl br u mb mu sm) = sm_side sm"
  "next_bidi_id (apply_peer_initial_limits bl br u mb mu sm) = next_bidi_id sm"
  "next_uni_id (apply_peer_initial_limits bl br u mb mu sm) = next_uni_id sm"
  "peer_limit d (apply_peer_initial_limits bl br u mb mu sm) = peer_limit d sm"
  "peer_opened d (apply_peer_initial_limits bl br u mb mu sm) = peer_opened d sm"
  by (cases d; simp add: apply_peer_initial_limits_def Let_def comp_def case_prod_unfold peer_limit_def peer_opened_def)+

lemma take_updates_frame:
  "streams (snd (take_max_streams_updates sm)) = streams sm"
  "sm_side (snd (take_max_streams_updates sm)) = sm_side sm"
  "next_bidi_id (snd (take_max_streams_updates sm)) = next_bidi_id sm"
  "next_uni_id (snd (take_max_streams_updates sm)) = next_uni_id sm"
  "peer_limit d (snd (take_max_streams_updates sm)) = peer_limit d sm"
  "peer_opened d (snd (take_max_streams_updates sm)) = peer_opened d sm"
  by (cases d; simp add: take_max_streams_updates_def Let_def peer_limit_def peer_opened_def)+

lemma max_streams_frame:
  "streams (update_max_bidi_streams m sm) = streams sm" "streams (update_max_uni_streams m sm) = streams sm"
  "sm_side (update_max_bidi_streams m sm) = sm_side sm" "sm_side (update_max_uni_streams m sm) = sm_side sm"
  "next_bidi_id (update_max_bidi_streams m sm) = next_bidi_id sm" "next_bidi_id (update_max_uni_streams m sm) = next_bidi_id sm"
  "next_uni_id (update_max_bidi_streams m sm) = next_uni_id sm" "next_uni_id (update_max_uni_streams m sm) = next_uni_id sm"
  "peer_limit d (update_max_bidi_streams m sm) = peer_limit d sm" "peer_limit d (update_max_uni_streams m sm) = peer_limit d sm"
  "peer_opened d (update_max_bidi_streams m sm) = peer_opened d sm" "peer_opened d (update_max_uni_streams m sm) = peer_opened d sm"
  by (cases d; simp add: update_max_bidi_streams_def update_max_uni_streams_def peer_limit_def peer_opened_def)+

lemmas sm_frames = peer_limits_frame take_updates_frame max_streams_frame

lemma step_ids_inv:
  assumes "sm_step sm sm'" "ids_inv sm"
  shows "ids_inv sm' \<and> sm_side sm' = sm_side sm"
  using assms
proof (induction rule: sm_step.induct)
  case (step_accept sm id')
  then show ?case by (rule accept_ids_inv)
next
  case (step_gc sm)
  then show ?case by (auto simp: ids_inv_def gc_closed_streams_def Let_def distinct_map_filter)
next
  case (step_open_bidi sm)
  then show ?case by (auto simp: open_bidi_def ids_inv_def Let_def distinct_update)
next
  case (step_open_uni sm)
  then show ?case by (auto simp: open_uni_def ids_inv_def Let_def distinct_update)
next
  case (step_stream sm id' s s')
  then show ?case by (auto simp: sm_put_def ids_inv_def distinct_update)
qed (simp_all add: sm_frames ids_inv_def)

lemma credit_inv_frame:
  assumes "credit_inv d n sm" "live_remote d sm' \<le> live_remote d sm"
    and "peer_limit d sm' = peer_limit d sm" "peer_opened d sm' = peer_opened d sm"
  shows "credit_inv d n sm'"
  using assms unfolding credit_inv_def by linarith

lemma gc_live_remote: "live_remote d (snd (gc_closed_streams sm)) + retired_remote d sm = live_remote d sm"
proof -
  let ?P = "\<lambda>x :: StreamId \<times> StreamState. \<not> initiated_by (sm_side sm) (fst x) \<and> stream_direction (fst x) = d"
  let ?xs = "filter ?P (streams sm)"
  have "live_remote d (snd (gc_closed_streams sm)) = length (filter (\<lambda>x. \<not> stream_closed (snd x)) ?xs)"
    by (simp add: live_remote_def gc_closed_streams_def Let_def filter_map comp_def case_prod_unfold conj_ac)
  moreover have "retired_remote d sm = length (filter (\<lambda>x. \<not> \<not> stream_closed (snd x)) ?xs)"
    by (simp add: retired_remote_def case_prod_unfold conj_ac)
  moreover have "live_remote d sm = length ?xs" by (simp add: live_remote_def filter_map comp_def)
  ultimately show ?thesis by (simp only: sum_length_filter_compl)
qed

lemma live_remote_update:
  assumes "initiated_by (sm_side sm) k \<or> k \<in> set (map fst (streams sm))"
  shows "length (filter (\<lambda>id'. \<not> initiated_by (sm_side sm) id' \<and> stream_direction id' = d)
            (map fst (AList.update k v (streams sm)))) = live_remote d sm"
  using assms by (auto simp: live_remote_def update_keys filter_map)

lemma open_frame:
  "ids_inv sm \<Longrightarrow> live_remote d (snd (open_bidi sm)) = live_remote d sm"
  "ids_inv sm \<Longrightarrow> live_remote d (snd (open_uni sm)) = live_remote d sm"
  "peer_limit d (snd (open_bidi sm)) = peer_limit d sm" "peer_opened d (snd (open_bidi sm)) = peer_opened d sm"
  "peer_limit d (snd (open_uni sm)) = peer_limit d sm" "peer_opened d (snd (open_uni sm)) = peer_opened d sm"
  using live_remote_update [of sm "next_bidi_id sm" d] live_remote_update [of sm "next_uni_id sm" d]
  by (cases d; simp add: open_bidi_def open_uni_def Let_def ids_inv_def peer_limit_def peer_opened_def live_remote_def)+

lemma put_frame:
  "sm_get sm k = Some s \<Longrightarrow> live_remote d (sm_put k s' sm) = live_remote d sm"
  "peer_limit d (sm_put k s' sm) = peer_limit d sm" "peer_opened d (sm_put k s' sm) = peer_opened d sm"
  using live_remote_update [of sm k d s'] map_of_SomeD [of "streams sm" k s]
  by (cases d; force simp: sm_put_def sm_get_def peer_limit_def peer_opened_def live_remote_def)+

lemma accept_credit_inv:
  assumes "credit_inv d n sm"
  shows "credit_inv d n (snd (accept_stream id' sm))"
proof -
  consider "snd (accept_stream id' sm) = sm"
    | opened where "unat opened \<le> peer_limit (stream_direction id') sm" "peer_opened (stream_direction id') sm < unat opened"
      "accept_stream id' sm = (Inr (), set_opened (stream_direction id') opened
       (fold (open_remote (stream_direction id') (remote_stream_base sm (stream_direction id')))
          [peer_opened (stream_direction id') sm..<unat opened] sm))"
    using accept_stream_cases by blast
  then show ?thesis
  proof cases
    case 1
    then show ?thesis using assms by simp
  next
    case 2
    let ?f = "fold (open_remote (stream_direction id') (remote_stream_base sm (stream_direction id')))
          [peer_opened (stream_direction id') sm..<unat opened] sm"
    have "live_remote d (set_opened (stream_direction id') opened ?f) = live_remote d ?f"
      by (simp add: live_remote_def)
    then show ?thesis
      using 2 assms open_remotes [OF remote_base_bits [of sm "stream_direction id'"], of d
          "[peer_opened (stream_direction id') sm..<unat opened]"]
      by (cases "d = stream_direction id'") (auto simp: credit_inv_def)
  qed
qed

lemma gc_credit_inv:
  assumes "credit_inv d n sm"
  shows "credit_inv d n (snd (gc_closed_streams sm))"
proof -
  have w: "unat (word_of_nat k :: u64) \<le> k" for k
    by (simp add: unsigned_of_nat take_bit_nat_less_eq_self)
  have "peer_opened d (snd (gc_closed_streams sm)) = peer_opened d sm"
    by (cases d) (simp_all add: gc_closed_streams_def Let_def peer_opened_def)
  moreover have "peer_limit d sm \<le> peer_limit d (snd (gc_closed_streams sm))"
    "peer_limit d (snd (gc_closed_streams sm)) \<le> peer_limit d sm + retired_remote d sm"
    using w [of "retired_remote d sm"] saturating_add_ge
    by (cases d; auto simp: gc_closed_streams_def Let_def peer_limit_def unat_saturating_add word_le_nat_alt
        intro: min.coboundedI1)+
  ultimately show ?thesis using assms gc_live_remote [of d sm] by (auto simp: credit_inv_def)
qed

lemma step_credit_inv:
  assumes "sm_step sm sm'" "credit_inv d n sm" "ids_inv sm"
  shows "credit_inv d n sm'"
  using assms
proof (induction rule: sm_step.induct)
  case (step_accept sm id')
  then show ?case by (simp add: accept_credit_inv)
next
  case (step_gc sm)
  then show ?case by (simp add: gc_credit_inv)
next
  case (step_open_bidi sm)
  then show ?case by - (rule credit_inv_frame [of d n sm], simp_all add: open_frame)
next
  case (step_open_uni sm)
  then show ?case by - (rule credit_inv_frame [of d n sm], simp_all add: open_frame)
next
  case (step_stream sm id' s s')
  then show ?case by - (rule credit_inv_frame [of d n sm], simp_all add: put_frame)
next
  case (step_max_bidi sm m)
  then show ?case by - (rule credit_inv_frame [of d n sm], simp_all add: sm_frames live_remote_def)
next
  case (step_max_uni sm m)
  then show ?case by - (rule credit_inv_frame [of d n sm], simp_all add: sm_frames live_remote_def)
next
  case (step_peer_limits sm bl br u mb mu)
  have "live_remote d (apply_peer_initial_limits bl br u mb mu sm) = live_remote d sm"
    by (intro live_remote_frame) (simp_all only: sm_frames)
  then show ?case using step_peer_limits by - (rule credit_inv_frame [of d n sm], simp_all add: sm_frames)
next
  case (step_take sm)
  then show ?case by - (rule credit_inv_frame [of d n sm], simp_all add: sm_frames live_remote_def)
qed

lemma reachable_inv:
  assumes "sm_step\<^sup>*\<^sup>* (sm_new side mb mu flow) sm"
  shows "ids_inv sm \<and> credit_inv Bidirectional (unat mb) sm \<and> credit_inv Unidirectional (unat mu) sm"
  using assms
proof (induction rule: rtranclp_induct)
  case base
  then show ?case
    by (cases side) (simp_all add: sm_new_def ids_inv_def credit_inv_def live_remote_def peer_limit_def
        peer_opened_def initiated_by_def stream_initiator_def stream_direction_def)
next
  case (step sm sm')
  then show ?case using step_ids_inv step_credit_inv by blast
qed

text \<open>C11: whatever the sequence of calls on the manager and however streams close, the number of live
  streams the peer has opened never exceeds the limit configured for that direction.\<close>

theorem live_remote_streams_bounded:
  assumes "sm_step\<^sup>*\<^sup>* (sm_new side max_bidi max_uni flow) sm"
  shows "live_remote Bidirectional sm \<le> unat max_bidi \<and> live_remote Unidirectional sm \<le> unat max_uni"
  using reachable_inv [OF assms] by (auto simp: credit_inv_def)

theorem live_remote_streams_bounded_witness:
  "let sm = snd (accept_stream 4 (sm_new Server 2 1 100)) in
   sm_step\<^sup>*\<^sup>* (sm_new Server 2 1 100) sm \<and> live_remote Bidirectional sm = 2 \<and> live_remote Bidirectional sm \<le> 2"
proof -
  let ?sm = "snd (accept_stream 4 (sm_new Server 2 1 100))"
  have r: "sm_step\<^sup>*\<^sup>* (sm_new Server 2 1 100) ?sm" by (intro r_into_rtranclp step_accept)
  have "[0..<2] = [0, 1 :: nat]" by (simp add: upt_rec)
  then have "live_remote Bidirectional ?sm = 2"
    by (simp add: live_remote_def accept_stream_def sm_new_def is_local_initiated_def initiated_by_def
        stream_initiator_def stream_direction_def remote_stream_base_def checked_sub_def open_remote_def
        initial_limits_for_stream_def Let_def)
  then show ?thesis using r live_remote_streams_bounded [OF r] by (simp add: Let_def)
qed

section \<open>Accepting a stream\<close>

definition remote_id :: "StreamManager \<Rightarrow> StreamDirection \<Rightarrow> StreamId \<Rightarrow> bool" where
  "remote_id sm d k \<longleftrightarrow> \<not> initiated_by (sm_side sm) k \<and> stream_direction k = d"

definition fresh_remote :: "StreamManager \<Rightarrow> StreamDirection \<Rightarrow> StreamId \<Rightarrow> StreamState" where
  "fresh_remote sm d k = stream_new k d False (fst (initial_limits_for_stream sm k False))
     (snd (initial_limits_for_stream sm k False))"

lemma low_bits_cases:
  fixes x :: u64
  obtains "x AND 3 = 0" | "x AND 3 = 1" | "x AND 3 = 2" | "x AND 3 = 3"
proof -
  have "unat (x AND 3) = unat x mod 4" using unat_and_mask [of x 2] by (simp add: mask_eq_exp_minus_1)
  then have "unat (x AND 3) < 4" by simp
  then have "unat (x AND 3) = 0 \<or> unat (x AND 3) = 1 \<or> unat (x AND 3) = 2 \<or> unat (x AND 3) = 3" by linarith
  then show thesis using that by (auto simp: word_unat_eq_iff)
qed

lemma remote_id_low_bits: "remote_id sm d k \<longleftrightarrow> k AND 3 = remote_stream_base sm d"
proof -
  have k: "initiated_by side k = initiated_by side (k AND 3)" "stream_direction k = stream_direction (k AND 3)" for side
    by (rule id_bits)+
  show ?thesis unfolding remote_id_def k
    by (cases k rule: low_bits_cases; cases "sm_side sm"; cases d;
        simp add: remote_stream_base_def initiated_by_def stream_initiator_def stream_direction_def)
qed

lemma remote_id_unat: "remote_id sm d k \<longleftrightarrow> unat k mod 4 = unat (remote_stream_base sm d)"
  unfolding remote_id_low_bits using unat_and_mask [of k 2]
  by (simp add: word_unat_eq_iff mask_eq_exp_minus_1)

lemma base_less: "unat (remote_stream_base sm d) < 4"
  by (cases "sm_side sm"; cases d; simp add: remote_stream_base_def)

lemma remote_index:
  assumes "n \<le> 2 ^ 62"
  shows "(\<exists>i \<in> {a..<n}. k = remote_stream_base sm d + word_of_nat i * 4)
    \<longleftrightarrow> remote_id sm d k \<and> a \<le> unat k div 4 \<and> unat k div 4 < n"
proof
  assume "\<exists>i \<in> {a..<n}. k = remote_stream_base sm d + word_of_nat i * 4"
  then obtain i where i: "a \<le> i" "i < n" "k = remote_stream_base sm d + word_of_nat i * 4" by auto
  have "unat (word_of_nat i :: u64) = i" using i assms by (simp add: unsigned_of_nat take_bit_nat_eq_self)
  then have u: "unat k = unat (remote_stream_base sm d) + i * 4"
    using i assms base_less [of sm d] by (simp add: unat_word_ariths)
  then have "unat k mod 4 = unat (remote_stream_base sm d)" "unat k div 4 = i"
    using base_less [of sm d] by simp_all
  then show "remote_id sm d k \<and> a \<le> unat k div 4 \<and> unat k div 4 < n" using i remote_id_unat by simp
next
  assume r: "remote_id sm d k \<and> a \<le> unat k div 4 \<and> unat k div 4 < n"
  have u: "unat (word_of_nat (unat k div 4) :: u64) = unat k div 4"
    using unat_u64_less [of k] by (simp add: unsigned_of_nat take_bit_nat_eq_self)
  have "unat k = unat (remote_stream_base sm d) + unat k div 4 * 4"
    using r remote_id_unat [of sm d k] by (metis mod_div_decomp add.commute)
  then have "k = remote_stream_base sm d + word_of_nat (unat k div 4) * 4"
    using u unat_u64_less [of k] by (simp add: word_unat_eq_iff unat_word_ariths)
  then show "\<exists>i \<in> {a..<n}. k = remote_stream_base sm d + word_of_nat i * 4" using r by auto
qed

lemma limits_frame [simp]:
  "initial_limits_for_stream (open_remote d b i sm) k l = initial_limits_for_stream sm k l"
  by (cases "stream_direction k"; cases l; simp add: open_remote_def Let_def split_beta initial_limits_for_stream_def)

lemma get_open_remotes:
  "sm_get (fold (open_remote d base) is sm) k =
     (if \<exists>i \<in> set is. k = base + word_of_nat i * 4 then Some (fresh_remote sm d k) else sm_get sm k)"
proof (induction "is" arbitrary: sm)
  case (Cons i "is")
  have "sm_get (open_remote d base i sm) k =
      (if k = base + word_of_nat i * 4 then Some (fresh_remote sm d k) else sm_get sm k)"
    by (simp add: open_remote_def Let_def split_beta sm_get_def fresh_remote_def update_conv')
  moreover have "fresh_remote (open_remote d base i sm) d k = fresh_remote sm d k"
    by (simp add: fresh_remote_def)
  ultimately show ?case using Cons [of "open_remote d base i sm"] by auto
qed simp

lemma get_set_opened [simp]: "sm_get (set_opened d n sm) k = sm_get sm k"
  by (simp add: sm_get_def)

lemma accept_stream_eq:
  assumes "sm_get sm id' = None" "\<not> is_local_initiated sm id'"
    and "id' mod 4 = remote_stream_base sm (stream_direction id') mod 4" "remote_stream_base sm (stream_direction id') \<le> id'"
  shows "accept_stream id' sm =
    (let d = stream_direction id'; opened = (id' - remote_stream_base sm d) div 4 + 1 in
     if unat opened > peer_limit d sm
     then (Inl (Transport StreamLimitError (Fmt ''stream {id} exceeds remote {:?} stream limit {limit}''
            [NumArg id', StrArg (direction_name d), NumArg (word_of_nat (peer_limit d sm))])), sm)
     else if unat opened \<le> peer_opened d sm then (Inr (), sm)
     else (Inr (), set_opened d opened
            (fold (open_remote d (remote_stream_base sm d)) [peer_opened d sm..<unat opened] sm)))"
  using assms
  by (cases "stream_direction id'")
     (simp_all add: accept_stream_def sm_get_def checked_sub_def Let_def peer_limit_def peer_opened_def set_opened_def
       word_less_nat_alt word_le_nat_alt)

lemma accept_new:
  assumes "sm_get sm id' = None" "accept_stream id' sm = (Inr (), sm')"
  defines "d \<equiv> stream_direction id'" and "n \<equiv> unat id' div 4 + 1"
  shows "remote_id sm d id' \<and> n \<le> peer_limit d sm \<and>
    (if n \<le> peer_opened d sm then sm' = sm
     else sm' = set_opened d (word_of_nat n)
       (fold (open_remote d (remote_stream_base sm d)) [peer_opened d sm..<n] sm))"
proof -
  let ?b = "remote_stream_base sm d"
  have rem: "remote_id sm d id'"
    using assms by (auto simp: accept_stream_def sm_get_def is_local_initiated_def remote_id_def split: if_splits)
  then have m: "unat id' mod 4 = unat ?b" by (simp add: remote_id_unat)
  then have le: "?b \<le> id'" by (metis mod_less_eq_dividend word_le_nat_alt)
  have "unat (id' - ?b) div 4 = unat id' div 4"
  proof -
    have "unat id' = unat ?b + unat id' div 4 * 4" using m by (metis mod_div_decomp add.commute)
    then have "unat id' - unat ?b = unat id' div 4 * 4" by linarith
    then show ?thesis using le by (simp add: unat_sub)
  qed
  then have o: "unat ((id' - ?b) div 4 + 1) = n"
    using unat_u64_less [of id'] by (simp add: n_def unat_word_ariths unat_div)
  then have w: "(id' - ?b) div 4 + 1 = word_of_nat n" unfolding o [symmetric] by simp
  have loc: "\<not> is_local_initiated sm id'" using rem by (simp add: remote_id_def is_local_initiated_def)
  have mod4: "id' mod 4 = ?b mod 4"
    using m base_less [of sm d] by (simp add: word_unat_eq_iff unat_mod)
  have "accept_stream id' sm = (if n > peer_limit d sm then (Inl (Transport StreamLimitError
                     (Fmt ''stream {id} exceeds remote {:?} stream limit {limit}''
                       [NumArg id', StrArg (direction_name d), NumArg (word_of_nat (peer_limit d sm))])), sm)
     else if n \<le> peer_opened d sm then (Inr (), sm)
     else (Inr (), set_opened d (word_of_nat n) (fold (open_remote d ?b) [peer_opened d sm..<n] sm)))"
    using accept_stream_eq [OF assms(1) loc] mod4 le o
    unfolding d_def [symmetric] Let_def by (simp add: w)
  then show ?thesis using assms(2) rem by (auto split: if_splits)
qed

lemma accept_opens:
  assumes "sm_get sm id' = None" "accept_stream id' sm = (Inr (), sm')"
  defines "d \<equiv> stream_direction id'" and "n \<equiv> unat id' div 4 + 1"
  shows "remote_id sm d id' \<and> n \<le> peer_limit d sm \<and>
    (if n \<le> peer_opened d sm then sm' = sm
     else peer_opened d sm' = n \<and>
       (\<forall>k. sm_get sm' k =
          (if remote_id sm d k \<and> peer_opened d sm \<le> unat k div 4 \<and> unat k div 4 < n
           then Some (fresh_remote sm d k) else sm_get sm k)))"
proof -
  have n: "n \<le> 2 ^ 62" using unat_u64_less [of id'] by (simp add: n_def)
  have "unat (word_of_nat n :: u64) = n" using n by (simp add: unsigned_of_nat take_bit_nat_eq_self)
  then show ?thesis
    using accept_new [OF assms(1,2)] remote_index [OF n, of "peer_opened d sm" _ sm d]
    unfolding d_def [symmetric] n_def [symmetric]
    by (auto simp: get_open_remotes set_upt)
qed

text \<open>Every peer-initiated stream in the table was counted as opened.\<close>

definition keys_opened :: "StreamManager \<Rightarrow> bool" where
  "keys_opened sm \<longleftrightarrow> (\<forall>k d. sm_get sm k \<noteq> None \<and> remote_id sm d k \<longrightarrow> unat k div 4 < peer_opened d sm)"

lemma accept_side [simp]: "sm_side (snd (accept_stream id' sm)) = sm_side sm"
  using accept_stream_cases [of id' sm] open_remotes [OF remote_base_bits [of sm "stream_direction id'"]] by auto

lemma remote_id_side: "sm_side sm' = sm_side sm \<Longrightarrow> remote_id sm' d k = remote_id sm d k"
  by (simp add: remote_id_def)

lemma accept_peer_opened:
  "d \<noteq> stream_direction id' \<Longrightarrow> peer_opened d (snd (accept_stream id' sm)) = peer_opened d sm"
  using accept_stream_cases [of id' sm] open_remotes [OF remote_base_bits [of sm "stream_direction id'"]] by auto

lemma accept_keys:
  assumes "keys_opened sm"
  shows "keys_opened (snd (accept_stream id' sm)) \<and>
    (\<forall>k. sm_get (snd (accept_stream id' sm)) k = sm_get sm k \<or>
         sm_get sm k = None \<and> (\<exists>d. sm_get (snd (accept_stream id' sm)) k = Some (fresh_remote sm d k)))"
proof (cases "snd (accept_stream id' sm) = sm")
  case False
  have "sm_get sm id' \<noteq> None \<Longrightarrow> snd (accept_stream id' sm) = sm" by (simp add: accept_stream_def sm_get_def)
  with False have new: "sm_get sm id' = None" by blast
  have "fst (accept_stream id' sm) = Inr ()" using False accept_stream_cases [of id' sm] by auto
  then have a: "accept_stream id' sm = (Inr (), snd (accept_stream id' sm))" by (metis prod.collapse)
  let ?d = "stream_direction id'" and ?n = "unat id' div 4 + 1" and ?sm = "snd (accept_stream id' sm)"
  have g: "peer_opened ?d ?sm = ?n" "\<not> ?n \<le> peer_opened ?d sm"
    "\<And>k. sm_get ?sm k = (if remote_id sm ?d k \<and> peer_opened ?d sm \<le> unat k div 4 \<and> unat k div 4 < ?n
           then Some (fresh_remote sm ?d k) else sm_get sm k)"
    using accept_opens [OF new a] False by presburger+
  have "sm_get ?sm k = sm_get sm k \<or> sm_get sm k = None \<and> (\<exists>d. sm_get ?sm k = Some (fresh_remote sm d k))" for k
  proof (cases "remote_id sm ?d k \<and> peer_opened ?d sm \<le> unat k div 4 \<and> unat k div 4 < ?n")
    case True
    then have "\<not> unat k div 4 < peer_opened ?d sm" by simp
    then have "sm_get sm k = None" using assms True unfolding keys_opened_def by blast
    then show ?thesis using g(3) [of k] True by auto
  next
    case False
    then show ?thesis using g(3) [of k] by presburger
  qed
  moreover have "unat k div 4 < peer_opened d ?sm" if "sm_get ?sm k \<noteq> None" "remote_id sm d k" for k d
  proof (cases "d = ?d")
    case True
    show ?thesis
    proof (cases "peer_opened ?d sm \<le> unat k div 4 \<and> unat k div 4 < ?n")
      case True
      then show ?thesis using g(1) \<open>d = ?d\<close> by simp
    next
      case False
      then have "sm_get sm k \<noteq> None" using that(1) g(3) [of k] by (metis (no_types))
      then have "unat k div 4 < peer_opened ?d sm" using assms that(2) \<open>d = ?d\<close> unfolding keys_opened_def by blast
      then show ?thesis unfolding \<open>d = ?d\<close> g(1) using g(2) by linarith
    qed
  next
    case False
    then have "\<not> remote_id sm ?d k" using that(2) by (auto simp: remote_id_def)
    then have "sm_get sm k \<noteq> None" using that(1) g(3) [of k] by (metis (no_types))
    then show ?thesis using assms that(2) accept_peer_opened [OF False, of sm] unfolding keys_opened_def by simp
  qed
  ultimately show ?thesis
    unfolding keys_opened_def remote_id_side [OF accept_side] by blast
qed (use assms in simp)

text \<open>C12: accepting a stream identifier the manager does not hold succeeds only for a peer-initiated
  identifier within the advertised limit.  If that ordinal was opened before, the stream has been
  retired and nothing changes; otherwise the stream and every lower-numbered stream of its type that
  was not opened yet come into being in their initial state, and no other stream is touched.\<close>

theorem accept_stream_opens:
  assumes "sm_get sm id' = None" "accept_stream id' sm = (Inr (), sm')"
  defines "d \<equiv> stream_direction id'" and "n \<equiv> unat id' div 4 + 1"
  shows "remote_id sm d id' \<and> n \<le> peer_limit d sm \<and>
    (if n \<le> peer_opened d sm then sm' = sm
     else peer_opened d sm' = n \<and>
       (\<forall>k. sm_get sm' k =
          (if remote_id sm d k \<and> peer_opened d sm \<le> unat k div 4 \<and> unat k div 4 < n
           then Some (fresh_remote sm d k) else sm_get sm k)))"
  using accept_opens [OF assms(1,2)] unfolding d_def n_def by blast

theorem accept_stream_opens_witness:
  "let sm = sm_new Client 10 10 64; sm' = snd (accept_stream 9 sm) in
   sm_get sm 9 = None \<and> accept_stream 9 sm = (Inr (), sm') \<and>
   sm_get sm' 1 = Some (fresh_remote sm Bidirectional 1) \<and> sm_get sm' 5 = Some (fresh_remote sm Bidirectional 5) \<and>
   sm_get sm' 9 = Some (fresh_remote sm Bidirectional 9) \<and> sm_get sm' 13 = None"
proof -
  let ?sm = "sm_new Client 10 10 64"
  let ?sm' = "snd (accept_stream 9 ?sm)"
  have g: "sm_get ?sm k = None" for k by (simp add: sm_get_def sm_new_def)
  have a: "accept_stream 9 ?sm = (Inr (), ?sm')"
    by (simp add: accept_stream_def sm_new_def is_local_initiated_def initiated_by_def stream_initiator_def
        stream_direction_def remote_stream_base_def checked_sub_def Let_def split: prod.split)
  have "remote_id ?sm Bidirectional 1" "remote_id ?sm Bidirectional 5" "remote_id ?sm Bidirectional 9"
    by (simp_all add: remote_id_def sm_new_def initiated_by_def stream_initiator_def stream_direction_def)
  then show ?thesis
    using a g accept_stream_opens [OF g a]
    by (simp add: Let_def stream_direction_def peer_opened_def sm_new_def)
qed

section \<open>Identifiers of locally opened streams\<close>

text \<open>As long as fewer than \<open>2^61\<close> streams of a type were opened (the protocol's limit is \<open>2^60\<close>), the next
  identifier is above every locally initiated one in use.\<close>

fun local_base :: "Side \<Rightarrow> StreamDirection \<Rightarrow> nat" where
  "local_base Client Bidirectional = 0"
| "local_base Client Unidirectional = 2"
| "local_base Server Bidirectional = 1"
| "local_base Server Unidirectional = 3"

definition fresh_dir :: "Side \<Rightarrow> StreamDirection \<Rightarrow> StreamId \<Rightarrow> u64 \<Rightarrow> StreamId set \<Rightarrow> bool" where
  "fresh_dir side d next' opened keys \<longleftrightarrow>
     (unat opened \<le> 2 ^ 61 \<longrightarrow>
        unat next' = local_base side d + 4 * unat opened \<and>
        (\<forall>k \<in> keys. initiated_by side k \<and> stream_direction k = d \<longrightarrow> k < next'))"

definition next_fresh :: "StreamManager \<Rightarrow> bool" where
  "next_fresh sm \<longleftrightarrow>
     fresh_dir (sm_side sm) Bidirectional (next_bidi_id sm) (bidi_opened sm) (set (map fst (streams sm))) \<and>
     fresh_dir (sm_side sm) Unidirectional (next_uni_id sm) (uni_opened sm) (set (map fst (streams sm)))"

lemma fresh_dir_open:
  assumes "fresh_dir side d next' n keys" "n < m"
  shows "fresh_dir side d (next' + 4) (n + 1) (insert next' keys)"
proof -
  have s: "unat (n + 1) = unat n + 1"
    using assms(2) unat_u64_less_num [of m] by (simp add: unat_word_ariths word_less_nat_alt)
  have b: "local_base side d < 4" by (cases side; cases d) simp_all
  show ?thesis unfolding fresh_dir_def
  proof (intro impI)
    assume l: "unat (n + 1) \<le> 2 ^ 61"
    then have f: "unat next' = local_base side d + 4 * unat n"
      "\<And>k. k \<in> keys \<Longrightarrow> initiated_by side k \<Longrightarrow> stream_direction k = d \<Longrightarrow> k < next'"
      using assms(1) s by (simp_all add: fresh_dir_def)
    then have u: "unat (next' + 4) = unat next' + 4" using b l s by (simp add: unat_word_ariths)
    then have "next' < next' + 4" by (simp add: word_less_nat_alt)
    then show "unat (next' + 4) = local_base side d + 4 * unat (n + 1) \<and>
        (\<forall>k \<in> insert next' keys. initiated_by side k \<and> stream_direction k = d \<longrightarrow> k < next' + 4)"
      using f u s by (auto intro: less_trans)
  qed
qed

lemma fresh_dir_mono:
  "fresh_dir side d next' n keys \<Longrightarrow> (\<And>k. k \<in> keys' \<Longrightarrow> initiated_by side k \<Longrightarrow> stream_direction k = d \<Longrightarrow> k \<in> keys)
     \<Longrightarrow> fresh_dir side d next' n keys'"
  unfolding fresh_dir_def by blast

lemma next_fresh_mono:
  assumes "next_fresh sm" "sm_side sm' = sm_side sm" "next_bidi_id sm' = next_bidi_id sm" "next_uni_id sm' = next_uni_id sm"
    and "bidi_opened sm' = bidi_opened sm" "uni_opened sm' = uni_opened sm"
    and "\<And>k. k \<in> set (map fst (streams sm')) \<Longrightarrow> initiated_by (sm_side sm) k \<Longrightarrow> k \<in> set (map fst (streams sm))"
  shows "next_fresh sm'"
  unfolding next_fresh_def assms(2-6)
proof (intro conjI)
  show "fresh_dir (sm_side sm) Bidirectional (next_bidi_id sm) (bidi_opened sm) (set (map fst (streams sm')))"
    by (rule fresh_dir_mono [OF assms(1) [unfolded next_fresh_def, THEN conjunct1]]) (rule assms(7))
  show "fresh_dir (sm_side sm) Unidirectional (next_uni_id sm) (uni_opened sm) (set (map fst (streams sm')))"
    by (rule fresh_dir_mono [OF assms(1) [unfolded next_fresh_def, THEN conjunct2]]) (rule assms(7))
qed

lemma set_keys_update: "set (map fst (AList.update k v m)) = insert k (set (map fst m))"
  by (auto simp: update_keys)

lemma open_bidi_fresh:
  assumes "next_fresh sm" "ids_inv sm" shows "next_fresh (snd (open_bidi sm))"
proof (cases "bidi_opened sm \<ge> max_bidi_streams sm")
  case False
  let ?keys = "set (map fst (streams sm))"
  have f: "fresh_dir (sm_side sm) Bidirectional (next_bidi_id sm) (bidi_opened sm) ?keys"
    "fresh_dir (sm_side sm) Unidirectional (next_uni_id sm) (uni_opened sm) ?keys"
    using assms(1) unfolding next_fresh_def by simp_all
  have "fresh_dir (sm_side sm) Unidirectional (next_uni_id sm) (uni_opened sm) (insert (next_bidi_id sm) ?keys)"
    by (rule fresh_dir_mono [OF f(2)]) (use assms(2) in \<open>auto simp: ids_inv_def\<close>)
  moreover have "fresh_dir (sm_side sm) Bidirectional (next_bidi_id sm + 4) (bidi_opened sm + 1) (insert (next_bidi_id sm) ?keys)"
    by (rule fresh_dir_open [OF f(1), of "max_bidi_streams sm"]) (use False in simp)
  ultimately show ?thesis
    using False by (simp add: next_fresh_def open_bidi_def Let_def set_keys_update del: set_map)
qed (use assms in \<open>simp add: open_bidi_def\<close>)

lemma open_uni_fresh:
  assumes "next_fresh sm" "ids_inv sm" shows "next_fresh (snd (open_uni sm))"
proof (cases "uni_opened sm \<ge> max_uni_streams sm")
  case False
  let ?keys = "set (map fst (streams sm))"
  have f: "fresh_dir (sm_side sm) Bidirectional (next_bidi_id sm) (bidi_opened sm) ?keys"
    "fresh_dir (sm_side sm) Unidirectional (next_uni_id sm) (uni_opened sm) ?keys"
    using assms(1) unfolding next_fresh_def by simp_all
  have "fresh_dir (sm_side sm) Bidirectional (next_bidi_id sm) (bidi_opened sm) (insert (next_uni_id sm) ?keys)"
    by (rule fresh_dir_mono [OF f(1)]) (use assms(2) in \<open>auto simp: ids_inv_def\<close>)
  moreover have "fresh_dir (sm_side sm) Unidirectional (next_uni_id sm + 4) (uni_opened sm + 1) (insert (next_uni_id sm) ?keys)"
    by (rule fresh_dir_open [OF f(2), of "max_uni_streams sm"]) (use False in simp)
  ultimately show ?thesis
    using False by (simp add: next_fresh_def open_uni_def Let_def set_keys_update del: set_map)
qed (use assms in \<open>simp add: open_uni_def\<close>)

lemma open_remote_opened [simp]:
  "bidi_opened (open_remote d b i sm) = bidi_opened sm" "uni_opened (open_remote d b i sm) = uni_opened sm"
  by (simp_all add: open_remote_def Let_def split_beta)

lemma open_remote_next_fresh:
  assumes "next_fresh sm" "\<not> initiated_by (sm_side sm) base"
  shows "next_fresh (open_remote d base i sm)"
proof (rule next_fresh_mono [OF assms(1)])
  fix k assume "k \<in> set (map fst (streams (open_remote d base i sm)))" "initiated_by (sm_side sm) k"
  then show "k \<in> set (map fst (streams sm))"
    using assms(2) unfolding open_remote_keys set_keys_update by auto
qed simp_all

lemma open_remotes_next_fresh:
  assumes "next_fresh sm" "\<not> initiated_by (sm_side sm) base"
  shows "next_fresh (fold (open_remote d base) is sm)"
  using assms by (induction "is" arbitrary: sm) (simp_all add: open_remote_next_fresh)

lemma set_opened_next_fresh: "next_fresh sm \<Longrightarrow> next_fresh (set_opened d n sm)"
  by (rule next_fresh_mono) (cases d; simp add: set_opened_def)+

lemma accept_next_fresh: "next_fresh sm \<Longrightarrow> next_fresh (snd (accept_stream id' sm))"
  using accept_stream_cases [of id' sm] open_remotes_next_fresh [OF _ remote_base_bits(2)] set_opened_next_fresh
  by fastforce

lemma step_next_fresh:
  assumes "sm_step sm sm'" "next_fresh sm" "ids_inv sm"
  shows "next_fresh sm'"
  using assms
proof (induction rule: sm_step.induct)
  case (step_gc sm)
  show ?case by (rule next_fresh_mono [OF step_gc(1)]) (auto simp: gc_closed_streams_def Let_def)
next
  case (step_stream sm id' s s')
  have k: "id' \<in> set (map fst (streams sm))" using step_stream(1) by (force simp: sm_get_def dest: map_of_SomeD)
  show ?case
    by (rule next_fresh_mono [OF step_stream(2)]) (use k in \<open>auto simp: sm_put_def set_keys_update simp del: set_map\<close>)
next
  case (step_peer_limits sm bl br u mb mu)
  show ?case
    by (rule next_fresh_mono [OF step_peer_limits(1)])
       (simp_all add: sm_frames del: set_map, simp_all add: apply_peer_initial_limits_def Let_def)
next
  case (step_take sm)
  show ?case
    by (rule next_fresh_mono [OF step_take(1)])
       (simp_all add: sm_frames, simp_all add: take_max_streams_updates_def Let_def)
next
  case (step_max_bidi sm m)
  show ?case
    by (rule next_fresh_mono [OF step_max_bidi(1)]) (simp_all add: sm_frames, simp_all add: update_max_bidi_streams_def)
next
  case (step_max_uni sm m)
  show ?case
    by (rule next_fresh_mono [OF step_max_uni(1)]) (simp_all add: sm_frames, simp_all add: update_max_uni_streams_def)
qed (simp_all add: open_bidi_fresh open_uni_fresh accept_next_fresh)

lemma reachable_next_fresh:
  assumes "sm_step\<^sup>*\<^sup>* (sm_new side mb mu flow) sm"
  shows "next_fresh sm"
  using assms
proof (induction rule: rtranclp_induct)
  case base
  then show ?case by (cases side) (simp_all add: sm_new_def next_fresh_def fresh_dir_def)
next
  case (step sm sm')
  then show ?case using step_next_fresh reachable_inv by blast
qed

text \<open>C36: opening a bidirectional stream yields an identifier of the right type that is not in use, in
  its initial state, leaves every other stream alone and keeps within the peer's limit.\<close>

theorem open_bidi_new_stream:
  assumes "sm_step\<^sup>*\<^sup>* (sm_new side mb mu flow) sm" "unat (bidi_opened sm) < 2 ^ 61"
    and "open_bidi sm = (Inr id', sm')"
  shows "initiated_by (sm_side sm) id' \<and> stream_direction id' = Bidirectional \<and> sm_get sm id' = None \<and>
    sm_get sm' id' = Some (stream_new id' Bidirectional True (peer_bidi_remote_send_max sm) (local_bidi_local_recv_max sm)) \<and>
    (\<forall>k. k \<noteq> id' \<longrightarrow> sm_get sm' k = sm_get sm k) \<and> bidi_opened sm' \<le> max_bidi_streams sm"
proof -
  have o: "bidi_opened sm < max_bidi_streams sm" "id' = next_bidi_id sm"
    "sm' = snd (open_bidi sm)" using assms(3) by (auto simp: open_bidi_def Let_def not_le split: if_splits)
  have "id' \<notin> set (map fst (streams sm))"
    using reachable_next_fresh [OF assms(1)] reachable_inv [OF assms(1)] assms(2) o(2)
    unfolding next_fresh_def fresh_dir_def ids_inv_def by auto
  then have "sm_get sm id' = None" by (simp add: sm_get_def map_of_eq_None_iff)
  then show ?thesis
    using o reachable_inv [OF assms(1)] inc_le [of "bidi_opened sm"]
    by (auto simp: open_bidi_def Let_def sm_get_def update_conv' ids_inv_def)
qed

theorem open_bidi_new_stream_witness:
  "let sm = snd (open_bidi (sm_new Server 2 1 100)) in
   sm_step\<^sup>*\<^sup>* (sm_new Server 2 1 100) sm \<and> unat (bidi_opened sm) < 2 ^ 61 \<and>
   fst (open_bidi sm) = Inr 5 \<and> sm_get sm 5 = None"
proof -
  let ?sm = "snd (open_bidi (sm_new Server 2 1 100))"
  have r: "sm_step\<^sup>*\<^sup>* (sm_new Server 2 1 100) ?sm" by (intro r_into_rtranclp step_open_bidi)
  have b: "unat (bidi_opened ?sm) < 2 ^ 61" by (simp add: open_bidi_def sm_new_def Let_def)
  have o: "open_bidi ?sm = (Inr 5, snd (open_bidi ?sm))"
    by (simp add: open_bidi_def sm_new_def Let_def word_le_nat_alt)
  have "fst (open_bidi ?sm) = Inr 5" by (subst o) simp
  then show ?thesis using r b open_bidi_new_stream [OF r b o] by (simp add: Let_def)
qed

end
