(* ===== verification/Stream_Io.thy ===== *)
theory Stream_Io
  imports Frame Stream_Manager
begin

text \<open>
  Stream data of a connection (\<open>starfish-quic/src/connection.rs\<close>): reassembly of received data, reading
  and writing a stream, and the branches of \<open>process_frame_from\<close> that concern streams and flow control.
  The fields of \<open>QuicConnection\<close> they touch form the record \<open>ConnStreams\<close>; the connection
  state they only inspect (whether application data may be sent) is an argument.
\<close>

section \<open>Reassembly\<close>

text \<open>What is left of a segment outside one range already buffered.\<close>

definition cut_segment :: "u64 \<times> u64 \<Rightarrow> u64 \<times> bytes \<Rightarrow> (u64 \<times> bytes) list" where
  "cut_segment existing segment =
     (let (existing_start, existing_end) = existing;
          (segment_start, segment_data) = segment;
          segment_end = segment_start + word_of_nat (length segment_data);
          overlap_start = max segment_start existing_start;
          overlap_end = min segment_end existing_end
      in if overlap_start \<ge> overlap_end then [(segment_start, segment_data)]
         else (if segment_start < overlap_start
               then [(segment_start, take (unat (overlap_start - segment_start)) segment_data)] else [])
            @ (if overlap_end < segment_end
               then [(overlap_end, drop (unat (overlap_end - segment_start)) segment_data)] else []))"

text \<open>The loop over the buffered ranges; \<open>None\<close> is the early return when nothing is left.\<close>

fun cut_existing :: "(u64 \<times> u64) list \<Rightarrow> (u64 \<times> bytes) list \<Rightarrow> (u64 \<times> bytes) list option" where
  "cut_existing [] pending_segments = Some pending_segments"
| "cut_existing (existing # ranges) pending_segments =
     (let next_segments = concat (map (cut_segment existing) pending_segments) in
      if next_segments = [] then None else cut_existing ranges next_segments)"

definition merge_segment :: "(u64 \<times> bytes) list \<Rightarrow> u64 \<times> bytes \<Rightarrow> (u64 \<times> bytes) list" where
  "merge_segment merged segment =
     (let (start, data) = segment in
      if merged = [] then merged @ [(start, data)]
      else
      let (last_start, last_data) = last merged;
          last_end = last_start + word_of_nat (length last_data)
      in if start \<le> last_end
         then let overlap = unat (last_end - start) in
              if overlap < length data
              then butlast merged @ [(last_start, last_data @ drop overlap data)]
              else merged
         else merged @ [(start, data)])"

definition insert_all :: "(u64 \<times> bytes) list \<Rightarrow> (u64, bytes) HashMap \<Rightarrow> (u64, bytes) HashMap" where
  "insert_all segments recv_buf = fold (\<lambda>(start, data). AList.update start data) segments recv_buf"

definition coalesce_stream_recv_data :: "(u64, bytes) HashMap \<Rightarrow> (u64, bytes) HashMap" where
  "coalesce_stream_recv_data recv_buf =
     (let segments = sort_key fst recv_buf; merged = foldl merge_segment [] segments
      in insert_all merged [])"

definition segment_range :: "u64 \<times> bytes \<Rightarrow> u64 \<times> u64" where
  "segment_range segment = (fst segment, fst segment + word_of_nat (length (snd segment)))"

definition buffer_stream_recv_data ::
    "(u64, bytes) HashMap \<Rightarrow> u64 \<Rightarrow> bytes \<Rightarrow> (u64, bytes) HashMap" where
  "buffer_stream_recv_data recv_buf offset data =
     (if data = [] then recv_buf
      else
      let existing_ranges = sort_key fst (map segment_range recv_buf) in
      case cut_existing existing_ranges [(offset, data)] of
        None \<Rightarrow> recv_buf
      | Some pending_segments \<Rightarrow> coalesce_stream_recv_data (insert_all pending_segments recv_buf))"

fun covers_final :: "u64 \<Rightarrow> u64 \<Rightarrow> (u64 \<times> u64) list \<Rightarrow> bool" where
  "covers_final final_size covered_until [] = False"
| "covers_final final_size covered_until ((start, end') # segments) =
     (if end' \<le> covered_until then covers_final final_size covered_until segments
      else if start > covered_until then False
      else if end' \<ge> final_size then True
      else covers_final final_size end' segments)"

definition stream_has_received_all_data :: "StreamState \<Rightarrow> bool" where
  "stream_has_received_all_data stream =
     (case ss_final_size stream of
        None \<Rightarrow> False
      | Some final_size \<Rightarrow>
          if ss_recv_offset stream \<ge> final_size then True
          else covers_final final_size (ss_recv_offset stream)
                 (sort_key fst (map segment_range (ss_recv_buf stream))))"

definition validate_stream_final_size :: "StreamId \<Rightarrow> StreamState \<Rightarrow> u64 \<Rightarrow> QuicError + unit" where
  "validate_stream_final_size stream_id stream final_size =
     (case ss_final_size stream of
        Some existing \<Rightarrow>
          if existing \<noteq> final_size
          then Inl (Transport FinalSizeError (Fmt ''stream {stream_id} changed final size from {existing} to {final_size}''
                      [NumArg stream_id, NumArg existing, NumArg final_size]))
          else if received_max_offset (ss_flow_control stream) > final_size
          then Inl (Transport FinalSizeError (Fmt ''stream {stream_id} final size {final_size} is smaller than received data''
                      [NumArg stream_id, NumArg final_size]))
          else Inr ()
      | None \<Rightarrow>
          if received_max_offset (ss_flow_control stream) > final_size
          then Inl (Transport FinalSizeError (Fmt ''stream {stream_id} final size {final_size} is smaller than received data''
                      [NumArg stream_id, NumArg final_size]))
          else Inr ())"

section \<open>Reading a stream\<close>

text \<open>
  The copying loop: \<open>want\<close> is the room left in the caller's buffer.  A partly read segment is buffered
  again under its new offset.
\<close>

function read_loop ::
    "nat \<Rightarrow> u64 \<Rightarrow> (u64, bytes) HashMap \<Rightarrow> bytes \<times> u64 \<times> (u64, bytes) HashMap" where
  "read_loop want offset recv_buf =
     (if want = 0 then ([], offset, recv_buf)
      else case map_of recv_buf offset of
        None \<Rightarrow> ([], offset, recv_buf)
      | Some data \<Rightarrow>
          let recv_buf = AList.delete offset recv_buf;
              copy_len = min (length data) want;
              offset = offset + word_of_nat copy_len;
              recv_buf = (if copy_len < length data
                          then buffer_stream_recv_data recv_buf offset (drop copy_len data) else recv_buf);
              (rest, offset, recv_buf) = read_loop (want - copy_len) offset recv_buf
          in (take copy_len data @ rest, offset, recv_buf))"
  by pat_completeness auto
termination
proof (relation "measures [\<lambda>(want, _, _). want, \<lambda>(_, _, recv_buf). length recv_buf]", goal_cases)
  case (2 want offset recv_buf data recv_buf' copy_len offset' recv_buf'')
  have d: "length (AList.delete offset recv_buf) < length recv_buf" if "map_of recv_buf offset = Some data"
    using map_of_SomeD [OF that] unfolding AList.delete_eq by (intro length_filter_less) auto
  show ?case using 2 d by (cases "data = []") auto
qed simp

declare read_loop.simps [simp del]

definition stream_recv_state :: "nat \<Rightarrow> StreamState \<Rightarrow> (QuicError + bytes \<times> bool) \<times> StreamState" where
  "stream_recv_state buf_len stream =
     (if ss_recv stream = Some RsResetRecvd
      then (Inl (StreamReset (case ss_reset_error_code stream of None \<Rightarrow> 0 | Some c \<Rightarrow> c)),
            stream\<lparr>ss_recv := Some RsResetRead\<rparr>)
      else
      let (out, offset, recv_buf) = read_loop buf_len (ss_recv_offset stream) (ss_recv_buf stream);
          stream = stream\<lparr>ss_recv_offset := offset, ss_recv_buf := recv_buf\<rparr>
      in case ss_final_size stream of
           None \<Rightarrow> (Inr (out, False), stream)
         | Some final_size \<Rightarrow>
             if ss_recv_offset stream \<ge> final_size
             then let stream = (if ss_recv stream = Some RsSizeKnown
                                then stream\<lparr>ss_recv := Some RsDataRecvd\<rparr> else stream);
                      stream = (if ss_recv stream = Some RsDataRecvd
                                then stream\<lparr>ss_recv := Some RsDataRead\<rparr> else stream)
                  in (Inr (out, True), stream)
             else (Inr (out, False), stream))"

section \<open>The stream part of a connection\<close>

record ConnStreams =
  cs_streams :: StreamManager
  cs_flow_control :: ConnectionFlowControl
  cs_pending_frames :: "(PacketNumberSpace \<times> Frame) list"

definition push_pending :: "PacketNumberSpace \<Rightarrow> Frame \<Rightarrow> ConnStreams \<Rightarrow> ConnStreams" where
  "push_pending space frame c = c\<lparr>cs_pending_frames := cs_pending_frames c @ [(space, frame)]\<rparr>"

definition put_stream :: "StreamId \<Rightarrow> StreamState \<Rightarrow> ConnStreams \<Rightarrow> ConnStreams" where
  "put_stream sid s c = c\<lparr>cs_streams := sm_put sid s (cs_streams c)\<rparr>"

definition stream_state_error :: "string \<Rightarrow> StreamId \<Rightarrow> QuicError" where
  "stream_state_error fmt sid = Transport StreamStateError (Fmt fmt [NumArg sid])"

text \<open>\<open>stream_recv\<close>; the bytes returned are those copied to the front of the caller's buffer of
  \<open>buf_len\<close> bytes.\<close>

definition stream_recv :: "StreamId \<Rightarrow> nat \<Rightarrow> ConnStreams \<Rightarrow> (QuicError + bytes \<times> bool) \<times> ConnStreams" where
  "stream_recv stream_id buf_len c =
     (case sm_get (cs_streams c) stream_id of
        None \<Rightarrow> (Inl (stream_state_error ''unknown stream {stream_id}'' stream_id), c)
      | Some stream \<Rightarrow>
          if ss_recv stream = None
          then (Inl (stream_state_error ''stream {stream_id} is send-only'' stream_id), c)
          else let (r, stream) = stream_recv_state buf_len stream in (r, put_stream stream_id stream c))"

datatype ConnectionState = StInitial | StHandshake | StConnected | StClosing | StDraining | StClosed

fun state_name :: "ConnectionState \<Rightarrow> string" where
  "state_name StInitial = ''Initial''"
| "state_name StHandshake = ''Handshake''"
| "state_name StConnected = ''Connected''"
| "state_name StClosing = ''Closing''"
| "state_name StDraining = ''Draining''"
| "state_name StClosed = ''Closed''"

datatype ApplicationPacketKind = ApZeroRtt | ApOneRtt

text \<open>The arguments say whether 1-RTT keys are installed and whether 0-RTT data can be sent.\<close>

definition application_send_kind :: "bool \<Rightarrow> bool \<Rightarrow> ApplicationPacketKind option" where
  "application_send_kind one_rtt_keys can_send_zero_rtt =
     (if one_rtt_keys then Some ApOneRtt else if can_send_zero_rtt then Some ApZeroRtt else None)"

text \<open>\<open>stream_send\<close> inspects the connection state and the kind of packet that can carry the data.\<close>

definition stream_send ::
    "ConnectionState \<Rightarrow> ApplicationPacketKind option \<Rightarrow> StreamId \<Rightarrow> bytes \<Rightarrow> bool \<Rightarrow> ConnStreams
     \<Rightarrow> (QuicError + nat) \<times> ConnStreams" where
  "stream_send state kind stream_id data fin c =
     (if \<not> (kind = Some ApZeroRtt \<or> kind = Some ApOneRtt \<and> state = StConnected)
      then (Inl (Transport StreamStateError (Fmt ''application data is not sendable while connection state is {:?}''
              [StrArg (state_name state)])), c)
      else case sm_get (cs_streams c) stream_id of
        None \<Rightarrow> (Inl (stream_state_error ''unknown stream {stream_id}'' stream_id), c)
      | Some stream \<Rightarrow>
          if ss_send stream = None
          then (Inl (stream_state_error ''stream {stream_id} is receive-only'' stream_id), c)
          else if ss_send stream \<in> {Some SsResetSent, Some SsResetRecvd, Some SsDataRecvd}
          then (Inl (stream_state_error ''stream {stream_id} send side is closed'' stream_id), c)
          else
          let send_window = min (sfc_send_window (ss_flow_control stream)) (cfc_send_window (cs_flow_control c));
              len = unat (min (word_of_nat (length data)) send_window);
              actual_fin = (fin \<and> len = length data)
          in if len > 0 \<or> actual_fin
             then let offset = ss_send_offset stream;
                      stream = stream\<lparr>ss_send_offset := ss_send_offset stream + word_of_nat len,
                        ss_flow_control := sfc_on_data_sent (word_of_nat len) (ss_flow_control stream)\<rparr>;
                      stream = (if ss_send stream = Some SsReady then stream\<lparr>ss_send := Some SsSend\<rparr> else stream);
                      stream = (if actual_fin then stream\<lparr>ss_fin_sent := True, ss_send := Some SsDataSent\<rparr> else stream);
                      c = put_stream stream_id stream
                            (c\<lparr>cs_flow_control := cfc_on_data_sent (word_of_nat len) (cs_flow_control c)\<rparr>);
                      frame = Stream \<lparr>sf_stream_id = stream_id, sf_offset = offset, sf_fin = actual_fin,
                                sf_data = take len data\<rparr>
                  in (Inr len, push_pending SpApplicationData frame c)
             else (Inr len, c))"

section \<open>Frames about streams\<close>

definition MAX_STREAMS_LIMIT :: u64 where "MAX_STREAMS_LIMIT = push_bit 60 1"

definition with_accepted ::
    "StreamId \<Rightarrow> (ConnStreams \<Rightarrow> (QuicError + unit) \<times> ConnStreams) \<Rightarrow> ConnStreams \<Rightarrow> (QuicError + unit) \<times> ConnStreams" where
  "with_accepted sid k c =
     (if sm_get (cs_streams c) sid = None
      then (case accept_stream sid (cs_streams c) of
              (Inl e, sm) \<Rightarrow> (Inl e, c\<lparr>cs_streams := sm\<rparr>)
            | (Inr _, sm) \<Rightarrow> k (c\<lparr>cs_streams := sm\<rparr>))
      else k c)"

text \<open>The receiving side of a stream after the limits were checked: buffering, FIN and completion.\<close>

definition finish_stream_frame :: "StreamFrame \<Rightarrow> u64 \<Rightarrow> StreamState \<Rightarrow> (QuicError + unit) \<times> StreamState" where
  "finish_stream_frame sf end' stream =
     (let stream = (if sf_data sf \<noteq> []
                    then stream\<lparr>ss_recv_buf :=
                           buffer_stream_recv_data (ss_recv_buf stream) (sf_offset sf) (sf_data sf)\<rparr>
                    else stream);
          complete = (\<lambda>stream. (Inr (), if ss_recv stream = Some RsSizeKnown \<and> stream_has_received_all_data stream
                                         then stream\<lparr>ss_recv := Some RsDataRecvd\<rparr> else stream))
      in if sf_fin sf
         then (case validate_stream_final_size (sf_stream_id sf) stream end' of
                 Inl e \<Rightarrow> (Inl e, stream)
               | Inr _ \<Rightarrow>
                   let stream = stream\<lparr>ss_final_size := Some end'\<rparr>;
                       stream = (if ss_recv stream = Some RsRecv then stream\<lparr>ss_recv := Some RsSizeKnown\<rparr> else stream)
                   in complete stream)
         else complete stream)"

definition process_known_stream_frame ::
    "StreamFrame \<Rightarrow> StreamState \<Rightarrow> ConnStreams \<Rightarrow> (QuicError + unit) \<times> ConnStreams" where
  "process_known_stream_frame sf stream c =
     (let sid = sf_stream_id sf in
      if ss_recv stream = None
      then (Inl (stream_state_error ''stream {sid} is send-only'' sid), c)
      else
      let data_len = word_of_nat (length (sf_data sf)) in
      case checked_add (sf_offset sf) data_len of
        None \<Rightarrow> (Inl (Transport FinalSizeError (Fmt ''stream {sid} final size overflow'' [NumArg sid])), c)
      | Some end' \<Rightarrow>
          if (case ss_final_size stream of Some final_size \<Rightarrow> end' > final_size | None \<Rightarrow> False)
          then (Inl (Transport FinalSizeError (Fmt ''stream {sid} received data beyond final size {final_size}''
                      [NumArg sid, NumArg (the (ss_final_size stream))])), c)
          else
          let (delta, fc) = sfc_on_data_received (sf_offset sf) data_len (ss_flow_control stream);
              stream = stream\<lparr>ss_flow_control := fc\<rparr>;
              c = c\<lparr>cs_flow_control := cfc_on_data_received delta (cs_flow_control c)\<rparr>
          in if \<not> sfc_check_recv_limit (ss_flow_control stream)
             then (Inl (Transport FlowControlError (Fmt ''stream {sid} exceeded stream-level flow control'' [NumArg sid])),
                   put_stream sid stream c)
             else if \<not> cfc_check_recv_limit (cs_flow_control c)
             then (Inl (Transport FlowControlError (Msg ''connection-level flow control exceeded'')),
                   put_stream sid stream c)
             else let (r, stream) = finish_stream_frame sf end' stream in (r, put_stream sid stream c))"

definition process_stream_frame :: "StreamFrame \<Rightarrow> ConnStreams \<Rightarrow> (QuicError + unit) \<times> ConnStreams" where
  "process_stream_frame sf =
     with_accepted (sf_stream_id sf) (\<lambda>c.
       case sm_get (cs_streams c) (sf_stream_id sf) of
         None \<Rightarrow> (Inr (), c)
       | Some stream \<Rightarrow> process_known_stream_frame sf stream c)"

definition process_reset_stream :: "StreamId \<Rightarrow> u64 \<Rightarrow> u64 \<Rightarrow> ConnStreams \<Rightarrow> (QuicError + unit) \<times> ConnStreams" where
  "process_reset_stream stream_id application_error_code final_size =
     with_accepted stream_id (\<lambda>c.
       case sm_get (cs_streams c) stream_id of
         None \<Rightarrow> (Inr (), c)
       | Some stream \<Rightarrow>
           if ss_recv stream = None
           then (Inl (stream_state_error ''stream {stream_id} is send-only'' stream_id), c)
           else case validate_stream_final_size stream_id stream final_size of
             Inl e \<Rightarrow> (Inl e, c)
           | Inr _ \<Rightarrow> (Inr (), put_stream stream_id
               (stream\<lparr>ss_final_size := Some final_size, ss_reset_error_code := Some application_error_code,
                        ss_recv_buf := [], ss_recv := Some RsResetRecvd\<rparr>) c))"

definition process_stop_sending :: "StreamId \<Rightarrow> u64 \<Rightarrow> ConnStreams \<Rightarrow> (QuicError + unit) \<times> ConnStreams" where
  "process_stop_sending stream_id application_error_code =
     with_accepted stream_id (\<lambda>c.
       case sm_get (cs_streams c) stream_id of
         None \<Rightarrow> (Inl (stream_state_error ''unknown stream {stream_id}'' stream_id), c)
       | Some stream \<Rightarrow>
           if ss_send stream = None
           then (Inl (stream_state_error ''stream {stream_id} is receive-only'' stream_id), c)
           else let final_size = ss_send_offset stream;
                    c = put_stream stream_id (stream\<lparr>ss_send := Some SsResetSent\<rparr>) c
                in (Inr (), push_pending SpApplicationData
                              (ResetStream stream_id application_error_code final_size) c))"

definition process_max_data :: "u64 \<Rightarrow> ConnStreams \<Rightarrow> ConnStreams" where
  "process_max_data maximum_data c =
     c\<lparr>cs_flow_control := cfc_update_send_max maximum_data (cs_flow_control c)\<rparr>"

definition process_max_stream_data :: "StreamId \<Rightarrow> u64 \<Rightarrow> ConnStreams \<Rightarrow> ConnStreams" where
  "process_max_stream_data stream_id maximum_stream_data c =
     (case sm_get (cs_streams c) stream_id of
        None \<Rightarrow> c
      | Some stream \<Rightarrow> put_stream stream_id
          (stream\<lparr>ss_flow_control := sfc_update_send_max maximum_stream_data (ss_flow_control stream)\<rparr>) c)"

definition process_max_streams :: "bool \<Rightarrow> u64 \<Rightarrow> ConnStreams \<Rightarrow> (QuicError + unit) \<times> ConnStreams" where
  "process_max_streams bidirectional maximum_streams c =
     (if maximum_streams > MAX_STREAMS_LIMIT
      then (Inl (Transport FrameEncodingError (Fmt ''MAX_STREAMS exceeds protocol limit: {maximum_streams}''
              [NumArg maximum_streams])), c)
      else (Inr (), c\<lparr>cs_streams :=
              (if bidirectional then update_max_bidi_streams maximum_streams (cs_streams c)
               else update_max_uni_streams maximum_streams (cs_streams c))\<rparr>))"

definition process_data_blocked :: "u64 \<Rightarrow> ConnStreams \<Rightarrow> ConnStreams" where
  "process_data_blocked maximum_data c =
     (let (r, fc) = update_from_data_blocked maximum_data (cs_flow_control c);
          c = c\<lparr>cs_flow_control := fc\<rparr>
      in case r of None \<Rightarrow> c | Some new_max \<Rightarrow> push_pending SpApplicationData (MaxData new_max) c)"

definition process_stream_data_blocked :: "StreamId \<Rightarrow> u64 \<Rightarrow> ConnStreams \<Rightarrow> ConnStreams" where
  "process_stream_data_blocked stream_id maximum_stream_data c =
     (case sm_get (cs_streams c) stream_id of
        None \<Rightarrow> c
      | Some stream \<Rightarrow>
          if ss_recv stream \<noteq> None
          then let (r, fc) = update_from_stream_data_blocked maximum_stream_data (ss_flow_control stream);
                   c = put_stream stream_id (stream\<lparr>ss_flow_control := fc\<rparr>) c
               in (case r of None \<Rightarrow> c
                   | Some new_max \<Rightarrow> push_pending SpApplicationData (MaxStreamData stream_id new_max) c)
          else c)"

definition process_streams_blocked :: "bool \<Rightarrow> u64 \<Rightarrow> ConnStreams \<Rightarrow> ConnStreams" where
  "process_streams_blocked bidirectional maximum_streams c =
     (let current_limit = local_max_streams (cs_streams c) bidirectional in
      if maximum_streams < current_limit
      then push_pending SpApplicationData (MaxStreams bidirectional current_limit) c else c)"

definition acknowledge_stream_frame :: "StreamFrame \<Rightarrow> ConnStreams \<Rightarrow> ConnStreams" where
  "acknowledge_stream_frame sf c =
     (case sm_get (cs_streams c) (sf_stream_id sf) of
        None \<Rightarrow> c
      | Some stream \<Rightarrow>
          let stream = acknowledge_sent_data (sf_offset sf) (word_of_nat (length (sf_data sf))) (sf_fin sf) stream;
              stream = (if ss_send stream = Some SsDataSent \<and> all_sent_data_acked stream
                        then stream\<lparr>ss_send := Some SsDataRecvd\<rparr> else stream)
          in put_stream (sf_stream_id sf) stream c)"

section \<open>The bytes a reassembly buffer holds\<close>

definition seg_bytes :: "u64 \<times> bytes \<Rightarrow> (nat \<times> u8) set" where
  "seg_bytes seg = {(x, b). unat (fst seg) \<le> x \<and> x < unat (fst seg) + length (snd seg) \<and>
     snd seg ! (x - unat (fst seg)) = b}"

definition buf_bytes :: "(u64 \<times> bytes) list \<Rightarrow> (nat \<times> u8) set" where
  "buf_bytes segs = (\<Union>seg \<in> set segs. seg_bytes seg)"

definition wf_seg :: "u64 \<times> bytes \<Rightarrow> bool" where
  "wf_seg seg \<longleftrightarrow> snd seg \<noteq> [] \<and> unat (fst seg) + length (snd seg) < 2 ^ 64"

definition before :: "u64 \<times> bytes \<Rightarrow> u64 \<times> bytes \<Rightarrow> bool" where
  "before p q \<longleftrightarrow> unat (fst p) + length (snd p) \<le> unat (fst q)"

text \<open>Offsets covered by a segment or a buffer.\<close>

abbreviation covered :: "(nat \<times> u8) set \<Rightarrow> nat set" where
  "covered bs \<equiv> fst ` bs"

lemma seg_bytes_iff:
  "(x, b) \<in> seg_bytes (s, d) \<longleftrightarrow> unat s \<le> x \<and> x < unat s + length d \<and> d ! (x - unat s) = b"
  by (simp add: seg_bytes_def)

lemma covered_seg [simp]: "covered (seg_bytes seg) = {unat (fst seg)..<unat (fst seg) + length (snd seg)}"
  by (force simp: seg_bytes_def)

lemma covered_buf:
  "covered (buf_bytes segs) = (\<Union>seg \<in> set segs. {unat (fst seg)..<unat (fst seg) + length (snd seg)})"
  by (simp add: buf_bytes_def image_UN)

lemma buf_bytes_simps [simp]:
  "buf_bytes [] = {}" "buf_bytes (p # ps) = seg_bytes p \<union> buf_bytes ps"
  "buf_bytes (ps @ qs) = buf_bytes ps \<union> buf_bytes qs"
  by (auto simp: buf_bytes_def)

lemma buf_bytes_set_cong: "set ps = set qs \<Longrightarrow> buf_bytes ps = buf_bytes qs"
  by (simp add: buf_bytes_def)

lemma seg_end: "wf_seg (s, d) \<Longrightarrow> unat (s + word_of_nat (length d)) = unat s + length d"
  by (simp add: wf_seg_def unat_word_ariths unsigned_of_nat take_bit_nat_eq_self)

lemma seg_bytes_take:
  "seg_bytes (s, take n d) = {p \<in> seg_bytes (s, d). fst p < unat s + n}"
  by (auto simp: seg_bytes_def)

lemma seg_bytes_drop:
  assumes "unat t = unat s + n"
  shows "seg_bytes (t, drop n d) = {p \<in> seg_bytes (s, d). unat t \<le> fst p}"
  using assms by (auto simp: seg_bytes_def)

lemma cut_segment_cases:
  assumes "wf_seg (s, d)"
  shows "cut_segment (es, ee) (s, d) =
    (let os = max (unat s) (unat es); oe = min (unat s + length d) (unat ee) in
     if oe \<le> os then [(s, d)]
     else (if unat s < os then [(s, take (os - unat s) d)] else [])
        @ (if oe < unat s + length d then [(ee, drop (oe - unat s) d)] else []))"
proof -
  have e: "unat (s + word_of_nat (length d)) = unat s + length d" using assms by (rule seg_end)
  have m: "unat (max x y) = max (unat x) (unat y)" "unat (min x y) = min (unat x) (unat y)" for x y :: u64
    by (simp_all add: max_def min_def word_le_nat_alt)
  have d: "unat (max s es - s) = max (unat s) (unat es) - unat s"
    by (subst unat_sub) (simp_all add: m)
  have d2: "unat (min (s + word_of_nat (length d)) ee - s) = min (unat s + length d) (unat ee) - unat s"
    if "\<not> min (unat s + length d) (unat ee) \<le> max (unat s) (unat es)"
    using that by (subst unat_sub) (simp_all add: m e word_le_nat_alt)
  have ee: "min (s + word_of_nat (length d)) ee = ee" if "min (unat s + length d) (unat ee) < unat s + length d"
    using that e by (auto simp: min_def word_le_nat_alt split: if_splits)
  show ?thesis
    unfolding cut_segment_def Let_def prod.case word_le_nat_alt word_less_nat_alt m e d
    using d2 ee by auto
qed


lemma cut_segment_bytes:
  assumes "wf_seg seg"
  shows "buf_bytes (cut_segment r seg) = {p \<in> seg_bytes seg. fst p \<notin> {unat (fst r)..<unat (snd r)}}"
    and "\<forall>q \<in> set (cut_segment r seg). wf_seg q \<and> unat (fst seg) \<le> unat (fst q) \<and>
      unat (fst q) + length (snd q) \<le> unat (fst seg) + length (snd seg)"
    and "sorted_wrt before (cut_segment r seg)"
proof -
  obtain s d es ee where sd: "seg = (s, d)" "r = (es, ee)" by (cases seg; cases r)
  have w: "wf_seg (s, d)" using assms sd by simp
  define os oe where o: "os = max (unat s) (unat es)" "oe = min (unat s + length d) (unat ee)"
  have c: "cut_segment (es, ee) (s, d) = (if oe \<le> os then [(s, d)]
     else (if unat s < os then [(s, take (os - unat s) d)] else [])
        @ (if oe < unat s + length d then [(ee, drop (oe - unat s) d)] else []))"
    using cut_segment_cases [OF w, of es ee] by (simp add: Let_def o)
  have dr: "seg_bytes (ee, drop (oe - unat s) d) = {p \<in> seg_bytes (s, d). unat ee \<le> fst p}"
    if "oe < unat s + length d" "\<not> oe \<le> os"
    using that o by (intro seg_bytes_drop) (auto simp: min_def max_def split: if_splits)
  have tk: "seg_bytes (s, take (os - unat s) d) = {p \<in> seg_bytes (s, d). fst p < os}" if "unat s < os"
    using that by (simp add: seg_bytes_take)
  have mem: "(x, b) \<in> buf_bytes (cut_segment (es, ee) (s, d)) \<longleftrightarrow>
      (x, b) \<in> seg_bytes (s, d) \<and> x \<notin> {unat es..<unat ee}" for x b
  proof (cases "(x, b) \<in> seg_bytes (s, d)")
    case True
    then have x: "unat s \<le> x" "x < unat s + length d" by (simp_all add: seg_bytes_iff)
    show ?thesis
    proof (cases "oe \<le> os")
      case True
      then show ?thesis using x \<open>(x, b) \<in> _\<close> by (auto simp: c o)
    next
      case False
      then have "(x, b) \<in> buf_bytes (cut_segment (es, ee) (s, d)) \<longleftrightarrow>
          unat s < os \<and> x < os \<or> oe < unat s + length d \<and> unat ee \<le> x"
        using c dr tk \<open>(x, b) \<in> _\<close> by auto
      then show ?thesis using x False \<open>(x, b) \<in> _\<close> unfolding o by auto
    qed
  next
    case False
    then show ?thesis using c dr tk by (auto split: if_splits)
  qed
  show "buf_bytes (cut_segment r seg) = {p \<in> seg_bytes seg. fst p \<notin> {unat (fst r)..<unat (snd r)}}"
    unfolding sd using mem by auto
  show "\<forall>q \<in> set (cut_segment r seg). wf_seg q \<and> unat (fst seg) \<le> unat (fst q) \<and>
      unat (fst q) + length (snd q) \<le> unat (fst seg) + length (snd seg)"
    unfolding sd c using w by (auto simp: o wf_seg_def)
  show "sorted_wrt before (cut_segment r seg)"
    unfolding sd c by (auto simp: o before_def)
qed

lemma cut_segments:
  assumes "\<forall>seg \<in> set segs. wf_seg seg" "sorted_wrt before segs"
  shows "buf_bytes (concat (map (cut_segment r) segs))
      = {p \<in> buf_bytes segs. fst p \<notin> {unat (fst r)..<unat (snd r)}} \<and>
    (\<forall>seg \<in> set (concat (map (cut_segment r) segs)). wf_seg seg) \<and>
    sorted_wrt before (concat (map (cut_segment r) segs)) \<and>
    (\<forall>q \<in> set (concat (map (cut_segment r) segs)). \<exists>seg \<in> set segs. unat (fst seg) \<le> unat (fst q) \<and>
      unat (fst q) + length (snd q) \<le> unat (fst seg) + length (snd seg))"
  using assms
proof (induction segs)
  case (Cons seg segs)
  note c = cut_segment_bytes [of seg r]
  let ?rest = "concat (map (cut_segment r) segs)"
  have ih: "buf_bytes ?rest = {p \<in> buf_bytes segs. fst p \<notin> {unat (fst r)..<unat (snd r)}}"
    "\<forall>seg \<in> set ?rest. wf_seg seg" "sorted_wrt before ?rest"
    "\<forall>q \<in> set ?rest. \<exists>seg \<in> set segs. unat (fst seg) \<le> unat (fst q) \<and>
      unat (fst q) + length (snd q) \<le> unat (fst seg) + length (snd seg)"
    using Cons by auto
  have "before p q" if "p \<in> set (cut_segment r seg)" "q \<in> set ?rest" for p q
  proof -
    obtain seg' where "seg' \<in> set segs" "unat (fst seg') \<le> unat (fst q)" using ih(4) \<open>q \<in> set ?rest\<close> by blast
    then have "before seg seg'" using Cons.prems by simp
    then show ?thesis using c(2) Cons.prems that(1) \<open>unat (fst seg') \<le> unat (fst q)\<close> by (fastforce simp: before_def)
  qed
  then show ?case using c Cons.prems ih by (auto simp: sorted_wrt_append)
qed simp

lemma cut_existing_bytes:
  assumes "\<forall>seg \<in> set segs. wf_seg seg" "sorted_wrt before segs"
  shows "case cut_existing rs segs of
      None \<Rightarrow> covered (buf_bytes segs) \<subseteq> rset rs
    | Some segs' \<Rightarrow> buf_bytes segs' = {p \<in> buf_bytes segs. fst p \<notin> rset rs} \<and>
        (\<forall>seg \<in> set segs'. wf_seg seg) \<and> sorted_wrt before segs'"
  using assms
proof (induction rs arbitrary: segs)
  case (Cons r rs)
  define segs1 where s1: "segs1 = concat (map (cut_segment r) segs)"
  have c: "buf_bytes segs1 = {p \<in> buf_bytes segs. fst p \<notin> {unat (fst r)..<unat (snd r)}}"
    "\<forall>seg \<in> set segs1. wf_seg seg" "sorted_wrt before segs1"
    using cut_segments [OF Cons.prems, of r] unfolding s1 by blast+
  have step: "cut_existing (r # rs) segs = (if segs1 = [] then None else cut_existing rs segs1)"
    by (simp add: s1)
  show ?case
  proof (cases "segs1 = []")
    case True
    then have "{p \<in> buf_bytes segs. fst p \<notin> {unat (fst r)..<unat (snd r)}} = {}"
      using c(1) by simp
    then show ?thesis using True unfolding step by auto
  next
    case False
    then show ?thesis using Cons.IH [OF c(2,3)] c(1) unfolding step
      by (auto simp: image_subset_iff split: option.splits)
  qed
qed simp

section \<open>Buffering keeps the bytes and the separation of segments\<close>

definition sbefore :: "u64 \<times> bytes \<Rightarrow> u64 \<times> bytes \<Rightarrow> bool" where
  "sbefore p q \<longleftrightarrow> unat (fst p) + length (snd p) < unat (fst q)"

text \<open>Segments are non-empty, below \<open>2^64\<close>, under distinct keys, and no two of them touch.\<close>

definition wf_buf :: "(u64, bytes) HashMap \<Rightarrow> bool" where
  "wf_buf buf \<longleftrightarrow> distinct (map fst buf) \<and> (\<forall>seg \<in> set buf. wf_seg seg) \<and>
     (\<forall>p \<in> set buf. \<forall>q \<in> set buf. p \<noteq> q \<longrightarrow> sbefore p q \<or> sbefore q p)"

lemma wf_buf_Nil [simp]: "wf_buf []"
  by (simp add: wf_buf_def)

lemma update_new: "k \<notin> fst ` set al \<Longrightarrow> AList.update k v al = al @ [(k, v)]"
  by (induction al) auto

lemma insert_all_append:
  assumes "distinct (map fst segs)" "fst ` set segs \<inter> fst ` set buf = {}"
  shows "insert_all segs buf = buf @ segs"
  using assms
proof (induction segs arbitrary: buf)
  case (Cons seg segs)
  obtain k v where seg: "seg = (k, v)" by (cases seg)
  have "insert_all (seg # segs) buf = insert_all segs (buf @ [(k, v)])"
    using Cons.prems seg by (simp add: insert_all_def update_new)
  also have "\<dots> = (buf @ [(k, v)]) @ segs" using Cons.prems seg by (intro Cons.IH) auto
  finally show ?case using seg by simp
qed (simp add: insert_all_def)

lemma before_distinct:
  assumes "\<forall>seg \<in> set segs. wf_seg seg" "sorted_wrt before segs"
  shows "distinct (map fst segs)"
  using assms
proof (induction segs)
  case (Cons p segs)
  have "fst p \<noteq> fst q" if "q \<in> set segs" for q
    using Cons.prems that by (fastforce simp: before_def wf_seg_def)
  then show ?case using Cons by auto
qed simp

lemma sorted_wrt_distinct_mono:
  "sorted_wrt R xs \<Longrightarrow> distinct xs \<Longrightarrow> (\<And>p q. p \<in> set xs \<Longrightarrow> q \<in> set xs \<Longrightarrow> R p q \<Longrightarrow> p \<noteq> q \<Longrightarrow> Q p q)
    \<Longrightarrow> sorted_wrt Q xs"
  by (induction xs) auto

lemma sorted_wrt_total: "sorted_wrt R xs \<Longrightarrow> p \<in> set xs \<Longrightarrow> q \<in> set xs \<Longrightarrow> p \<noteq> q \<Longrightarrow> R p q \<or> R q p"
  by (induction xs) auto

lemma sort_before:
  assumes "distinct (map fst buf)" "\<forall>seg \<in> set buf. wf_seg seg"
    and "\<And>p q. p \<in> set buf \<Longrightarrow> q \<in> set buf \<Longrightarrow> p \<noteq> q \<Longrightarrow> before p q \<or> before q p"
  shows "sorted_wrt before (sort_key fst buf)"
proof (rule sorted_wrt_distinct_mono)
  show "sorted_wrt (\<lambda>p q. fst p \<le> fst q) (sort_key fst buf)"
    using sorted_sort_key [of fst buf] by (simp add: sorted_map)
  show "distinct (sort_key fst buf)" using assms(1) by (simp add: distinct_map)
  fix p q assume pq: "p \<in> set (sort_key fst buf)" "q \<in> set (sort_key fst buf)" "fst p \<le> fst q" "p \<noteq> q"
  then have "before p q \<or> before q p" "wf_seg q" using assms by auto
  then show "before p q" using pq by (cases "snd q") (auto simp: before_def wf_seg_def word_le_nat_alt)
qed

lemma seg_bytes_append:
  assumes "unat s = unat l + length ld"
  shows "seg_bytes (l, ld @ d) = seg_bytes (l, ld) \<union> seg_bytes (s, d)"
proof -
  have "(x, b) \<in> seg_bytes (l, ld @ d) \<longleftrightarrow> (x, b) \<in> seg_bytes (l, ld) \<union> seg_bytes (s, d)" for x b
    using assms by (cases "x < unat s") (auto simp: seg_bytes_iff nth_append)
  then show ?thesis by auto
qed

lemma merge_segment_last:
  assumes "sorted_wrt sbefore acc" "\<forall>p \<in> set acc. wf_seg p" "wf_seg seg"
    and "acc \<noteq> [] \<Longrightarrow> before (last acc) seg"
  shows "sorted_wrt sbefore (merge_segment acc seg) \<and> (\<forall>p \<in> set (merge_segment acc seg). wf_seg p) \<and>
    buf_bytes (merge_segment acc seg) = buf_bytes acc \<union> seg_bytes seg \<and> merge_segment acc seg \<noteq> [] \<and>
    unat (fst (last (merge_segment acc seg))) + length (snd (last (merge_segment acc seg)))
      = unat (fst seg) + length (snd seg)"
proof (cases acc rule: rev_cases)
  case Nil
  then show ?thesis using assms by (simp add: merge_segment_def split_beta)
next
  case (snoc ys l)
  obtain ls ld s d where p: "l = (ls, ld)" "seg = (s, d)" by (cases l; cases seg)
  have w: "wf_seg (ls, ld)" "wf_seg (s, d)" "sorted_wrt sbefore ys" "\<forall>q \<in> set ys. wf_seg q"
    "\<forall>q \<in> set ys. sbefore q (ls, ld)" "unat ls + length ld \<le> unat s"
    using assms snoc p by (auto simp: sorted_wrt_append before_def)
  have e: "unat (ls + word_of_nat (length ld)) = unat ls + length ld" using w(1) by (rule seg_end)
  show ?thesis
  proof (cases "s \<le> ls + word_of_nat (length ld)")
    case True
    then have eq: "unat s = unat ls + length ld" using w(6) e by (simp add: word_le_nat_alt)
    then have "ls + word_of_nat (length ld) = s" using e by (simp add: word_unat_eq_iff)
    then have m: "merge_segment acc seg = ys @ [(ls, ld @ d)]"
      using True w(2) snoc p by (simp add: merge_segment_def wf_seg_def)
    show ?thesis
      unfolding m using w eq snoc p seg_bytes_append [OF eq, of d]
      by (auto simp: sorted_wrt_append sbefore_def wf_seg_def)
  next
    case False
    then have lt: "unat ls + length ld < unat s" using e by (simp add: word_le_nat_alt)
    have m: "merge_segment acc seg = acc @ [(s, d)]"
      using False snoc p by (simp add: merge_segment_def)
    show ?thesis
      unfolding m using w lt snoc p by (fastforce simp: sorted_wrt_append sbefore_def)
  qed
qed

lemma merge_segments:
  assumes "sorted_wrt sbefore acc" "\<forall>p \<in> set acc. wf_seg p" "\<forall>p \<in> set segs. wf_seg p" "sorted_wrt before segs"
    and "acc \<noteq> [] \<Longrightarrow> \<forall>q \<in> set segs. before (last acc) q"
  shows "sorted_wrt sbefore (foldl merge_segment acc segs) \<and> (\<forall>p \<in> set (foldl merge_segment acc segs). wf_seg p) \<and>
    buf_bytes (foldl merge_segment acc segs) = buf_bytes acc \<union> buf_bytes segs"
  using assms
proof (induction segs arbitrary: acc)
  case (Cons seg segs)
  have m: "sorted_wrt sbefore (merge_segment acc seg)" "\<forall>p \<in> set (merge_segment acc seg). wf_seg p"
    "buf_bytes (merge_segment acc seg) = buf_bytes acc \<union> seg_bytes seg"
    "unat (fst (last (merge_segment acc seg))) + length (snd (last (merge_segment acc seg)))
      = unat (fst seg) + length (snd seg)"
    using merge_segment_last [of acc seg] Cons.prems by simp_all
  have "\<forall>q \<in> set segs. before (last (merge_segment acc seg)) q"
    using m(4) Cons.prems(4) by (simp add: before_def)
  then show ?case using Cons.IH [OF m(1,2)] m(3) Cons.prems by (simp add: Un_assoc)
qed simp

lemma sbefore_imp_before: "sbefore p q \<Longrightarrow> before p q"
  by (simp add: sbefore_def before_def)

lemma sorted_sbefore_wf_buf:
  assumes "sorted_wrt sbefore segs" "\<forall>p \<in> set segs. wf_seg p"
  shows "wf_buf segs"
proof -
  have "sorted_wrt before segs" using sorted_wrt_mono_rel [OF _ assms(1)] sbefore_imp_before by blast
  then have d: "distinct (map fst segs)" using before_distinct assms(2) by blast
  have "sbefore p q \<or> sbefore q p" if "p \<in> set segs" "q \<in> set segs" "p \<noteq> q" for p q
    using that assms(1) by (rule sorted_wrt_total [rotated])
  then show ?thesis using d assms(2) by (simp add: wf_buf_def)
qed

lemma coalesce_bytes:
  assumes "distinct (map fst buf)" "\<forall>seg \<in> set buf. wf_seg seg"
    and "\<And>p q. p \<in> set buf \<Longrightarrow> q \<in> set buf \<Longrightarrow> p \<noteq> q \<Longrightarrow> before p q \<or> before q p"
  shows "wf_buf (coalesce_stream_recv_data buf) \<and> buf_bytes (coalesce_stream_recv_data buf) = buf_bytes buf"
proof -
  let ?m = "foldl merge_segment [] (sort_key fst buf)"
  have m: "sorted_wrt sbefore ?m" "\<forall>p \<in> set ?m. wf_seg p" "buf_bytes ?m = buf_bytes buf"
    using merge_segments [of "[]" "sort_key fst buf"] sort_before [OF assms] assms(2)
      buf_bytes_set_cong [of "sort_key fst buf" buf] by simp_all
  then have "wf_buf ?m" by (intro sorted_sbefore_wf_buf)
  moreover have "coalesce_stream_recv_data buf = ?m"
    using insert_all_append [of ?m "[]"] \<open>wf_buf ?m\<close> by (simp add: coalesce_stream_recv_data_def wf_buf_def)
  ultimately show ?thesis using m by simp
qed


lemma rset_segment_ranges:
  assumes "\<forall>seg \<in> set buf. wf_seg seg"
  shows "rset (sort_key fst (map segment_range buf)) = covered (buf_bytes buf)"
proof -
  have "rset (map segment_range buf) = (\<Union>seg \<in> set buf. {unat (fst seg)..<unat (fst seg) + length (snd seg)})"
    unfolding rset_def set_map image_image UN_simps
    using assms seg_end [of "fst seg" "snd seg" for seg] by (intro SUP_cong) (auto simp: segment_range_def)
  then show ?thesis
    using rset_set_cong [of "sort_key fst (map segment_range buf)" "map segment_range buf"] by (simp add: covered_buf)
qed

lemma start_covered: "wf_seg seg \<Longrightarrow> seg \<in> set buf \<Longrightarrow> unat (fst seg) \<in> covered (buf_bytes buf)"
  unfolding covered_buf by (force simp: wf_seg_def)

lemma disjoint_before:
  assumes "wf_seg p" "wf_seg q" "covered (seg_bytes p) \<inter> covered (seg_bytes q) = {}"
  shows "before p q \<or> before q p"
proof (rule ccontr)
  assume "\<not> (before p q \<or> before q p)"
  then have "max (unat (fst p)) (unat (fst q)) \<in> covered (seg_bytes p) \<inter> covered (seg_bytes q)"
    using assms(1,2) by (auto simp: before_def wf_seg_def)
  then show False using assms(3) by blast
qed

lemma buffer_bytes:
  assumes "wf_buf buf" "data = [] \<or> wf_seg (offset, data)"
  shows "wf_buf (buffer_stream_recv_data buf offset data) \<and>
    buf_bytes (buffer_stream_recv_data buf offset data)
      = buf_bytes buf \<union> {p \<in> seg_bytes (offset, data). fst p \<notin> covered (buf_bytes buf)}"
proof (cases "data = []")
  case True
  then show ?thesis using assms(1) by (auto simp: buffer_stream_recv_data_def seg_bytes_def)
next
  case False
  then have w: "wf_seg (offset, data)" using assms(2) by simp
  have b: "\<forall>seg \<in> set buf. wf_seg seg" "distinct (map fst buf)"
    "\<And>p q. p \<in> set buf \<Longrightarrow> q \<in> set buf \<Longrightarrow> p \<noteq> q \<Longrightarrow> before p q \<or> before q p"
    using assms(1) sbefore_imp_before unfolding wf_buf_def by blast+
  let ?rs = "sort_key fst (map segment_range buf)"
  have c: "case cut_existing ?rs [(offset, data)] of
      None \<Rightarrow> covered (buf_bytes [(offset, data)]) \<subseteq> covered (buf_bytes buf)
    | Some segs \<Rightarrow> buf_bytes segs = {p \<in> seg_bytes (offset, data). fst p \<notin> covered (buf_bytes buf)} \<and>
        (\<forall>seg \<in> set segs. wf_seg seg) \<and> sorted_wrt before segs"
    using cut_existing_bytes [of "[(offset, data)]" ?rs] w rset_segment_ranges [OF b(1)] by (auto split: option.splits)
  show ?thesis
  proof (cases "cut_existing ?rs [(offset, data)]")
    case None
    then have "{p \<in> seg_bytes (offset, data). fst p \<notin> covered (buf_bytes buf)} = {}" using c by (force simp: seg_bytes_def)
    then have e: "buf_bytes buf \<union> {p \<in> seg_bytes (offset, data). fst p \<notin> covered (buf_bytes buf)} = buf_bytes buf"
      by blast
    show ?thesis unfolding e using None False assms(1) by (simp add: buffer_stream_recv_data_def Let_def)
  next
    case (Some segs)
    then have s: "buf_bytes segs = {p \<in> seg_bytes (offset, data). fst p \<notin> covered (buf_bytes buf)}"
        "\<forall>seg \<in> set segs. wf_seg seg" "sorted_wrt before segs" using c by simp_all
    have disj: "covered (buf_bytes segs) \<inter> covered (buf_bytes buf) = {}" unfolding s(1) by auto
    have keys: "fst ` set segs \<inter> fst ` set buf = {}"
      using disj start_covered s(2) b(1) by (fastforce simp: disjoint_iff)
    have dsegs: "distinct (map fst segs)" using before_distinct s by blast
    have "before p q \<or> before q p" if "p \<in> set (buf @ segs)" "q \<in> set (buf @ segs)" "p \<noteq> q" for p q
    proof -
      note pq = that
      have x: "before p q \<or> before q p" if "p \<in> set segs" "q \<in> set buf" for p q
      proof (rule disjoint_before)
        have "covered (seg_bytes p) \<subseteq> covered (buf_bytes segs)" "covered (seg_bytes q) \<subseteq> covered (buf_bytes buf)"
          unfolding buf_bytes_def using that by blast+
        then show "covered (seg_bytes p) \<inter> covered (seg_bytes q) = {}" using disj by blast
      qed (use that s(2) b(1) in blast)+
      consider "p \<in> set buf" "q \<in> set buf" | "p \<in> set segs" "q \<in> set segs"
        | "p \<in> set segs" "q \<in> set buf" | "p \<in> set buf" "q \<in> set segs"
        using pq(1,2) by auto
      then show ?thesis
        using x [of p q] x [of q p] b(3) [of p q] sorted_wrt_total [OF s(3), of p q] pq(3) by cases blast+
    qed
    then have "wf_buf (coalesce_stream_recv_data (buf @ segs)) \<and>
        buf_bytes (coalesce_stream_recv_data (buf @ segs)) = buf_bytes (buf @ segs)"
      using keys dsegs b s(2) by (intro coalesce_bytes) auto
    then show ?thesis
      using Some False s(1) insert_all_append [OF dsegs keys] by (simp add: buffer_stream_recv_data_def Let_def)
  qed
qed

section \<open>Reading\<close>

text \<open>Every buffered segment lies at or after the read position: nothing stale is left behind.\<close>

definition no_stale :: "u64 \<Rightarrow> (u64, bytes) HashMap \<Rightarrow> bool" where
  "no_stale offset buf \<longleftrightarrow> (\<forall>seg \<in> set buf. offset \<le> fst seg)"

lemma seg_bytes_Nil [simp]: "seg_bytes (s, []) = {}"
  by (auto simp: seg_bytes_def)

lemma wf_buf_delete:
  assumes "wf_buf buf" "map_of buf offset = Some data"
  shows "wf_buf (AList.delete offset buf)" "wf_seg (offset, data)"
    "buf_bytes buf = seg_bytes (offset, data) \<union> buf_bytes (AList.delete offset buf)"
    "\<forall>seg \<in> set (AList.delete offset buf). sbefore (offset, data) seg \<or> sbefore seg (offset, data)"
proof -
  have m: "(offset, data) \<in> set buf" using assms(2) by (rule map_of_SomeD)
  have s: "set (AList.delete offset buf) = set buf - {(offset, data)}"
    using assms m unfolding AList.delete_eq wf_buf_def by (auto dest: eq_key_imp_eq_value)
  show "wf_seg (offset, data)" using assms(1) m by (simp add: wf_buf_def)
  show "wf_buf (AList.delete offset buf)"
    using assms(1) s unfolding wf_buf_def by (simp add: distinct_delete)
  show "buf_bytes buf = seg_bytes (offset, data) \<union> buf_bytes (AList.delete offset buf)"
    unfolding buf_bytes_def s using m by blast
  show "\<forall>seg \<in> set (AList.delete offset buf). sbefore (offset, data) seg \<or> sbefore seg (offset, data)"
    using assms(1) m unfolding s wf_buf_def by (metis DiffE insertI1)
qed

lemma seg_bytes_split:
  assumes "wf_seg (s, d)" "n \<le> length d"
  shows "seg_bytes (s, d) = seg_bytes (s, take n d) \<union> seg_bytes (s + word_of_nat n, drop n d)"
proof -
  have "unat (s + word_of_nat n) = unat s + n"
    using assms by (simp add: wf_seg_def unat_word_ariths unsigned_of_nat take_bit_nat_eq_self)
  then show ?thesis using seg_bytes_append [of "s + word_of_nat n" s "take n d" "drop n d"] assms(2) by simp
qed


lemma no_adjacent_segment:
  assumes "wf_buf buf" "map_of buf offset = Some data"
  shows "map_of (AList.delete offset buf) (offset + word_of_nat (length data)) = None"
proof (rule ccontr)
  assume "map_of (AList.delete offset buf) (offset + word_of_nat (length data)) \<noteq> None"
  then obtain d where d: "(offset + word_of_nat (length data), d) \<in> set (AList.delete offset buf)"
    by (auto dest: map_of_SomeD)
  note w = wf_buf_delete [OF assms]
  have "sbefore (offset, data) (offset + word_of_nat (length data), d) \<or>
        sbefore (offset + word_of_nat (length data), d) (offset, data)" using w(4) d by blast
  then show False using seg_end [OF w(2)] by (simp add: sbefore_def)
qed

lemma read_loop_wf:
  assumes "wf_buf buf"
  shows "read_loop want offset buf =
    (if want = 0 then ([], offset, buf)
     else case map_of buf offset of
       None \<Rightarrow> ([], offset, buf)
     | Some data \<Rightarrow>
         if want < length data
         then (take want data, offset + word_of_nat want,
               buffer_stream_recv_data (AList.delete offset buf) (offset + word_of_nat want) (drop want data))
         else (data, offset + word_of_nat (length data), AList.delete offset buf))"
proof -
  have z: "read_loop 0 off b = ([], off, b)" for off b by (simp add: read_loop.simps)
  have n: "read_loop k off b = ([], off, b)" if "map_of b off = None" for k off b
    using that by (simp add: read_loop.simps)
  show ?thesis
  proof (cases "map_of buf offset")
    case None
    then show ?thesis by (simp add: n)
  next
    case (Some data)
    show ?thesis
      using n [OF no_adjacent_segment [OF assms Some]] Some z
      by (subst read_loop.simps) (simp add: Let_def min_def)
  qed
qed

lemma read_loop_correct:
  assumes w: "wf_buf buf" and r: "read_loop want offset buf = (out, offset', buf')"
  shows "wf_buf buf' \<and> length out \<le> want \<and> offset' = offset + word_of_nat (length out) \<and>
    (out \<noteq> [] \<longrightarrow> wf_seg (offset, out)) \<and>
    buf_bytes buf = seg_bytes (offset, out) \<union> buf_bytes buf' \<and>
    covered (seg_bytes (offset, out)) \<inter> covered (buf_bytes buf') = {}"
proof (cases "want = 0 \<or> map_of buf offset = None")
  case True
  then have "out = [] \<and> offset' = offset \<and> buf' = buf"
    using r [unfolded read_loop_wf [OF w]] by (auto split: if_splits)
  then show ?thesis using w by simp
next
  case False
  then obtain data where d: "map_of buf offset = Some data" "0 < want" by auto
  note del = wf_buf_delete [OF w d(1)]
  have sep: "covered (seg_bytes (offset, data)) \<inter> covered (buf_bytes (AList.delete offset buf)) = {}"
    using del(4) unfolding covered_buf covered_seg by (force simp: sbefore_def disjoint_iff)
  show ?thesis
  proof (cases "want < length data")
    case True
    let ?o = "offset + word_of_nat want"
    have o: "out = take want data" "offset' = ?o"
      "buf' = buffer_stream_recv_data (AList.delete offset buf) ?o (drop want data)"
      using True d r [unfolded read_loop_wf [OF w]] by auto
    have u: "unat ?o = unat offset + want"
      using del(2) True by (simp add: wf_seg_def unat_word_ariths unsigned_of_nat take_bit_nat_eq_self)
    have wd: "wf_seg (?o, drop want data)" using del(2) True u by (simp add: wf_seg_def)
    have sp: "seg_bytes (offset, data) = seg_bytes (offset, take want data) \<union> seg_bytes (?o, drop want data)"
      using seg_bytes_split [OF del(2)] True by simp
    have fresh: "{p \<in> seg_bytes (?o, drop want data). fst p \<notin> covered (buf_bytes (AList.delete offset buf))}
        = seg_bytes (?o, drop want data)"
      using sep sp by (auto simp: disjoint_iff)
    have b: "wf_buf buf'" "buf_bytes buf' = buf_bytes (AList.delete offset buf) \<union> seg_bytes (?o, drop want data)"
      using buffer_bytes [OF del(1), of "drop want data" ?o] wd fresh o(3) by simp_all
    have "covered (seg_bytes (offset, take want data)) \<inter> covered (buf_bytes buf') = {}"
      using sep u True unfolding b(2) image_Un covered_seg by (force simp: disjoint_iff)
    then show ?thesis using b o True del(2,3) sp by (auto simp: wf_seg_def)
  next
    case False
    then have "out = data" "offset' = offset + word_of_nat (length data)" "buf' = AList.delete offset buf"
      using d r [unfolded read_loop_wf [OF w]] by auto
    then show ?thesis using False del sep by simp
  qed
qed

lemma no_stale_start:
  assumes "no_stale offset buf" "map_of buf offset = None"
  shows "unat offset \<notin> covered (buf_bytes buf)"
proof
  assume "unat offset \<in> covered (buf_bytes buf)"
  then obtain s d where "(s, d) \<in> set buf" "unat s \<le> unat offset"
    unfolding covered_buf by (auto simp: atLeastLessThan_iff)
  moreover from this have "offset = s" using assms(1) by (force simp: no_stale_def word_le_nat_alt word_unat_eq_iff)
  ultimately show False using assms(2) by (auto simp: map_of_eq_None_iff intro: rev_image_eqI)
qed


lemma read_loop_complete:
  assumes w: "wf_buf buf" and ns: "no_stale offset buf" and r: "read_loop want offset buf = (out, offset', buf')"
  shows "no_stale offset' buf' \<and> (length out = want \<or> unat offset' \<notin> covered (buf_bytes buf))"
proof (cases "want = 0 \<or> map_of buf offset = None")
  case True
  then have "out = [] \<and> offset' = offset \<and> buf' = buf"
    using r [unfolded read_loop_wf [OF w]] by (auto split: if_splits)
  then show ?thesis using True ns no_stale_start [OF ns] by auto
next
  case False
  then obtain data where d: "map_of buf offset = Some data" "0 < want" by auto
  note del = wf_buf_delete [OF w d(1)]
  have above: "unat offset + length data < unat (fst seg)" if "seg \<in> set (AList.delete offset buf)" for seg
  proof -
    have "seg \<in> set buf" using that by (simp add: AList.delete_eq)
    then have "offset \<le> fst seg" using ns by (simp add: no_stale_def)
    then show ?thesis using del(4) that by (fastforce simp: sbefore_def word_le_nat_alt)
  qed
  show ?thesis
  proof (cases "want < length data")
    case True
    let ?o = "offset + word_of_nat want"
    have o: "out = take want data" "offset' = ?o"
      "buf' = buffer_stream_recv_data (AList.delete offset buf) ?o (drop want data)"
      using True d r [unfolded read_loop_wf [OF w]] by auto
    have u: "unat ?o = unat offset + want"
      using del(2) True by (simp add: wf_seg_def unat_word_ariths unsigned_of_nat take_bit_nat_eq_self)
    have wd: "wf_seg (?o, drop want data)" using del(2) True u by (simp add: wf_seg_def)
    note b = buffer_bytes [OF del(1), of "drop want data" ?o]
    have "x \<ge> unat ?o" if "x \<in> covered (buf_bytes buf')" for x
    proof -
      have "x \<in> covered (buf_bytes (AList.delete offset buf)) \<or> x \<in> covered (seg_bytes (?o, drop want data))"
        using that b wd unfolding o(3) by blast
      then show ?thesis using above True u by (force simp: covered_buf)
    qed
    moreover have "\<forall>seg \<in> set buf'. wf_seg seg" using b wd o(3) by (simp add: wf_buf_def)
    ultimately have "no_stale ?o buf'"
      using start_covered [of _ buf'] by (auto simp: no_stale_def word_le_nat_alt)
    then show ?thesis using o True by simp
  next
    case False
    then have o: "out = data" "offset' = offset + word_of_nat (length data)" "buf' = AList.delete offset buf"
      using d r [unfolded read_loop_wf [OF w]] by auto
    have u: "unat offset' = unat offset + length data" using seg_end [OF del(2)] o by simp
    then have "no_stale offset' buf'" using above o by (fastforce simp: no_stale_def word_le_nat_alt)
    moreover have "unat offset' \<notin> covered (buf_bytes buf)"
      unfolding del(3) image_Un using u above by (auto simp: covered_buf dest!: above)
    ultimately show ?thesis by simp
  qed
qed

section \<open>Delivery to the application\<close>

text \<open>What happens to the receiving half of the streams: STREAM and RESET_STREAM frames arrive, the
  application reads.\<close>

datatype recv_event = FrameIn StreamFrame | ResetIn StreamId u64 u64 | ReadOut StreamId nat

text \<open>The bytes delivered so far to the readers of each stream are kept next to the connection.\<close>

fun recv_step :: "recv_event \<Rightarrow> ConnStreams \<times> (StreamId \<Rightarrow> bytes) \<Rightarrow> ConnStreams \<times> (StreamId \<Rightarrow> bytes)" where
  "recv_step (FrameIn sf) (c, out) = (snd (process_stream_frame sf c), out)"
| "recv_step (ResetIn sid code size') (c, out) = (snd (process_reset_stream sid code size' c), out)"
| "recv_step (ReadOut sid n) (c, out) =
     (case stream_recv sid n c of
        (Inl e, c) \<Rightarrow> (c, out)
      | (Inr (bs, fin), c) \<Rightarrow> (c, out(sid := out sid @ bs)))"

text \<open>A frame carries a slice of what the peer wrote to the stream.\<close>

definition slice_of :: "bytes \<Rightarrow> StreamFrame \<Rightarrow> bool" where
  "slice_of src sf \<longleftrightarrow>
     (\<exists>pre post. src = pre @ sf_data sf @ post \<and> length pre = unat (sf_offset sf)) \<and> length src < 2 ^ 64"

fun event_ok :: "(StreamId \<Rightarrow> bytes) \<Rightarrow> recv_event \<Rightarrow> bool" where
  "event_ok src (FrameIn sf) = slice_of (src (sf_stream_id sf)) sf"
| "event_ok src _ = True"

definition stream_holds :: "bytes \<Rightarrow> bytes \<Rightarrow> StreamState \<Rightarrow> bool" where
  "stream_holds src out s \<longleftrightarrow> wf_buf (ss_recv_buf s) \<and> buf_bytes (ss_recv_buf s) \<subseteq> seg_bytes (0, src) \<and>
     out = take (unat (ss_recv_offset s)) src \<and> unat (ss_recv_offset s) \<le> length src"

definition delivery_inv :: "(StreamId \<Rightarrow> bytes) \<Rightarrow> ConnStreams \<Rightarrow> (StreamId \<Rightarrow> bytes) \<Rightarrow> bool" where
  "delivery_inv src c out \<longleftrightarrow> keys_opened (cs_streams c) \<and>
     (\<forall>sid. case sm_get (cs_streams c) sid of
              None \<Rightarrow> out sid = [] | Some s \<Rightarrow> stream_holds (src sid) (out sid) s)"

lemma get_put [simp]: "sm_get (sm_put sid s sm) k = (if k = sid then Some s else sm_get sm k)"
  by (simp add: sm_get_def sm_put_def update_conv')

lemma put_stream_simps [simp]:
  "cs_streams (put_stream sid s c) = sm_put sid s (cs_streams c)"
  "cs_flow_control (put_stream sid s c) = cs_flow_control c"
  "cs_pending_frames (put_stream sid s c) = cs_pending_frames c"
  by (simp_all add: put_stream_def)

lemma fresh_remote_recv [simp]:
  "ss_recv_buf (fresh_remote sm d k) = []" "ss_recv_offset (fresh_remote sm d k) = 0"
  by (simp_all add: fresh_remote_def stream_new_def split_beta)


lemma keys_opened_put:
  "keys_opened sm \<Longrightarrow> sm_get sm sid \<noteq> None \<Longrightarrow> keys_opened (sm_put sid s sm)"
  unfolding keys_opened_def remote_id_def put_frame(3) get_put by (auto simp: sm_put_def)

lemma delivery_put:
  assumes "delivery_inv src c out" "sm_get (cs_streams c) sid = Some s"
    and "cs_streams c' = sm_put sid s' (cs_streams c)" "stream_holds (src sid) (out' sid) s'"
    and "\<And>k. k \<noteq> sid \<Longrightarrow> out' k = out k"
  shows "delivery_inv src c' out'"
proof -
  have "case sm_get (cs_streams c') x of None \<Rightarrow> out' x = [] | Some s \<Rightarrow> stream_holds (src x) (out' x) s" for x
  proof (cases "x = sid")
    case False
    then have "out' x = out x" using assms(5) by simp
    then show ?thesis unfolding assms(3) using assms(1) False by (simp only:) (simp add: delivery_inv_def)
  qed (use assms in simp)
  moreover have "keys_opened (cs_streams c')"
    using assms keys_opened_put [of "cs_streams c" sid s'] by (simp add: delivery_inv_def)
  ultimately show ?thesis by (simp add: delivery_inv_def)
qed

lemma delivery_accept:
  assumes "delivery_inv src c out"
  shows "delivery_inv src (c\<lparr>cs_streams := snd (accept_stream sid (cs_streams c))\<rparr>) out"
proof -
  have k: "keys_opened (cs_streams c)" using assms by (simp add: delivery_inv_def)
  have "case sm_get (snd (accept_stream sid (cs_streams c))) x of
        None \<Rightarrow> out x = [] | Some s \<Rightarrow> stream_holds (src x) (out x) s" for x
  proof -
    have o: "case sm_get (cs_streams c) x of None \<Rightarrow> out x = [] | Some s \<Rightarrow> stream_holds (src x) (out x) s"
      using assms by (simp add: delivery_inv_def)
    consider "sm_get (snd (accept_stream sid (cs_streams c))) x = sm_get (cs_streams c) x"
      | d where "sm_get (cs_streams c) x = None"
        "sm_get (snd (accept_stream sid (cs_streams c))) x = Some (fresh_remote (cs_streams c) d x)"
      using accept_keys [OF k, of sid] by blast
    then show ?thesis using o by cases (auto simp: stream_holds_def)
  qed
  then show ?thesis using accept_keys [OF k, of sid] by (simp add: delivery_inv_def)
qed

lemma delivery_with_accepted:
  assumes "delivery_inv src c out"
    and "\<And>c. delivery_inv src c out \<Longrightarrow> delivery_inv src (snd (k c)) out"
  shows "delivery_inv src (snd (with_accepted sid k c)) out"
proof (cases "sm_get (cs_streams c) sid")
  case None
  note d = delivery_accept [OF assms(1), of sid]
  obtain r sm where a: "accept_stream sid (cs_streams c) = (r, sm)" by (cases "accept_stream sid (cs_streams c)")
  then show ?thesis using None d assms(2) by (cases r) (auto simp: with_accepted_def)
qed (use assms in \<open>simp add: with_accepted_def\<close>)

lemma slice_bytes:
  assumes "slice_of src sf"
  shows "seg_bytes (sf_offset sf, sf_data sf) \<subseteq> seg_bytes (0, src)"
    and "sf_data sf = [] \<or> wf_seg (sf_offset sf, sf_data sf)"
  using assms by (auto simp: slice_of_def seg_bytes_def wf_seg_def nth_append)

lemma finish_stream_frame_buf:
  "ss_recv_buf (snd (finish_stream_frame sf e s)) =
     (if sf_data sf \<noteq> [] then buffer_stream_recv_data (ss_recv_buf s) (sf_offset sf) (sf_data sf) else ss_recv_buf s)
   \<and> ss_recv_offset (snd (finish_stream_frame sf e s)) = ss_recv_offset s"
  by (auto simp: finish_stream_frame_def Let_def split: sum.splits)

lemma holds_frame:
  "stream_holds src out s \<Longrightarrow> ss_recv_buf s' = ss_recv_buf s \<Longrightarrow> ss_recv_offset s' = ss_recv_offset s \<Longrightarrow> stream_holds src out s'"
  by (simp add: stream_holds_def)

lemma holds_finish:
  assumes "stream_holds src out s" "slice_of src sf"
  shows "stream_holds src out (snd (finish_stream_frame sf e s))"
proof -
  note b = buffer_bytes [of "ss_recv_buf s" "sf_data sf" "sf_offset sf"]
  show ?thesis
    using assms b slice_bytes [OF assms(2)] finish_stream_frame_buf [of sf e s]
    by (auto simp: stream_holds_def)
qed

lemma delivery_known_frame:
  assumes "delivery_inv src c out" "sm_get (cs_streams c) (sf_stream_id sf) = Some s" "slice_of (src (sf_stream_id sf)) sf"
  shows "delivery_inv src (snd (process_known_stream_frame sf s c)) out"
proof -
  let ?sid = "sf_stream_id sf"
  have h: "stream_holds (src ?sid) (out ?sid) s" using assms(1,2) by (auto simp: delivery_inv_def split: option.splits)
  have "snd (process_known_stream_frame sf s c) = c \<or>
      (\<exists>s'. cs_streams (snd (process_known_stream_frame sf s c)) = sm_put ?sid s' (cs_streams c) \<and>
         stream_holds (src ?sid) (out ?sid) s')"
    using holds_finish [OF _ assms(3)] holds_frame [OF h]
    by (auto simp: process_known_stream_frame_def Let_def split_beta split: option.splits)
  then show ?thesis
  proof
    assume "\<exists>s'. cs_streams (snd (process_known_stream_frame sf s c)) = sm_put ?sid s' (cs_streams c) \<and>
         stream_holds (src ?sid) (out ?sid) s'"
    then show ?thesis using delivery_put [OF assms(1,2)] by blast
  qed (use assms in simp)
qed


lemma delivery_stream_frame:
  assumes "delivery_inv src c out" "slice_of (src (sf_stream_id sf)) sf"
  shows "delivery_inv src (snd (process_stream_frame sf c)) out"
  unfolding process_stream_frame_def
  using assms delivery_known_frame
  by (intro delivery_with_accepted) (auto split: option.splits)

lemma delivery_reset:
  assumes "delivery_inv src c out"
  shows "delivery_inv src (snd (process_reset_stream sid code size' c)) out"
  unfolding process_reset_stream_def
proof (rule delivery_with_accepted [OF assms], goal_cases)
  case (1 c)
  show ?case
  proof (cases "sm_get (cs_streams c) sid")
    case (Some s)
    have "stream_holds (src sid) (out sid) (s\<lparr>ss_final_size := Some size', ss_reset_error_code := Some code,
        ss_recv_buf := [], ss_recv := Some RsResetRecvd\<rparr>)"
      using 1 Some by (auto simp: delivery_inv_def stream_holds_def split: option.splits)
    then show ?thesis
      using 1 Some delivery_put [OF 1 Some, of "put_stream sid _ c" _ out] by (auto split: sum.splits)
  qed (use 1 in simp)
qed

lemma holds_read:
  assumes "stream_holds src out s" "read_loop n (ss_recv_offset s) (ss_recv_buf s) = (bs, offset, buf)"
  shows "stream_holds src (out @ bs) (s\<lparr>ss_recv_offset := offset, ss_recv_buf := buf\<rparr>)"
proof -
  have h: "wf_buf (ss_recv_buf s)" "buf_bytes (ss_recv_buf s) \<subseteq> seg_bytes (0, src)"
    "out = take (unat (ss_recv_offset s)) src" "unat (ss_recv_offset s) \<le> length src"
    using assms(1) by (auto simp: stream_holds_def)
  note r = read_loop_correct [OF h(1) assms(2)]
  let ?o = "ss_recv_offset s"
  show ?thesis
  proof (cases "bs = []")
    case True
    then show ?thesis using r h by (simp add: stream_holds_def)
  next
    case False
    then have w: "wf_seg (?o, bs)" using r by simp
    have u: "unat offset = unat ?o + length bs" using r seg_end [OF w] by simp
    have sub: "seg_bytes (?o, bs) \<subseteq> seg_bytes (0, src)" using r h(2) by blast
    have at: "unat ?o + i < length src \<and> src ! (unat ?o + i) = bs ! i" if "i < length bs" for i
    proof -
      have "(unat ?o + i, bs ! i) \<in> seg_bytes (?o, bs)" using that by (simp add: seg_bytes_iff)
      then have "(unat ?o + i, bs ! i) \<in> seg_bytes (0, src)" using sub by blast
      then show ?thesis by (simp add: seg_bytes_iff)
    qed
    then have "unat ?o + (length bs - 1) < length src" using False by (metis diff_less length_greater_0_conv zero_less_one)
    then have l: "unat offset \<le> length src" using u False by (cases bs) auto
    have "take (length bs) (drop (unat ?o) src) = bs"
      using at l u by (intro nth_equalityI) auto
    then have "out @ bs = take (unat offset) src" using h(3) u by (simp add: take_add)
    then show ?thesis using r h l by (auto simp: stream_holds_def)
  qed
qed

lemma recv_state_holds:
  assumes "stream_holds src out s"
  shows "case stream_recv_state n s of
      (Inl e, s') \<Rightarrow> stream_holds src out s' | (Inr (bs, fin), s') \<Rightarrow> stream_holds src (out @ bs) s'"
proof (cases "ss_recv s = Some RsResetRecvd")
  case True
  then show ?thesis using assms by (simp add: stream_recv_state_def stream_holds_def)
next
  case False
  obtain bs offset buf where r: "read_loop n (ss_recv_offset s) (ss_recv_buf s) = (bs, offset, buf)"
    by (metis prod_cases3)
  have "stream_holds src (out @ bs) (s\<lparr>ss_recv_offset := offset, ss_recv_buf := buf\<rparr>)"
    using holds_read [OF assms r] .
  then show ?thesis
    using False r by (auto simp: stream_recv_state_def stream_holds_def Let_def split: option.splits)
qed

lemma delivery_read:
  assumes "delivery_inv src c out"
  shows "case recv_step (ReadOut sid n) (c, out) of (c', out') \<Rightarrow> delivery_inv src c' out'"
proof (cases "sm_get (cs_streams c) sid")
  case None
  then show ?thesis using assms by (simp add: stream_recv_def)
next
  case (Some s)
  have h: "stream_holds (src sid) (out sid) s" using assms Some by (auto simp: delivery_inv_def split: option.splits)
  obtain r s' where rs: "stream_recv_state n s = (r, s')" by (cases "stream_recv_state n s")
  note q = recv_state_holds [OF h, of n, unfolded rs]
  show ?thesis
  proof (cases "ss_recv s = None")
    case True
    then show ?thesis using assms Some by (simp add: stream_recv_def)
  next
    case False
    show ?thesis
    proof (cases r)
      case (Inl e)
      then show ?thesis using False Some rs q delivery_put [OF assms Some, of "put_stream sid s' c" s' out] assms
        by (auto simp: stream_recv_def)
    next
      case (Inr p)
      obtain bs fin where p: "p = (bs, fin)" by (cases p)
      then show ?thesis
        using Inr False Some rs q delivery_put [OF assms Some, of "put_stream sid s' c" s' "out(sid := out sid @ bs)"] assms
        by (auto simp: stream_recv_def)
    qed
  qed
qed

lemma delivery_run:
  assumes "delivery_inv src c out" "\<forall>e \<in> set es. event_ok src e"
  shows "case fold recv_step es (c, out) of (c', out') \<Rightarrow> delivery_inv src c' out'"
  using assms
proof (induction es arbitrary: c out)
  case (Cons e es)
  obtain c1 out1 where s: "recv_step e (c, out) = (c1, out1)" by (metis surj_pair)
  have "delivery_inv src c1 out1"
  proof (cases e)
    case (FrameIn sf)
    then show ?thesis using s Cons.prems delivery_stream_frame [OF Cons.prems(1), of sf] by auto
  next
    case (ResetIn sid code size')
    then show ?thesis using s delivery_reset [OF Cons.prems(1)] by auto
  next
    case (ReadOut sid n)
    then show ?thesis using s delivery_read [OF Cons.prems(1), of sid n] by (simp del: recv_step.simps)
  qed
  then show ?case using Cons s by simp
qed simp


text \<open>C3: whatever the order, overlap and repetition in which STREAM frames carrying slices of what the
  peer wrote arrive, and however reads and resets are interleaved with them, the bytes handed to the
  application on each stream are a prefix of what the peer wrote to it.\<close>

theorem stream_delivery_prefix:
  assumes "\<forall>e \<in> set es. event_ok src e" "streams (cs_streams c) = []"
    and "fold recv_step es (c, \<lambda>_. []) = (c', out)"
  shows "\<exists>rest. src sid = out sid @ rest"
proof -
  have "delivery_inv src c (\<lambda>_. [])"
    using assms(2) by (simp add: delivery_inv_def keys_opened_def sm_get_def)
  then have "delivery_inv src c' out" using delivery_run [OF _ assms(1)] assms(3) by fastforce
  then have "out sid = [] \<or> (\<exists>n. out sid = take n (src sid))"
    by (auto simp: delivery_inv_def stream_holds_def split: option.splits)
  then show ?thesis by (metis append_Nil append_take_drop_id)
qed

definition example_conn :: ConnStreams where
  "example_conn = \<lparr>cs_streams = sm_new Server 4 4 100, cs_flow_control = cfc_new 100 100, cs_pending_frames = []\<rparr>"

definition example_frame :: "u64 \<Rightarrow> bytes \<Rightarrow> StreamFrame" where
  "example_frame offset data = \<lparr>sf_stream_id = 0, sf_offset = offset, sf_fin = False, sf_data = data\<rparr>"

lemmas stream_eval = example_conn_def example_frame_def process_stream_frame_def with_accepted_def sm_get_def
  accept_stream_def sm_new_def is_local_initiated_def initiated_by_def stream_initiator_def stream_direction_def
  remote_stream_base_def checked_sub_def open_remote_def initial_limits_for_stream_def stream_new_def sfc_new_def
  process_known_stream_frame_def checked_add_def sfc_on_data_received_def cfc_on_data_received_def cfc_new_def
  sfc_check_recv_limit_def cfc_check_recv_limit_def finish_stream_frame_def buffer_stream_recv_data_def
  coalesce_stream_recv_data_def merge_segment_def insert_all_def cut_segment_def segment_range_def put_stream_def
  sm_put_def stream_recv_def stream_recv_state_def read_loop.simps stream_has_received_all_data_def Let_def

theorem stream_delivery_prefix_witness:
  "let es = [FrameIn (example_frame 2 [3, 4]), FrameIn (example_frame 0 [1, 2]), ReadOut 0 3];
       src = (\<lambda>_. [1, 2, 3, 4, 5])
   in list_all (event_ok src) es \<and> snd (fold recv_step es (example_conn, \<lambda>_. [])) 0 = [1, 2, 3] \<and>
      (\<exists>rest. src 0 = snd (fold recv_step es (example_conn, \<lambda>_. [])) 0 @ rest)"
proof -
  let ?es = "[FrameIn (example_frame 2 [3, 4]), FrameIn (example_frame 0 [1, 2]), ReadOut 0 3]"
  let ?src = "\<lambda>_ :: StreamId. [1, 2, 3, 4, 5 :: u8]"
  have "slice_of [1, 2, 3, 4, 5] (example_frame 2 [3, 4])"
    unfolding slice_of_def by (intro conjI exI [of _ "[1, 2]"] exI [of _ "[5]"]) (simp_all add: example_frame_def)
  moreover have "slice_of [1, 2, 3, 4, 5] (example_frame 0 [1, 2])"
    unfolding slice_of_def by (intro conjI exI [of _ "[]"] exI [of _ "[3, 4, 5]"]) (simp_all add: example_frame_def)
  ultimately have ok: "\<forall>e \<in> set ?es. event_ok ?src e" by (simp add: example_frame_def)
  have e: "streams (cs_streams example_conn) = []" by (simp add: example_conn_def sm_new_def)
  obtain c out where f: "fold recv_step ?es (example_conn, \<lambda>_. []) = (c, out)" by (metis surj_pair)
  have o: "snd (fold recv_step ?es (example_conn, \<lambda>_. [])) 0 = [1, 2, 3]" by (simp add: stream_eval)
  show ?thesis
    using ok o stream_delivery_prefix [OF ok e f, of 0] f unfolding Let_def by (simp add: list_all_iff)
qed


definition example_stream :: StreamState where
  "example_stream = (stream_new 0 Bidirectional False 100 100)\<lparr>ss_recv_offset := 4, ss_recv_buf := [(4, [7, 8, 9])]\<rparr>"


text \<open>The condition on stale segments is needed.  A segment that was read already and is retransmitted
  after its read is buffered again below the read position; the next segment is then merged into it,
  and no read finds it any more although its bytes were received.\<close>

lemma retransmission_stalls_reader:
  "let es = [FrameIn (example_frame 0 [1, 2]), ReadOut 0 10, FrameIn (example_frame 0 [1, 2]),
             FrameIn (example_frame 2 [3, 4]), ReadOut 0 10, ReadOut 0 10];
       (c, out) = fold recv_step es (example_conn, \<lambda>_. []);
       s = the (sm_get (cs_streams c) 0)
   in out 0 = [1, 2] \<and> ss_recv_offset s = 2 \<and> ss_recv_buf s = [(0, [1, 2, 3, 4])]"
  by (simp add: stream_eval)

section \<open>Sending\<close>

lemma unat_min_window:
  assumes "length data < 2 ^ 64"
  shows "unat (min (word_of_nat (length data)) (w :: u64)) = min (length data) (unat w)"
  using assms by (auto simp: min_def word_le_nat_alt unsigned_of_nat take_bit_nat_eq_self)

lemma unat_add_within:
  assumes "unat (a :: u64) + n \<le> unat (m :: u64)"
  shows "unat (a + word_of_nat n) = unat a + n"
proof -
  have "unat a + n < 2 ^ 64" using assms unat_u64_less [of m] by linarith
  then show ?thesis by (simp add: unat_word_ariths unsigned_of_nat take_bit_nat_eq_self)
qed

lemma stream_send_cases:
  assumes "sm_get (cs_streams c) sid = Some s" "stream_send state kind sid data fin c = (Inr n, c')"
  shows "n = unat (min (word_of_nat (length data)) (min (sfc_send_window (ss_flow_control s)) (cfc_send_window (cs_flow_control c)))) \<and>
    (0 < n \<or> fin \<and> n = length data \<longrightarrow>
          (\<exists>s'. sm_get (cs_streams c') sid = Some s' \<and>
             ss_flow_control s' = sfc_on_data_sent (word_of_nat n) (ss_flow_control s) \<and>
             ss_send_offset s' = ss_send_offset s + word_of_nat n) \<and>
          cs_flow_control c' = cfc_on_data_sent (word_of_nat n) (cs_flow_control c) \<and>
          cs_pending_frames c' = cs_pending_frames c @
            [(SpApplicationData, Stream \<lparr>sf_stream_id = sid, sf_offset = ss_send_offset s,
                sf_fin = (fin \<and> n = length data), sf_data = take n data\<rparr>)]) \<and>
    (\<not> (0 < n \<or> fin \<and> n = length data) \<longrightarrow> c' = c)"
proof -
  define w where "w = unat (min (word_of_nat (length data)) (min (sfc_send_window (ss_flow_control s)) (cfc_send_window (cs_flow_control c))))"
  have n: "n = w"
    using assms unfolding w_def by (auto simp: stream_send_def Let_def split: if_splits)
  show ?thesis
    using assms n unfolding w_def [symmetric]
    by (cases "0 < w \<or> fin \<and> w = length data")
      (auto simp: stream_send_def Let_def w_def [symmetric] push_pending_def put_stream_def split: if_splits)
qed

text \<open>C16: writing to a stream takes exactly as many bytes as both the stream's and the connection's send
  window allow, charges both, queues one STREAM frame with those bytes at the stream's send offset, and
  puts the FIN only on the frame that carries the last byte.\<close>

theorem stream_send_within_windows:
  assumes "sm_get (cs_streams c) sid = Some s" "length data < 2 ^ 64"
    and "stream_send state kind sid data fin c = (Inr n, c')"
    and "sfc_sent (ss_flow_control s) \<le> sfc_send_max (ss_flow_control s)"
    and "cfc_sent (cs_flow_control c) \<le> cfc_send_max (cs_flow_control c)"
  defines "window \<equiv> min (unat (sfc_send_max (ss_flow_control s)) - unat (sfc_sent (ss_flow_control s)))
                        (unat (cfc_send_max (cs_flow_control c)) - unat (cfc_sent (cs_flow_control c)))"
  shows "n = min (length data) window \<and>
    unat (cfc_sent (cs_flow_control c')) = unat (cfc_sent (cs_flow_control c)) + n \<and>
    cfc_sent (cs_flow_control c') \<le> cfc_send_max (cs_flow_control c') \<and>
    (\<exists>s'. sm_get (cs_streams c') sid = Some s' \<and>
       unat (sfc_sent (ss_flow_control s')) = unat (sfc_sent (ss_flow_control s)) + n \<and>
       sfc_sent (ss_flow_control s') \<le> sfc_send_max (ss_flow_control s') \<and>
       ss_send_offset s' = ss_send_offset s + word_of_nat n) \<and>
    cs_pending_frames c' = cs_pending_frames c @
      (if 0 < n \<or> fin \<and> n = length data
       then [(SpApplicationData, Stream \<lparr>sf_stream_id = sid, sf_offset = ss_send_offset s,
               sf_fin = (fin \<and> n = length data), sf_data = take n data\<rparr>)] else [])"
proof -
  note sc = stream_send_cases [OF assms(1,3)]
  have n: "n = min (length data) window"
    unfolding sc [THEN conjunct1] unat_min_window [OF assms(2)]
    by (simp add: sfc_send_window_def cfc_send_window_def window_def min_def word_le_nat_alt)
  then have b: "unat (sfc_sent (ss_flow_control s)) + n \<le> unat (sfc_send_max (ss_flow_control s))"
      "unat (cfc_sent (cs_flow_control c)) + n \<le> unat (cfc_send_max (cs_flow_control c))"
    using assms(4,5) unfolding window_def by (auto simp: word_le_nat_alt)
  note a = b [THEN unat_add_within]
  have m: "cfc_send_max (cfc_on_data_sent k (cs_flow_control c)) = cfc_send_max (cs_flow_control c)"
      "sfc_send_max (sfc_on_data_sent k (ss_flow_control s)) = sfc_send_max (ss_flow_control s)" for k
    by (simp_all add: cfc_on_data_sent_def sfc_on_data_sent_def)
  show ?thesis
  proof (cases "0 < n \<or> fin \<and> n = length data")
    case True
    then obtain s' where s': "sm_get (cs_streams c') sid = Some s'"
        "ss_flow_control s' = sfc_on_data_sent (word_of_nat n) (ss_flow_control s)"
        "ss_send_offset s' = ss_send_offset s + word_of_nat n"
      and c': "cs_flow_control c' = cfc_on_data_sent (word_of_nat n) (cs_flow_control c)"
        "cs_pending_frames c' = cs_pending_frames c @
            [(SpApplicationData, Stream \<lparr>sf_stream_id = sid, sf_offset = ss_send_offset s,
                sf_fin = (fin \<and> n = length data), sf_data = take n data\<rparr>)]"
      using sc by blast
    have e: "cfc_sent (cfc_on_data_sent (word_of_nat n) (cs_flow_control c)) = cfc_sent (cs_flow_control c) + word_of_nat n"
      "sfc_sent (sfc_on_data_sent (word_of_nat n) (ss_flow_control s)) = sfc_sent (ss_flow_control s) + word_of_nat n"
      by (simp_all add: cfc_on_data_sent_def sfc_on_data_sent_def)
    show ?thesis
      unfolding c' m e a using True s' b by (intro conjI exI [of _ s'] n) (simp_all add: e m a word_le_nat_alt)
  next
    case False
    then have c': "c' = c" and n0: "n = 0" using sc by auto
    show ?thesis
      unfolding c' using False assms(1,4,5) by (intro conjI exI [of _ s] n) (simp_all add: n0)
  qed
qed

theorem stream_send_within_windows_witness:
  "let c = snd (process_stream_frame (example_frame 0 [1]) example_conn);
       c' = snd (stream_send StConnected (Some ApOneRtt) 0 [5, 6, 7] True c)
   in fst (stream_send StConnected (Some ApOneRtt) 0 [5, 6, 7] True c) = Inr 3 \<and>
      unat (cfc_sent (cs_flow_control c')) = 3 \<and> cfc_sent (cs_flow_control c') \<le> 100"
proof -
  let ?c = "snd (process_stream_frame (example_frame 0 [1]) example_conn)"
  let ?s = "the (sm_get (cs_streams ?c) 0)"
  let ?c' = "snd (stream_send StConnected (Some ApOneRtt) 0 [5, 6, 7] True ?c)"
  have g: "sm_get (cs_streams ?c) 0 = Some ?s" by (simp add: stream_eval)
  have s: "stream_send StConnected (Some ApOneRtt) 0 [5, 6, 7] True ?c = (Inr 3, ?c')"
    by (simp add: stream_eval stream_send_def sfc_send_window_def cfc_send_window_def saturating_sub_def)
  have l: "sfc_sent (ss_flow_control ?s) \<le> sfc_send_max (ss_flow_control ?s)"
    "cfc_sent (cs_flow_control ?c) \<le> cfc_send_max (cs_flow_control ?c)"
    and z: "cfc_sent (cs_flow_control ?c) = 0" "cfc_send_max (cs_flow_control ?c') = 100"
    by (simp_all add: stream_eval stream_send_def sfc_send_window_def cfc_send_window_def saturating_sub_def
        push_pending_def cfc_on_data_sent_def)
  have "fst (stream_send StConnected (Some ApOneRtt) 0 [5, 6, 7] True ?c) = Inr 3" by (subst s) simp
  then show ?thesis
    using stream_send_within_windows [OF g _ s l] z unfolding Let_def by simp
qed

text \<open>Nothing in \<open>stream_send\<close> stops a write after the FIN: the state \<open>DataSent\<close> is not among the closed
  ones, and the frame queued lies beyond the final size the FIN announced.\<close>

lemma stream_send_after_fin:
  assumes "sm_get (cs_streams c) sid = Some s" "ss_send s = Some SsDataSent" "ss_fin_sent s" "data \<noteq> []"
    and "length data < 2 ^ 64" "kind = Some ApOneRtt" "state = StConnected"
    and "0 < sfc_send_window (ss_flow_control s)" "0 < cfc_send_window (cs_flow_control c)"
  shows "\<exists>n c'. stream_send state kind sid data fin c = (Inr n, c') \<and> 0 < n \<and>
    cs_pending_frames c' = cs_pending_frames c @
      [(SpApplicationData, Stream \<lparr>sf_stream_id = sid, sf_offset = ss_send_offset s,
               sf_fin = (fin \<and> n = length data), sf_data = take n data\<rparr>)]"
proof -
  have "0 < unat (min (word_of_nat (length data)) (min (sfc_send_window (ss_flow_control s)) (cfc_send_window (cs_flow_control c))))"
    using assms(4,8,9) unfolding unat_min_window [OF assms(5)] by (simp add: min_def word_less_nat_alt)
  then show ?thesis using assms by (simp add: stream_send_def Let_def push_pending_def)
qed

section \<open>Limits on received data\<close>

lemma finish_stream_frame_keeps:
  "finish_stream_frame sf e s = (r, s') \<Longrightarrow> ss_flow_control s' = ss_flow_control s \<and>
     (ss_final_size s' = ss_final_size s \<or> ss_final_size s' = Some e)"
  by (auto simp: finish_stream_frame_def Let_def split: sum.splits if_splits)

lemma process_known_stream_frame_ok:
  assumes "process_known_stream_frame sf s0 c0 = (Inr (), c')"
  obtains e s where "checked_add (sf_offset sf) (word_of_nat (length (sf_data sf))) = Some e"
    "sm_get (cs_streams c') (sf_stream_id sf) = Some s"
    "sfc_check_recv_limit (ss_flow_control s)" "cfc_check_recv_limit (cs_flow_control c')"
    "\<And>f. ss_final_size s = Some f \<Longrightarrow> e \<le> f"
proof -
  let ?d = "word_of_nat (length (sf_data sf))"
  obtain e where e: "checked_add (sf_offset sf) ?d = Some e"
    and f: "\<And>f. ss_final_size s0 = Some f \<Longrightarrow> e \<le> f"
    using assms by (cases "checked_add (sf_offset sf) ?d"; cases "ss_final_size s0")
      (auto simp: process_known_stream_frame_def Let_def split: if_splits)
  obtain delta fc where d: "sfc_on_data_received (sf_offset sf) ?d (ss_flow_control s0) = (delta, fc)" by fastforce
  obtain r s where r: "finish_stream_frame sf e (s0\<lparr>ss_flow_control := fc\<rparr>) = (r, s)" by fastforce
  have c': "c' = put_stream (sf_stream_id sf) s (c0\<lparr>cs_flow_control := cfc_on_data_received delta (cs_flow_control c0)\<rparr>)"
    and l: "sfc_check_recv_limit fc" "cfc_check_recv_limit (cfc_on_data_received delta (cs_flow_control c0))"
    using assms e d r by (auto simp: process_known_stream_frame_def Let_def split: if_splits)
  show ?thesis
  proof (rule that [OF e])
    show "sm_get (cs_streams c') (sf_stream_id sf) = Some s" by (simp add: c' put_stream_def)
    show "sfc_check_recv_limit (ss_flow_control s)" using finish_stream_frame_keeps [OF r] l by simp
    show "cfc_check_recv_limit (cs_flow_control c')" using l by (simp add: c' put_stream_def)
    show "e \<le> f" if "ss_final_size s = Some f" for f using finish_stream_frame_keeps [OF r] that f by auto
  qed
qed



end
