(* ===== verification/Ack_Tracking.thy ===== *)
theory Ack_Tracking
  imports Stream_Io
begin

text \<open>
  Acknowledgement of received packets (\<open>starfish-quic/src/connection.rs\<close>): the descending list of
  received packet-number ranges kept per packet-number space, the bookkeeping of \<open>process_packet\<close> for
  a packet that was opened, the delayed-ACK timer, and \<open>generate_acks\<close>, which turns the ranges into
  ACK frames at the front of the send queue.  An array \<open>[T; 3]\<close> indexed by \<open>space as usize\<close> is a
  function of the space.  Instants and durations are natural numbers of nanoseconds, and the current
  time is an argument.
\<close>

section \<open>Received packet numbers\<close>

type_synonym Instant = nat
type_synonym Duration = nat

type_synonym pn_ranges = "(u64 \<times> u64) list"

definition MAX_TRACKED_RECV_PN_RANGES :: nat where "MAX_TRACKED_RECV_PN_RANGES = 32"

text \<open>\<open>Iterator::position\<close>.\<close>

fun position :: "('a \<Rightarrow> bool) \<Rightarrow> 'a list \<Rightarrow> nat option" where
  "position P [] = None"
| "position P (x # xs) = (if P x then Some 0 else map_option Suc (position P xs))"

definition packet_numbers_are_adjacent :: "u64 \<Rightarrow> u64 \<Rightarrow> bool" where
  "packet_numbers_are_adjacent lower higher \<longleftrightarrow> checked_add lower 1 = Some higher"

definition in_range :: "u64 \<Rightarrow> u64 \<times> u64 \<Rightarrow> bool" where
  "in_range pn r \<longleftrightarrow> fst r \<le> pn \<and> pn \<le> snd r"

text \<open>The splice of \<open>record_recv_pn\<close>: the new number, merged with the ranges next to it.\<close>

definition splice_recv_pn :: "u64 \<Rightarrow> nat \<Rightarrow> pn_ranges \<Rightarrow> pn_ranges" where
  "splice_recv_pn pn insert_idx ranges =
     (let (merged_end, remove_from) =
            (if insert_idx > 0 \<and> packet_numbers_are_adjacent pn (fst (ranges ! (insert_idx - 1)))
             then (snd (ranges ! (insert_idx - 1)), insert_idx - 1) else (pn, insert_idx));
          (merged_start, merged_end, remove_to) =
            (if insert_idx < length ranges \<and> packet_numbers_are_adjacent (snd (ranges ! insert_idx)) pn
             then (fst (ranges ! insert_idx), max merged_end (snd (ranges ! insert_idx)), insert_idx + 1)
             else (pn, merged_end, insert_idx))
      in take remove_from ranges @ [(merged_start, merged_end)] @ drop remove_to ranges)"

definition record_recv_pn :: "u64 \<Rightarrow> pn_ranges \<Rightarrow> pn_ranges" where
  "record_recv_pn pn ranges =
     (let insert_idx = (case position (\<lambda>r. snd r < pn) ranges of Some i \<Rightarrow> i | None \<Rightarrow> length ranges) in
      if insert_idx > 0 \<and> in_range pn (ranges ! (insert_idx - 1)) then ranges
      else if insert_idx < length ranges \<and> in_range pn (ranges ! insert_idx) then ranges
      else let ranges = splice_recv_pn pn insert_idx ranges
           in if length ranges > MAX_TRACKED_RECV_PN_RANGES
              then take MAX_TRACKED_RECV_PN_RANGES ranges else ranges)"

section \<open>Acknowledgement state\<close>

datatype UdpEcnCodepoint = Ect0 | Ect1 | Ce

record AckState =
  largest_recv_pn :: "PacketNumberSpace \<Rightarrow> u64"
  largest_recv_pn_time :: "PacketNumberSpace \<Rightarrow> Instant option"
  received_packets :: "PacketNumberSpace \<Rightarrow> bool"
  ack_needed :: "PacketNumberSpace \<Rightarrow> bool"
  ack_eliciting_packets_since_last_ack :: "PacketNumberSpace \<Rightarrow> u8"
  ack_immediate :: "PacketNumberSpace \<Rightarrow> bool"
  recv_pn_ranges :: "PacketNumberSpace \<Rightarrow> pn_ranges"
  recv_ecn_counts :: "PacketNumberSpace \<Rightarrow> EcnCounts"
  last_ack_eliciting_recv :: "PacketNumberSpace \<Rightarrow> Instant option"

definition ecn_default :: EcnCounts where "ecn_default = \<lparr>ect0 = 0, ect1 = 0, ce = 0\<rparr>"

definition ack_state_new :: AckState where
  "ack_state_new = \<lparr>largest_recv_pn = (\<lambda>_. 0), largest_recv_pn_time = (\<lambda>_. None), received_packets = (\<lambda>_. False),
     ack_needed = (\<lambda>_. False), ack_eliciting_packets_since_last_ack = (\<lambda>_. 0), ack_immediate = (\<lambda>_. False),
     recv_pn_ranges = (\<lambda>_. []), recv_ecn_counts = (\<lambda>_. ecn_default), last_ack_eliciting_recv = (\<lambda>_. None)\<rparr>"

definition record_recv_ecn :: "PacketNumberSpace \<Rightarrow> UdpEcnCodepoint option \<Rightarrow> AckState \<Rightarrow> AckState" where
  "record_recv_ecn space ecn a =
     (case ecn of
        None \<Rightarrow> a
      | Some codepoint \<Rightarrow>
          let counts = recv_ecn_counts a space;
              counts = (case codepoint of
                 Ect0 \<Rightarrow> counts\<lparr>ect0 := saturating_add (ect0 counts) 1\<rparr>
               | Ect1 \<Rightarrow> counts\<lparr>ect1 := saturating_add (ect1 counts) 1\<rparr>
               | Ce \<Rightarrow> counts\<lparr>ce := saturating_add (ce counts) 1\<rparr>)
          in a\<lparr>recv_ecn_counts := (recv_ecn_counts a)(space := counts)\<rparr>)"

definition should_ack_immediately_for_packet :: "bool \<Rightarrow> u64 \<Rightarrow> u64 \<Rightarrow> nat \<Rightarrow> bool" where
  "should_ack_immediately_for_packet had_previous_packets previous_largest full_pn range_count \<longleftrightarrow>
     range_count > 1
     \<or> (had_previous_packets \<and> full_pn < previous_largest)
     \<or> (\<not> had_previous_packets \<and> full_pn > 0)
     \<or> (had_previous_packets \<and> full_pn > previous_largest + 1)"

definition ack_ecn_counts :: "AckState \<Rightarrow> PacketNumberSpace \<Rightarrow> EcnCounts option" where
  "ack_ecn_counts a space = (let counts = recv_ecn_counts a space in if counts \<noteq> ecn_default then Some counts else None)"

text \<open>What \<open>process_packet\<close> does between decoding the frames of a packet and processing them.\<close>

definition record_packet ::
    "PacketNumberSpace \<Rightarrow> u64 \<Rightarrow> UdpEcnCodepoint option \<Rightarrow> Frame list \<Rightarrow> Instant \<Rightarrow> AckState \<Rightarrow> AckState" where
  "record_packet space full_pn ecn frames recv_time a =
     (let had_previous_packets = received_packets a space;
          previous_largest = largest_recv_pn a space;
          a = (if \<not> had_previous_packets \<or> full_pn > previous_largest
               then a\<lparr>largest_recv_pn := (largest_recv_pn a)(space := full_pn),
                      largest_recv_pn_time := (largest_recv_pn_time a)(space := Some recv_time)\<rparr>
               else a);
          a = a\<lparr>received_packets := (received_packets a)(space := True)\<rparr>;
          a = a\<lparr>recv_pn_ranges := (recv_pn_ranges a)(space := record_recv_pn full_pn (recv_pn_ranges a space))\<rparr>;
          a = record_recv_ecn space ecn a
      in if list_ex is_ack_eliciting frames
         then let a = a\<lparr>ack_needed := (ack_needed a)(space := True),
                        last_ack_eliciting_recv := (last_ack_eliciting_recv a)(space := Some recv_time),
                        ack_eliciting_packets_since_last_ack := (ack_eliciting_packets_since_last_ack a)
                          (space := saturating_add (ack_eliciting_packets_since_last_ack a space) 1)\<rparr>
              in if should_ack_immediately_for_packet had_previous_packets previous_largest full_pn
                      (length (recv_pn_ranges a space))
                 then a\<lparr>ack_immediate := (ack_immediate a)(space := True)\<rparr> else a
         else a)"

section \<open>Sending acknowledgements\<close>

text \<open>\<open>keys space\<close> says that \<open>PacketKeys::get\<close> has keys for the space.\<close>

definition ack_deadline ::
    "(PacketNumberSpace \<Rightarrow> bool) \<Rightarrow> Duration \<Rightarrow> Instant \<Rightarrow> AckState \<Rightarrow> PacketNumberSpace \<Rightarrow> Instant option" where
  "ack_deadline keys local_max_ack_delay now a space =
     (if \<not> ack_needed a space \<or> \<not> keys space then None
      else case space of
        SpApplicationData \<Rightarrow>
          if ack_immediate a space \<or> ack_eliciting_packets_since_last_ack a space \<ge> 2 then Some now
          else map_option (\<lambda>t. t + local_max_ack_delay) (last_ack_eliciting_recv a space)
      | _ \<Rightarrow> Some now)"

definition ack_due :: "Duration \<Rightarrow> Instant \<Rightarrow> AckState \<Rightarrow> PacketNumberSpace \<Rightarrow> bool" where
  "ack_due local_max_ack_delay now a space =
     (case space of
        SpApplicationData \<Rightarrow>
          ack_immediate a space \<or> ack_eliciting_packets_since_last_ack a space \<ge> 2
          \<or> (case last_ack_eliciting_recv a space of None \<Rightarrow> False | Some t \<Rightarrow> now - t \<ge> local_max_ack_delay)
      | _ \<Rightarrow> True)"

definition ack_frame :: "u32 \<Rightarrow> Instant \<Rightarrow> AckState \<Rightarrow> PacketNumberSpace \<Rightarrow> AckFrame" where
  "ack_frame local_ack_delay_exponent now a space =
     (let ranges = map (\<lambda>(start, end'). \<lparr>ar_start = start, ar_end = end'\<rparr>) (recv_pn_ranges a space);
          delay = (case largest_recv_pn_time a space of
                     None \<Rightarrow> 0
                   | Some t \<Rightarrow> drop_bit (unat local_ack_delay_exponent) (word_of_nat ((now - t) div 1000)))
      in \<lparr>largest_acknowledged = ar_end (hd ranges), ack_delay = delay, ack_ranges = ranges,
          ack_ecn = ack_ecn_counts a space\<rparr>)"

definition generate_ack ::
    "(PacketNumberSpace \<Rightarrow> bool) \<Rightarrow> ApplicationPacketKind option \<Rightarrow> Duration \<Rightarrow> u32 \<Rightarrow> Instant \<Rightarrow> PacketNumberSpace
     \<Rightarrow> AckState \<times> (PacketNumberSpace \<times> Frame) list \<Rightarrow> AckState \<times> (PacketNumberSpace \<times> Frame) list" where
  "generate_ack keys kind local_max_ack_delay local_ack_delay_exponent now space = (\<lambda>(a, pending).
     (if \<not> ack_needed a space \<or> recv_pn_ranges a space = [] then (a, pending)
      else if (if space = SpApplicationData then kind = None else \<not> keys space) then (a, pending)
      else if \<not> ack_due local_max_ack_delay now a space then (a, pending)
      else (a\<lparr>ack_needed := (ack_needed a)(space := False),
              ack_eliciting_packets_since_last_ack := (ack_eliciting_packets_since_last_ack a)(space := 0),
              ack_immediate := (ack_immediate a)(space := False)\<rparr>,
            (space, Ack (ack_frame local_ack_delay_exponent now a space)) # pending)))"

definition generate_acks ::
    "(PacketNumberSpace \<Rightarrow> bool) \<Rightarrow> ApplicationPacketKind option \<Rightarrow> Duration \<Rightarrow> u32 \<Rightarrow> Instant
     \<Rightarrow> AckState \<times> (PacketNumberSpace \<times> Frame) list \<Rightarrow> AckState \<times> (PacketNumberSpace \<times> Frame) list" where
  "generate_acks keys kind local_max_ack_delay local_ack_delay_exponent now =
     fold (generate_ack keys kind local_max_ack_delay local_ack_delay_exponent now)
       [SpInitial, SpHandshake, SpApplicationData]"

section \<open>The ranges as a set of packet numbers\<close>

definition pns :: "pn_ranges \<Rightarrow> u64 set" where
  "pns ranges = {pn. \<exists>r \<in> set ranges. in_range pn r}"

definition wf_pn_ranges :: "pn_ranges \<Rightarrow> bool" where
  "wf_pn_ranges ranges \<longleftrightarrow> (\<forall>r \<in> set ranges. fst r \<le> snd r) \<and>
     sorted_wrt (\<lambda>hi lo. unat (snd lo) + 1 < unat (fst hi)) ranges"

lemma pns_simps [simp]:
  "pns [] = {}" "pns (r # rs) = {pn. in_range pn r} \<union> pns rs" "pns (xs @ ys) = pns xs \<union> pns ys"
  by (auto simp: pns_def)

lemma wf_pn_ranges_Nil [simp]: "wf_pn_ranges []" by (simp add: wf_pn_ranges_def)

lemma wf_pn_ranges_append:
  "wf_pn_ranges (xs @ ys) \<longleftrightarrow> wf_pn_ranges xs \<and> wf_pn_ranges ys \<and>
     (\<forall>hi \<in> set xs. \<forall>lo \<in> set ys. unat (snd lo) + 1 < unat (fst hi))"
  by (auto simp: wf_pn_ranges_def sorted_wrt_append)

lemma wf_pn_ranges_Cons:
  "wf_pn_ranges (x # ys) \<longleftrightarrow> fst x \<le> snd x \<and> wf_pn_ranges ys \<and> (\<forall>lo \<in> set ys. unat (snd lo) + 1 < unat (fst x))"
  using wf_pn_ranges_append [of "[x]" ys] by (auto simp: wf_pn_ranges_def)

lemma wf_pn_ranges_take: "wf_pn_ranges ranges \<Longrightarrow> wf_pn_ranges (take n ranges)"
  by (metis append_take_drop_id wf_pn_ranges_append)

lemma adjacent_unat: "packet_numbers_are_adjacent lower higher \<longleftrightarrow> unat higher = unat lower + 1"
proof -
  have "checked_add lower 1 = Some higher \<longleftrightarrow> unat higher = unat lower + 1"
    using unat_u64_less_num [of higher]
    by (auto simp: checked_add_def word_unat_eq_iff unat_word_ariths simp del: unat_u64_less_num)
  then show ?thesis by (simp add: packet_numbers_are_adjacent_def)
qed

lemma position_split:
  "case position P xs of None \<Rightarrow> (\<forall>x \<in> set xs. \<not> P x)
   | Some i \<Rightarrow> i < length xs \<and> P (xs ! i) \<and> (\<forall>x \<in> set (take i xs). \<not> P x)"
  by (induction xs) (auto split: option.splits simp: less_Suc_eq_0_disj)

text \<open>The place of a new number in a well-formed list: ranges that end at or above it come first, and
  every later range lies below it.\<close>

lemma insert_point:
  assumes "wf_pn_ranges ranges"
    and "insert_idx = (case position (\<lambda>r. snd r < pn) ranges of Some i \<Rightarrow> i | None \<Rightarrow> length ranges)"
  obtains hi lo where "ranges = hi @ lo" "insert_idx = length hi"
    "\<forall>r \<in> set hi. pn \<le> snd r" "\<forall>r \<in> set lo. snd r < pn"
proof
  let ?hi = "take insert_idx ranges" and ?lo = "drop insert_idx ranges"
  show "ranges = ?hi @ ?lo" by simp
  note ps = position_split [where P = "\<lambda>r. snd r < pn" and xs = ranges]
  show "insert_idx = length ?hi" "\<forall>r \<in> set ?hi. pn \<le> snd r"
    using ps assms(2) by (auto simp: not_less split: option.splits)
  show "\<forall>r \<in> set ?lo. snd r < pn"
  proof (cases "insert_idx < length ranges")
    case True
    then have lo: "?lo = ranges ! insert_idx # drop (Suc insert_idx) ranges" by (simp add: Cons_nth_drop_Suc)
    have "wf_pn_ranges ?lo" using assms(1) by (metis append_take_drop_id wf_pn_ranges_append)
    moreover have "snd (ranges ! insert_idx) < pn" using True ps assms(2) by (auto split: option.splits)
    ultimately show ?thesis
      unfolding lo by (auto simp: wf_pn_ranges_Cons word_less_nat_alt word_le_nat_alt)
  qed simp
qed

lemma splice_recv_pn_eq:
  "splice_recv_pn pn (length hi) (hi @ lo) =
    (let up = hi \<noteq> [] \<and> packet_numbers_are_adjacent pn (fst (last hi));
         down = lo \<noteq> [] \<and> packet_numbers_are_adjacent (snd (hd lo)) pn;
         e = (if up then snd (last hi) else pn)
     in (if up then butlast hi else hi)
        @ (if down then (fst (hd lo), max e (snd (hd lo))) else (pn, e))
        # (if down then tl lo else lo))"
  by (auto simp: splice_recv_pn_def Let_def nth_append last_conv_nth hd_conv_nth butlast_conv_take drop_Suc)

text \<open>Inserting a range between the ones above and the ones below it.\<close>

lemma wf_pn_ranges_middle:
  assumes "wf_pn_ranges hi" "wf_pn_ranges lo" "s \<le> e"
    and "\<And>r. r \<in> set hi \<Longrightarrow> unat e + 1 < unat (fst r)" "\<And>r. r \<in> set lo \<Longrightarrow> unat (snd r) + 1 < unat s"
  shows "wf_pn_ranges (hi @ (s, e) # lo)"
proof -
  have "unat (snd lo') + 1 < unat (fst hi')" if "hi' \<in> set hi" "lo' \<in> set lo" for hi' lo'
    using assms(3) assms(4) [OF that(1)] assms(5) [OF that(2)] by (simp add: word_le_nat_alt)
  then show ?thesis using assms by (auto simp: wf_pn_ranges_append wf_pn_ranges_Cons)
qed

lemma in_range_nat: "in_range pn r \<longleftrightarrow> unat (fst r) \<le> unat pn \<and> unat pn \<le> unat (snd r)"
  by (simp add: in_range_def word_le_nat_alt)

lemma wf_pn_ranges_above:
  assumes "wf_pn_ranges (hi' @ [l])" "n < unat (fst l)" "r \<in> set (hi' @ [l])"
  shows "n < unat (fst r)"
  using assms by (auto simp: wf_pn_ranges_append wf_pn_ranges_Cons word_le_nat_alt)

lemma splice_recv_pn_correct:
  assumes "wf_pn_ranges (hi @ lo)" "\<forall>r \<in> set hi. pn \<le> snd r" "\<forall>r \<in> set lo. snd r < pn"
    and "hi \<noteq> [] \<Longrightarrow> \<not> in_range pn (last hi)"
  shows "wf_pn_ranges (splice_recv_pn pn (length hi) (hi @ lo)) \<and>
    pns (splice_recv_pn pn (length hi) (hi @ lo)) = insert pn (pns (hi @ lo))"
proof -
  define up where "up \<longleftrightarrow> hi \<noteq> [] \<and> packet_numbers_are_adjacent pn (fst (last hi))"
  define down where "down \<longleftrightarrow> lo \<noteq> [] \<and> packet_numbers_are_adjacent (snd (hd lo)) pn"
  define hi' lo' where "hi' = (if up then butlast hi else hi)" and "lo' = (if down then tl lo else lo)"
  define s e where "s = (if down then fst (hd lo) else pn)" and "e = (if up then snd (last hi) else pn)"
  have ok: "wf_pn_ranges hi" "wf_pn_ranges lo" using assms(1) by (auto simp: wf_pn_ranges_append)
  have hi: "hi = hi' @ (if up then [last hi] else [])" by (auto simp: up_def hi'_def)
  have lo: "lo = (if down then [hd lo] else []) @ lo'" by (auto simp: down_def lo'_def)
  have u: "unat (fst (last hi)) = unat pn + 1 \<and> fst (last hi) \<le> snd (last hi)" if up
    using that ok(1) hi unfolding up_def adjacent_unat by (metis last_in_set wf_pn_ranges_def)
  have d: "unat pn = unat (snd (hd lo)) + 1 \<and> fst (hd lo) \<le> snd (hd lo)" if down
    using that ok(2) unfolding down_def adjacent_unat by (metis hd_in_set wf_pn_ranges_def)
  have "max e (snd (hd lo)) = e" if down
    using d [OF that] u by (auto simp: e_def max_def word_le_nat_alt)
  then have eq: "splice_recv_pn pn (length hi) (hi @ lo) = hi' @ (s, e) # lo'"
    unfolding splice_recv_pn_eq Let_def up_def [symmetric] down_def [symmetric]
    by (auto simp: hi'_def lo'_def s_def e_def)
  have above: "unat e + 1 < unat (fst r)" if r: "r \<in> set hi'" for r
  proof (cases up)
    case True
    then show ?thesis using ok(1) r unfolding e_def by (subst (asm) hi) (auto simp: wf_pn_ranges_append)
  next
    case False
    then have ne: "hi \<noteq> []" "hi' = hi" using r by (auto simp: hi'_def)
    then have l: "unat pn < unat (fst (last hi))"
      using assms(2,4) by (auto simp: in_range_nat word_le_nat_alt)
    with False ne have l': "unat pn + 1 < unat (fst (last hi))" by (simp add: up_def adjacent_unat)
    show ?thesis using wf_pn_ranges_above [of "butlast hi" "last hi", OF _ l' , of r] ok(1) ne r False by (simp add: e_def)
  qed
  have below: "unat (snd r) + 1 < unat s" if r: "r \<in> set lo'" for r
  proof (cases down)
    case True
    then show ?thesis using ok(2) r unfolding s_def by (subst (asm) lo) (auto simp: wf_pn_ranges_Cons)
  next
    case False
    then have ne: "lo \<noteq> []" "lo' = lo" using r by (auto simp: lo'_def)
    then have h: "unat (snd (hd lo)) + 1 < unat pn"
      using assms(3) False by (auto simp: down_def adjacent_unat word_less_nat_alt dest!: bspec [of _ _ "hd lo"])
    show ?thesis using r ne h ok(2) False unfolding s_def
      by (cases lo) (auto simp: wf_pn_ranges_Cons word_le_nat_alt)
  qed
  have "s \<le> pn" "pn \<le> e" using u d by (auto simp: s_def e_def word_le_nat_alt)
  moreover have "wf_pn_ranges hi'" "wf_pn_ranges lo'" using ok hi lo by (metis wf_pn_ranges_append)+
  ultimately have "wf_pn_ranges (hi' @ (s, e) # lo')"
    using above below by (intro wf_pn_ranges_middle) (auto simp: word_le_nat_alt)
  moreover have "{p. in_range p (s, e)} = insert pn ((if up then {p. in_range p (last hi)} else {})
      \<union> (if down then {p. in_range p (hd lo)} else {}))"
    using u d by (auto simp: in_range_nat s_def e_def word_le_nat_alt word_unat_eq_iff)
  then have "pns (hi' @ (s, e) # lo') = insert pn (pns (hi @ lo))"
    using arg_cong [OF hi, of pns] arg_cong [OF lo, of pns] by auto
  ultimately show ?thesis unfolding eq by blast
qed


lemma record_recv_pn_full:
  assumes "wf_pn_ranges ranges"
  obtains full where "record_recv_pn pn ranges = take MAX_TRACKED_RECV_PN_RANGES full \<or> record_recv_pn pn ranges = full"
    "length (record_recv_pn pn ranges) = length full \<or> length (record_recv_pn pn ranges) = MAX_TRACKED_RECV_PN_RANGES"
    "wf_pn_ranges full" "pns full = insert pn (pns ranges)"
proof -
  define idx where "idx = (case position (\<lambda>r. snd r < pn) ranges of Some i \<Rightarrow> i | None \<Rightarrow> length ranges)"
  obtain hi lo where hl: "ranges = hi @ lo" "idx = length hi" "\<forall>r \<in> set hi. pn \<le> snd r" "\<forall>r \<in> set lo. snd r < pn"
    using insert_point [OF assms idx_def] .
  have rec: "record_recv_pn pn ranges = (if idx > 0 \<and> in_range pn (ranges ! (idx - 1)) then ranges
      else if idx < length ranges \<and> in_range pn (ranges ! idx) then ranges
      else let ranges = splice_recv_pn pn idx ranges
           in if length ranges > MAX_TRACKED_RECV_PN_RANGES
              then take MAX_TRACKED_RECV_PN_RANGES ranges else ranges)"
    by (simp only: record_recv_pn_def Let_def idx_def)
  have prev: "(idx > 0 \<and> in_range pn (ranges ! (idx - 1))) \<longleftrightarrow> hi \<noteq> [] \<and> in_range pn (last hi)"
    using hl(1,2) by (auto simp: nth_append last_conv_nth)
  have lo: "\<not> (idx < length ranges \<and> in_range pn (ranges ! idx))"
    using hl(1,2,4) by (auto simp: in_range_def nth_append not_le)
  show ?thesis
  proof (cases "hi \<noteq> [] \<and> in_range pn (last hi)")
    case True
    then have r: "record_recv_pn pn ranges = ranges"
      unfolding rec prev by simp
    have "pn \<in> pns ranges" using True hl(1) by (auto simp: pns_def)
    then show ?thesis using that [of ranges] r assms by (simp add: insert_absorb)
  next
    case False
    then have r: "record_recv_pn pn ranges = (let ranges = splice_recv_pn pn (length hi) (hi @ lo)
           in if length ranges > MAX_TRACKED_RECV_PN_RANGES then take MAX_TRACKED_RECV_PN_RANGES ranges else ranges)"
      unfolding rec prev using lo by (simp only: if_False hl(1,2) Let_def)
    show ?thesis
      using that [of "splice_recv_pn pn (length hi) (hi @ lo)"] r splice_recv_pn_correct [of hi lo pn] assms hl False
      by (auto simp: Let_def)
  qed
qed

lemma record_recv_pn_length:
  "length ranges \<le> MAX_TRACKED_RECV_PN_RANGES \<Longrightarrow> length (record_recv_pn pn ranges) \<le> MAX_TRACKED_RECV_PN_RANGES"
  by (auto simp: record_recv_pn_def Let_def split: option.splits)

lemma record_recv_pn_correct:
  assumes "wf_pn_ranges ranges"
  shows "wf_pn_ranges (record_recv_pn pn ranges) \<and> pns (record_recv_pn pn ranges) \<subseteq> insert pn (pns ranges) \<and>
    (\<forall>p \<in> insert pn (pns ranges) - pns (record_recv_pn pn ranges).
       length (record_recv_pn pn ranges) = MAX_TRACKED_RECV_PN_RANGES \<and> (\<forall>q \<in> pns (record_recv_pn pn ranges). p < q))"
proof -
  obtain full where full: "record_recv_pn pn ranges = take MAX_TRACKED_RECV_PN_RANGES full \<or> record_recv_pn pn ranges = full"
    "length (record_recv_pn pn ranges) = length full \<or> length (record_recv_pn pn ranges) = MAX_TRACKED_RECV_PN_RANGES"
    "wf_pn_ranges full" "pns full = insert pn (pns ranges)"
    using record_recv_pn_full [OF assms] .
  obtain k where k: "record_recv_pn pn ranges = take k full" using full(1) by (metis order_refl take_all)
  have split: "full = take k full @ drop k full" by simp
  have "p < q" if "p \<in> pns (drop k full)" "q \<in> pns (take k full)" for p q
  proof -
    obtain a b where a: "a \<in> set (drop k full)" "in_range p a" and b: "b \<in> set (take k full)" "in_range q b"
      using \<open>p \<in> pns (drop k full)\<close> \<open>q \<in> pns (take k full)\<close> by (auto simp: pns_def)
    have "unat (snd a) + 1 < unat (fst b)" using a b full(3) split by (metis wf_pn_ranges_append)
    then show ?thesis using a b by (simp add: in_range_nat word_less_nat_alt)
  qed
  moreover have "pns full = pns (take k full) \<union> pns (drop k full)" by (subst split) (simp only: pns_simps)
  moreover have "length (take k full) = MAX_TRACKED_RECV_PN_RANGES" if "drop k full \<noteq> []"
    using full(2) that k by auto
  moreover have "pns (drop k full) = {}" if "drop k full = []" using that by simp
  ultimately show ?thesis using full(3,4) wf_pn_ranges_take [OF full(3), of k] unfolding k by blast
qed

section \<open>Reachable states\<close>

text \<open>
  The states the acknowledgement bookkeeping goes through, with the numbers of the packets received
  so far in each space: packets arrive in any order and any number of times, and ACKs are generated
  at any moment.
\<close>

inductive ack_reachable :: "AckState \<Rightarrow> (PacketNumberSpace \<Rightarrow> u64 set) \<Rightarrow> bool" where
  start: "ack_reachable ack_state_new (\<lambda>_. {})"
| receive: "ack_reachable a R \<Longrightarrow> ack_reachable (record_packet space pn ecn frames t a) (R(space := insert pn (R space)))"
| send: "ack_reachable a R \<Longrightarrow> ack_reachable (fst (generate_acks keys kind delay ex now (a, pending))) R"

definition ack_inv :: "AckState \<Rightarrow> (PacketNumberSpace \<Rightarrow> u64 set) \<Rightarrow> PacketNumberSpace \<Rightarrow> bool" where
  "ack_inv a R space \<longleftrightarrow> wf_pn_ranges (recv_pn_ranges a space) \<and>
     length (recv_pn_ranges a space) \<le> MAX_TRACKED_RECV_PN_RANGES \<and> pns (recv_pn_ranges a space) \<subseteq> R space \<and>
     (ack_needed a space \<longrightarrow> recv_pn_ranges a space \<noteq> [] \<and> last_ack_eliciting_recv a space \<noteq> None)"

lemma record_recv_pn_nonempty: "record_recv_pn pn ranges \<noteq> []"
  by (auto simp: record_recv_pn_def splice_recv_pn_def Let_def MAX_TRACKED_RECV_PN_RANGES_def split: option.splits)

lemma record_recv_ecn_same [simp]:
  "recv_pn_ranges (record_recv_ecn space ecn a) = recv_pn_ranges a"
  "ack_needed (record_recv_ecn space ecn a) = ack_needed a"
  "last_ack_eliciting_recv (record_recv_ecn space ecn a) = last_ack_eliciting_recv a"
  by (simp_all add: record_recv_ecn_def Let_def split: option.splits)

lemma record_packet_fields:
  "recv_pn_ranges (record_packet space pn ecn frames t a) =
     (recv_pn_ranges a)(space := record_recv_pn pn (recv_pn_ranges a space))"
  "ack_needed (record_packet space pn ecn frames t a) =
     (if list_ex is_ack_eliciting frames then (ack_needed a)(space := True) else ack_needed a)"
  "last_ack_eliciting_recv (record_packet space pn ecn frames t a) =
     (if list_ex is_ack_eliciting frames then (last_ack_eliciting_recv a)(space := Some t) else last_ack_eliciting_recv a)"
  by (simp_all add: record_packet_def Let_def)

lemma record_packet_inv:
  assumes "\<And>sp. ack_inv a R sp"
  shows "ack_inv (record_packet space pn ecn frames t a) (R(space := insert pn (R space))) sp"
proof (cases "sp = space")
  case True
  then show ?thesis
    using assms [of space] record_recv_pn_correct [of "recv_pn_ranges a space" pn] record_recv_pn_length
      record_recv_pn_nonempty
    by (auto simp: ack_inv_def record_packet_fields)
next
  case False
  then show ?thesis using assms [of sp] by (simp add: ack_inv_def record_packet_fields)
qed

lemma generate_ack_fields:
  "recv_pn_ranges (fst (generate_ack keys kind delay ex now space p)) = recv_pn_ranges (fst p)"
  "last_ack_eliciting_recv (fst (generate_ack keys kind delay ex now space p)) = last_ack_eliciting_recv (fst p)"
  "recv_ecn_counts (fst (generate_ack keys kind delay ex now space p)) = recv_ecn_counts (fst p)"
  "largest_recv_pn_time (fst (generate_ack keys kind delay ex now space p)) = largest_recv_pn_time (fst p)"
  "ack_needed (fst (generate_ack keys kind delay ex now space p)) sp \<Longrightarrow> ack_needed (fst p) sp"
  by (simp_all add: generate_ack_def split_beta split: if_splits)

lemma generate_ack_other:
  assumes "sp \<noteq> space"
  shows "ack_needed (fst (generate_ack keys kind delay ex now space p)) sp = ack_needed (fst p) sp"
    "ack_due d t (fst (generate_ack keys kind delay ex now space p)) sp = ack_due d t (fst p) sp"
    "ack_frame e t (fst (generate_ack keys kind delay ex now space p)) sp = ack_frame e t (fst p) sp"
  using assms by (auto simp: generate_ack_def split_beta ack_due_def ack_frame_def ack_ecn_counts_def
      split: PacketNumberSpace.splits)

lemma generate_ack_inv: "ack_inv (fst p) R sp \<Longrightarrow> ack_inv (fst (generate_ack keys kind delay ex now space p)) R sp"
  by (auto simp: ack_inv_def generate_ack_fields(1,2) dest: generate_ack_fields(5))

lemma generate_acks_inv: "ack_inv a R sp \<Longrightarrow> ack_inv (fst (generate_acks keys kind delay ex now (a, pending))) R sp"
  unfolding generate_acks_def by (simp add: generate_ack_inv)

lemma ack_reachable_inv: "ack_reachable a R \<Longrightarrow> ack_inv a R sp"
proof (induction arbitrary: sp rule: ack_reachable.induct)
  case start then show ?case by (simp add: ack_inv_def ack_state_new_def)
next
  case (receive a R) show ?case by (rule record_packet_inv [OF receive.IH])
next
  case (send a R) show ?case by (rule generate_acks_inv [OF send.IH])
qed

section \<open>Generated frames\<close>

definition acked_by :: "AckFrame \<Rightarrow> u64 set" where
  "acked_by f = {pn. \<exists>r \<in> set (ack_ranges f). ar_start r \<le> pn \<and> pn \<le> ar_end r}"

definition ack_range_of :: "u64 \<times> u64 \<Rightarrow> AckRange" where
  "ack_range_of r = \<lparr>ar_start = fst r, ar_end = snd r\<rparr>"

lemma ack_frame_ranges: "ack_ranges (ack_frame ex now a space) = map ack_range_of (recv_pn_ranges a space)"
  by (simp add: ack_frame_def Let_def ack_range_of_def split_beta)

lemma acked_by_ack_frame: "acked_by (ack_frame ex now a space) = pns (recv_pn_ranges a space)"
  by (auto simp: acked_by_def ack_frame_ranges ack_range_of_def pns_def in_range_def)

lemma ranges_ok_wf_pn:
  "wf_pn_ranges ranges \<Longrightarrow> (\<And>r. r \<in> set ranges \<Longrightarrow> unat (snd r) + 2 \<le> unat prev) \<Longrightarrow> ranges_ok prev (map ack_range_of ranges)"
  by (induction ranges arbitrary: prev) (auto simp: wf_pn_ranges_Cons ack_range_of_def Suc_le_eq)

lemma wf_ack_ack_frame:
  assumes "wf_pn_ranges (recv_pn_ranges a space)" "recv_pn_ranges a space \<noteq> []"
    "length (recv_pn_ranges a space) \<le> MAX_TRACKED_RECV_PN_RANGES"
  shows "wf_ack (ack_frame ex now a space)"
proof -
  obtain r rs where r: "recv_pn_ranges a space = r # rs" using assms(2) by (cases "recv_pn_ranges a space") auto
  then have "ranges_ok (fst r) (map ack_range_of rs)"
    using assms(1) by (auto simp: wf_pn_ranges_Cons Suc_le_eq intro!: ranges_ok_wf_pn)
  moreover have "largest_acknowledged (ack_frame ex now a space) = snd r"
    using r by (simp add: ack_frame_def Let_def split: prod.splits)
  ultimately show ?thesis
    using assms r by (simp add: wf_ack_def ack_frame_ranges wf_pn_ranges_Cons MAX_TRACKED_RECV_PN_RANGES_def)
      (simp add: ack_range_of_def)
qed

text \<open>An ACK frame can be written when its values fit a varint.\<close>

definition ack_values_fit :: "AckFrame \<Rightarrow> bool" where
  "ack_values_fit f \<longleftrightarrow> largest_acknowledged f \<le> MAX_VARINT \<and> ack_delay f \<le> MAX_VARINT \<and>
     (case ack_ecn f of None \<Rightarrow> True | Some e \<Rightarrow> ect0 e \<le> MAX_VARINT \<and> ect1 e \<le> MAX_VARINT \<and> ce e \<le> MAX_VARINT)"

lemma saturating_sub_le: "saturating_sub a b \<le> (a :: 'a::len word)"
  by (simp add: word_le_nat_alt)

lemma encode_more_ranges_ok:
  "ranges_ok prev rs \<Longrightarrow> prev \<le> MAX_VARINT \<Longrightarrow> \<exists>b. run_enc (encode_more_ranges prev rs @ ws) buf = run_enc ws b"
proof (induction rs arbitrary: prev buf)
  case (Cons r rs)
  have "ar_end r \<le> MAX_VARINT" "ar_start r \<le> MAX_VARINT"
    using Cons.prems by (simp_all add: word_le_nat_alt)
  moreover have "saturating_sub (saturating_sub prev (ar_end r)) 2 \<le> MAX_VARINT"
    "saturating_sub (ar_end r) (ar_start r) \<le> MAX_VARINT"
    using Cons.prems calculation saturating_sub_le by (meson order_trans)+
  ultimately show ?case
    using Cons by (simp add: run_enc.simps encode_varint_ok)
qed (auto simp: run_enc_Nil)

lemma encode_ack_ok:
  assumes "wf_ack f" "ack_values_fit f" "length (ack_ranges f) \<le> MAX_TRACKED_RECV_PN_RANGES"
  shows "\<exists>b. encode_frame (Ack f) buf = (Inr (), b)"
proof -
  obtain r rs where r: "ack_ranges f = r # rs" and ok: "ar_end r = largest_acknowledged f" "ar_start r \<le> ar_end r"
      "ranges_ok (ar_start r) rs"
    using assms(1) by (auto simp: wf_ack_def split: list.splits)
  have le: "ar_start r \<le> MAX_VARINT" "largest_acknowledged f \<le> MAX_VARINT"
    using ok(1,2) assms(2) by (auto simp: ack_values_fit_def)
  then have sub: "saturating_sub (largest_acknowledged f) (ar_start r) \<le> MAX_VARINT"
    using saturating_sub_le order_trans by blast
  have len: "(word_of_nat (length rs) :: u64) \<le> MAX_VARINT"
    using assms(3) r
    by (simp add: word_le_nat_alt MAX_TRACKED_RECV_PN_RANGES_def MAX_VARINT_eq unsigned_of_nat take_bit_nat_eq_self)
  have more: "\<exists>b. run_enc (encode_more_ranges (ar_start r) rs @ ws) buf = (Inr (), b)"
    if "\<And>b. \<exists>b'. run_enc ws b = (Inr (), b')" for ws :: "QuicError writer list" and buf
    using encode_more_ranges_ok [OF ok(3) le(1)] that by metis
  show ?thesis
  proof (cases "ack_ecn f")
    case None
    then show ?thesis
      using r le sub len more [of "[]"] assms(2)
      by (simp add: encode_ack_def run_enc.simps encode_varint_ok ack_values_fit_def MAX_VARINT_eq)
  next
    case (Some e)
    then show ?thesis
      using r le sub len assms(2)
      by (auto simp: encode_ack_def run_enc.simps encode_varint_ok ack_values_fit_def MAX_VARINT_eq intro!: more)
  qed
qed

lemma generate_ack_pending:
  "snd (generate_ack keys kind delay ex now space p) =
     (if ack_needed (fst p) space \<and> recv_pn_ranges (fst p) space \<noteq> [] \<and>
         (if space = SpApplicationData then kind \<noteq> None else keys space) \<and> ack_due delay now (fst p) space
      then [(space, Ack (ack_frame ex now (fst p) space))] else []) @ snd p"
  by (simp add: generate_ack_def split_beta)

lemma generate_acks_mem:
  "(sp, f) \<in> set (snd (generate_acks keys kind delay ex now (a, pending))) \<longleftrightarrow>
     (sp, f) \<in> set pending \<or>
     f = Ack (ack_frame ex now a sp) \<and> ack_needed a sp \<and> recv_pn_ranges a sp \<noteq> [] \<and>
     (if sp = SpApplicationData then kind \<noteq> None else keys sp) \<and> ack_due delay now a sp"
proof -
  have "sp = SpInitial \<or> sp = SpHandshake \<or> sp = SpApplicationData" by (cases sp) auto
  then show ?thesis
    unfolding generate_acks_def
    by (elim disjE) (simp_all add: generate_ack_pending generate_ack_fields(1) generate_ack_other; blast)+
qed

lemma generate_ack_clears:
  "ack_needed (fst (generate_ack keys kind delay ex now space p)) space \<longleftrightarrow>
     ack_needed (fst p) space \<and> \<not> (recv_pn_ranges (fst p) space \<noteq> [] \<and>
       (if space = SpApplicationData then kind \<noteq> None else keys space) \<and> ack_due delay now (fst p) space)"
  by (cases "ack_needed (fst p) space"; cases "recv_pn_ranges (fst p) space = []"; cases "ack_due delay now (fst p) space")
    (auto simp: generate_ack_def split_beta)

lemma generate_acks_clears:
  "ack_needed (fst (generate_acks keys kind delay ex now (a, pending))) sp \<longleftrightarrow>
     ack_needed a sp \<and> \<not> (recv_pn_ranges a sp \<noteq> [] \<and>
       (if sp = SpApplicationData then kind \<noteq> None else keys sp) \<and> ack_due delay now a sp)"
proof -
  have "sp = SpInitial \<or> sp = SpHandshake \<or> sp = SpApplicationData" by (cases sp) auto
  then show ?thesis
    unfolding generate_acks_def
    by (elim disjE) (simp_all add: generate_ack_clears generate_ack_fields(1) generate_ack_other)
qed

section \<open>Properties\<close>

text \<open>C5: recording a packet number adds exactly that number to the tracked set and keeps the ranges
  ordered, disjoint and apart; when the limit of 32 ranges is exceeded, only numbers below all the
  remaining ones are forgotten.\<close>

theorem record_recv_pn_refines_insert:
  assumes "wf_pn_ranges ranges" "length ranges \<le> MAX_TRACKED_RECV_PN_RANGES"
  shows "wf_pn_ranges (record_recv_pn pn ranges) \<and> length (record_recv_pn pn ranges) \<le> MAX_TRACKED_RECV_PN_RANGES \<and>
    pns (record_recv_pn pn ranges) \<subseteq> insert pn (pns ranges) \<and>
    (\<forall>p \<in> insert pn (pns ranges) - pns (record_recv_pn pn ranges).
       length (record_recv_pn pn ranges) = MAX_TRACKED_RECV_PN_RANGES \<and> (\<forall>q \<in> pns (record_recv_pn pn ranges). p < q))"
  using record_recv_pn_correct [OF assms(1), of pn] record_recv_pn_length [OF assms(2), of pn] by blast

theorem record_recv_pn_refines_insert_witness:
  "record_recv_pn 6 [(7, 9), (2, 5)] = [(2, 9)] \<and> wf_pn_ranges (record_recv_pn 6 [(7, 9), (2, 5)])"
proof -
  have w: "wf_pn_ranges [(7, 9), (2, 5)]" "length [(7 :: u64, 9 :: u64), (2, 5)] \<le> MAX_TRACKED_RECV_PN_RANGES"
    by (simp_all add: wf_pn_ranges_def MAX_TRACKED_RECV_PN_RANGES_def)
  have "record_recv_pn 6 [(7, 9), (2, 5)] = [(2, 9)]"
    by (simp add: record_recv_pn_def splice_recv_pn_def in_range_def packet_numbers_are_adjacent_def checked_add_def
        MAX_TRACKED_RECV_PN_RANGES_def)
  then show ?thesis using record_recv_pn_refines_insert [OF w, of 6] by blast
qed

text \<open>C24: whatever packets arrived, in any order and with any duplicates, an ACK frame that is generated
  acknowledges only packets that were received in its space, and the peer decodes it to the same frame,
  as long as its numbers fit a varint.\<close>

theorem generated_ack_sound:
  assumes "ack_reachable a R" "(space, Ack f) \<in> set (snd (generate_acks keys kind delay ex now (a, [])))"
    and "ack_values_fit f"
  shows "acked_by f \<subseteq> R space \<and> largest_acknowledged f \<in> R space \<and>
    (\<exists>out. encode_frame (Ack f) buf = (Inr (), buf @ out) \<and>
       (\<forall>rest. decode_frame (out @ rest) = Inr (Ack f, length out)))"
proof -
  have f: "f = ack_frame ex now a space" and ne: "recv_pn_ranges a space \<noteq> []"
    using assms(2) by (auto simp: generate_acks_mem)
  have inv: "wf_pn_ranges (recv_pn_ranges a space)" "length (recv_pn_ranges a space) \<le> MAX_TRACKED_RECV_PN_RANGES"
      "pns (recv_pn_ranges a space) \<subseteq> R space"
    using ack_reachable_inv [OF assms(1), of space] by (auto simp: ack_inv_def)
  have wf: "wf_ack f" unfolding f by (rule wf_ack_ack_frame [OF inv(1) ne inv(2)])
  then have "largest_acknowledged f \<in> acked_by f"
    by (auto simp: wf_ack_def acked_by_def split: list.splits)
  moreover obtain b where b: "encode_frame (Ack f) buf = (Inr (), b)"
    using encode_ack_ok [OF wf assms(3)] inv(2) by (auto simp: f ack_frame_ranges)
  ultimately show ?thesis
    using frame_codec.enc_dec [OF _ b] wf inv(3) by (auto simp: f acked_by_ack_frame)
qed

definition example_acks :: AckState where
  "example_acks = record_packet SpInitial 5 None [Ping] 1000 (record_packet SpInitial 4 (Some Ce) [Ping] 500 ack_state_new)"

lemma example_acks_reachable: "ack_reachable example_acks ((\<lambda>_. {})(SpInitial := {5, 4}))"
proof -
  have "ack_reachable example_acks ((\<lambda>_. {})(SpInitial := insert 4 {}, SpInitial := insert 5 (((\<lambda>_. {})(SpInitial := insert 4 {})) SpInitial)))"
    unfolding example_acks_def
    using ack_reachable.receive [OF ack_reachable.receive [OF ack_reachable.start, of SpInitial 4 "Some Ce" "[Ping]" 500],
        of SpInitial 5 None "[Ping]" 1000] by simp
  then show ?thesis by simp
qed

lemmas ack_eval = example_acks_def ack_state_new_def record_packet_def record_recv_ecn_def record_recv_pn_def
  splice_recv_pn_def in_range_def packet_numbers_are_adjacent_def checked_add_def saturating_add_def
  MAX_TRACKED_RECV_PN_RANGES_def ack_frame_def ack_ecn_counts_def ecn_default_def
  should_ack_immediately_for_packet_def

lemma example_ack_frame:
  "ack_frame 3 9000 example_acks SpInitial = \<lparr>largest_acknowledged = 5, ack_delay = 1,
     ack_ranges = [\<lparr>ar_start = 4, ar_end = 5\<rparr>], ack_ecn = Some \<lparr>ect0 = 0, ect1 = 0, ce = 1\<rparr>\<rparr>"
  by (simp add: ack_eval)

theorem generated_ack_sound_witness:
  "let f = \<lparr>largest_acknowledged = 5, ack_delay = 1,
     ack_ranges = [\<lparr>ar_start = 4, ar_end = 5\<rparr>], ack_ecn = Some \<lparr>ect0 = 0, ect1 = 0, ce = 1\<rparr>\<rparr>
   in (SpInitial, Ack f) \<in> set (snd (generate_acks (\<lambda>_. True) None 25 3 9000 (example_acks, []))) \<and>
      acked_by f \<subseteq> {5, 4} \<and> (\<exists>out. decode_frame out = Inr (Ack f, length out))"
proof -
  let ?f = "\<lparr>largest_acknowledged = 5, ack_delay = 1,
     ack_ranges = [\<lparr>ar_start = 4, ar_end = 5\<rparr>], ack_ecn = Some \<lparr>ect0 = 0, ect1 = 0, ce = 1\<rparr>\<rparr>"
  have m: "(SpInitial, Ack ?f) \<in> set (snd (generate_acks (\<lambda>_. True) None 25 3 9000 (example_acks, [])))"
    unfolding generate_acks_mem example_ack_frame by (simp add: ack_due_def) (simp add: ack_eval)
  have fit: "ack_values_fit ?f" by (simp add: ack_values_fit_def MAX_VARINT_eq)
  show ?thesis
    using m generated_ack_sound [OF example_acks_reachable m fit, of "[]"] unfolding Let_def
    by (metis append_Nil append_Nil2 fun_upd_same)
qed

text \<open>C25: the delayed-ACK timer is honoured: an ACK that is owed has a deadline as soon as the space has
  keys, no later than \<open>max_ack_delay\<close> after the last ack-eliciting packet, and generating ACKs at
  or after the deadline queues it.\<close>

theorem ack_sent_at_deadline:
  assumes "ack_reachable a R" "ack_needed a space" "keys space"
    and "kind = application_send_kind (keys SpApplicationData) can_send_zero_rtt"
  shows "\<exists>deadline. ack_deadline keys delay now a space = Some deadline \<and>
    (deadline \<le> now \<or> (\<exists>t. last_ack_eliciting_recv a space = Some t \<and> deadline = t + delay)) \<and>
    (\<forall>now' \<ge> max now deadline. \<exists>f. (space, Ack f) \<in> set (snd (generate_acks keys kind delay ex now' (a, pending))) \<and>
       \<not> ack_needed (fst (generate_acks keys kind delay ex now' (a, pending))) space)"
proof -
  have inv: "recv_pn_ranges a space \<noteq> []" "last_ack_eliciting_recv a space \<noteq> None"
    using ack_reachable_inv [OF assms(1), of space] assms(2) by (auto simp: ack_inv_def)
  have "ack_deadline keys delay now a space \<noteq> None"
    using assms(2,3) inv(2) by (cases space) (auto simp: ack_deadline_def)
  then obtain d where d: "ack_deadline keys delay now a space = Some d" by blast
  have due: "ack_due delay now' a space" if "max now d \<le> now'" for now'
    using that d assms(2,3)
    by (cases space) (auto simp: ack_deadline_def ack_due_def split: if_splits option.splits)
  have k: "if space = SpApplicationData then kind \<noteq> None else keys space"
    using assms(3,4) by (auto simp: application_send_kind_def)
  have "d \<le> now \<or> (\<exists>t. last_ack_eliciting_recv a space = Some t \<and> d = t + delay)"
    using d by (cases space) (auto simp: ack_deadline_def split: if_splits)
  then show ?thesis
    using d due k inv(1) assms(2) by (intro exI [of _ d]) (simp only: generate_acks_mem generate_acks_clears; blast)
qed

theorem ack_sent_at_deadline_witness:
  "\<exists>deadline. ack_deadline (\<lambda>_. True) 25 100 example_acks SpInitial = Some deadline \<and> deadline \<le> 100 \<and>
    (\<exists>f. (SpInitial, Ack f) \<in> set (snd (generate_acks (\<lambda>_. True) (Some ApOneRtt) 25 3 100 (example_acks, []))))"
proof -
  have n: "ack_needed example_acks SpInitial" by (simp add: ack_eval)
  have k: "Some ApOneRtt = application_send_kind ((\<lambda>_. True) SpApplicationData) False"
    by (simp add: application_send_kind_def)
  have "ack_deadline (\<lambda>_. True) 25 100 example_acks SpInitial = Some 100" using n by (simp add: ack_deadline_def)
  then show ?thesis
    using ack_sent_at_deadline [OF example_acks_reachable n _ k, of 25 100 3 "[]"] by auto
qed

end
