(* ===== verification/Btree_Map.thy ===== *)
theory Btree_Map
  imports Prelude "HOL-Library.AList"
begin

text \<open>
  \<open>std::collections::BTreeMap\<close>: an association list in strictly ascending key order, which is the
  order its iterators use.  Removal is \<^const>\<open>AList.delete\<close> and lookup is \<^const>\<open>map_of\<close>.
\<close>

type_synonym ('k, 'v) BTreeMap = "('k \<times> 'v) list"

fun bt_insert :: "'k::linorder \<Rightarrow> 'v \<Rightarrow> ('k, 'v) BTreeMap \<Rightarrow> ('k, 'v) BTreeMap" where
  "bt_insert k v [] = [(k, v)]"
| "bt_insert k v ((k', v') # m) =
     (if k < k' then (k, v) # (k', v') # m
      else if k = k' then (k, v) # m
      else (k', v') # bt_insert k v m)"

definition bt_wf :: "('k::linorder, 'v) BTreeMap \<Rightarrow> bool" where
  "bt_wf m \<longleftrightarrow> sorted_wrt (<) (map fst m)"

text \<open>\<open>range(..=k).rev()\<close>: the entries with keys up to \<open>k\<close>, from the largest down.\<close>

definition bt_range_to_rev :: "'k::linorder \<Rightarrow> ('k, 'v) BTreeMap \<Rightarrow> ('k \<times> 'v) list" where
  "bt_range_to_rev k m = rev (filter (\<lambda>e. fst e \<le> k) m)"

lemma bt_wf_Nil [simp]: "bt_wf []" by (simp add: bt_wf_def)

lemma bt_wf_Cons: "bt_wf (e # m) \<longleftrightarrow> bt_wf m \<and> (\<forall>k \<in> fst ` set m. fst e < k)"
  by (auto simp: bt_wf_def)

lemma bt_wf_distinct: "bt_wf m \<Longrightarrow> distinct (map fst m)"
  by (induction m) (auto simp: bt_wf_Cons)

lemma keys_bt_insert [simp]: "fst ` set (bt_insert k v m) = insert k (fst ` set m)"
  by (induction k v m rule: bt_insert.induct) auto

lemma bt_wf_insert [simp]: "bt_wf m \<Longrightarrow> bt_wf (bt_insert k v m)"
  by (induction m) (auto simp: bt_wf_Cons simp del: split_paired_All, fastforce+)

lemma map_of_bt_insert [simp]: "bt_wf m \<Longrightarrow> map_of (bt_insert k v m) = (map_of m)(k \<mapsto> v)"
  by (induction m) (auto simp: bt_wf_Cons fun_eq_iff map_of_eq_None_iff)

lemma bt_wf_filter: "bt_wf m \<Longrightarrow> bt_wf (filter P m)"
  by (induction m) (auto simp: bt_wf_Cons)

lemma bt_wf_delete [simp]: "bt_wf m \<Longrightarrow> bt_wf (AList.delete k m)"
  by (simp add: AList.delete_eq bt_wf_filter)

lemma set_bt_insert: "bt_wf m \<Longrightarrow> set (bt_insert k v m) = insert (k, v) {e \<in> set m. fst e \<noteq> k}"
  by (induction k v m rule: bt_insert.induct) (auto simp: bt_wf_Cons)

lemma set_delete: "set (AList.delete k m) = {e \<in> set m. fst e \<noteq> k}"
  by (auto simp: AList.delete_eq)

lemma find_SomeD: "find P xs = Some e \<Longrightarrow> e \<in> set xs \<and> P e"
  by (induction xs) (auto split: if_splits)

lemma find_range_to_rev:
  "find P (bt_range_to_rev k m) = Some e \<Longrightarrow> e \<in> set m \<and> fst e \<le> k \<and> P e"
  "find P (bt_range_to_rev k m) = None \<Longrightarrow> e \<in> set m \<Longrightarrow> fst e \<le> k \<Longrightarrow> \<not> P e"
  by (cases e, auto simp: bt_range_to_rev_def find_None_iff dest!: find_SomeD)+

end
