(* ===== verification/Crypto_Stream.thy ===== *)
theory Crypto_Stream
  imports Ack_Tracking Btree_Map
begin

text \<open>
  The CRYPTO stream (\<open>starfish-quic/src/connection.rs\<close>): reassembly of handshake bytes in
  \<open>process_crypto_data\<close> and their hand-over to TLS.  The TLS engine (the \<open>rustls\<close> crate) is a
  parameter: \<open>read_hs\<close> takes the bytes and the engine's state and gives a result and a new state.
\<close>

section \<open>Reassembly\<close>

type_synonym 't read_hs = "bytes \<Rightarrow> 't \<Rightarrow> (tls_error + unit) \<times> 't"

text \<open>The state one call of \<open>process_crypto_data\<close> works on: next expected offset, buffered chunks, TLS.\<close>

record 't CryptoRecv =
  crypto_recv_offset :: u64
  crypto_recv_buf :: "(u64, bytes) BTreeMap"
  crypto_tls :: 't

definition chunk_end :: "u64 \<times> bytes \<Rightarrow> u64" where
  "chunk_end e = fst e + word_of_nat (length (snd e))"

definition remove_stale :: "u64 \<Rightarrow> (u64, bytes) BTreeMap \<Rightarrow> (u64, bytes) BTreeMap" where
  "remove_stale next_expected buf =
     fold AList.delete (map fst (filter (\<lambda>e. chunk_end e \<le> next_expected) buf)) buf"

definition next_start :: "u64 \<Rightarrow> (u64, bytes) BTreeMap \<Rightarrow> (u64 \<times> bytes) option" where
  "next_start next_expected buf = find (\<lambda>e. chunk_end e > next_expected) (bt_range_to_rev next_expected buf)"

definition feed_tls :: "'t read_hs \<Rightarrow> bytes \<Rightarrow> 't CryptoRecv \<Rightarrow> (QuicError + unit) \<times> 't CryptoRecv" where
  "feed_tls read_hs useful c =
     (let c = c\<lparr>crypto_recv_offset := crypto_recv_offset c + word_of_nat (length useful)\<rparr>;
          (r, t) = read_hs useful (crypto_tls c)
      in (map_err Tls r, c\<lparr>crypto_tls := t\<rparr>))"

lemma length_delete_less: "k \<in> fst ` set m \<Longrightarrow> length (AList.delete k m) < length m"
  by (auto simp: AList.delete_eq intro!: length_filter_less)

lemma length_remove_stale: "length (remove_stale k m) \<le> length m"
proof -
  have "length (fold AList.delete ks m) \<le> length m" for ks
    by (induction ks arbitrary: m) (auto intro: order_trans [OF _ length_filter_le] simp: AList.delete_eq)
  then show ?thesis by (simp add: remove_stale_def)
qed

function crypto_drain :: "'t read_hs \<Rightarrow> 't CryptoRecv \<Rightarrow> (QuicError + unit) \<times> 't CryptoRecv" where
  "crypto_drain read_hs c =
     (let next_expected = crypto_recv_offset c;
          c = c\<lparr>crypto_recv_buf := remove_stale next_expected (crypto_recv_buf c)\<rparr>
      in case next_start next_expected (crypto_recv_buf c) of
           None \<Rightarrow> (Inr (), c)
         | Some (start, buffered) \<Rightarrow>
             let c = c\<lparr>crypto_recv_buf := AList.delete start (crypto_recv_buf c)\<rparr>;
                 useful = drop (unat (next_expected - start)) buffered
             in case feed_tls read_hs useful c of
                  (Inl e, c) \<Rightarrow> (Inl e, c)
                | (Inr _, c) \<Rightarrow> crypto_drain read_hs c)"
  by pat_completeness auto
termination
proof (relation "measure (\<lambda>(_, c). length (crypto_recv_buf c))")
  fix read_hs :: "'t read_hs" and c c' c'' :: "'t CryptoRecv" and n e start buffered useful r u d
  assume "c' = c\<lparr>crypto_recv_buf := remove_stale n (crypto_recv_buf c)\<rparr>"
    and "next_start n (crypto_recv_buf c') = Some e" "(start, buffered) = e"
    and "c'' = c'\<lparr>crypto_recv_buf := AList.delete start (crypto_recv_buf c')\<rparr>"
    and "(r, d) = feed_tls read_hs useful c''"
  then have "length (crypto_recv_buf c') \<le> length (crypto_recv_buf c)"
      "length (crypto_recv_buf c'') < length (crypto_recv_buf c')" "crypto_recv_buf d = crypto_recv_buf c''"
    using find_range_to_rev(1) [of _ n "crypto_recv_buf c'" e]
    by (auto simp: length_remove_stale next_start_def feed_tls_def Let_def split_beta intro!: length_delete_less
        image_eqI [of _ fst])
  then show "((read_hs, d), (read_hs, c)) \<in> measure (\<lambda>(_, c). length (crypto_recv_buf c))" by simp
qed simp

declare crypto_drain.simps [simp del]

text \<open>\<open>process_crypto_data\<close> up to the point where the handshake bytes have been fed.  The Boolean says
  whether the call went on to feed TLS (and so goes on to process TLS output).\<close>

definition crypto_receive ::
    "'t read_hs \<Rightarrow> u64 \<Rightarrow> bytes \<Rightarrow> 't CryptoRecv \<Rightarrow> (QuicError + bool) \<times> 't CryptoRecv" where
  "crypto_receive read_hs offset data c =
     (let expected = crypto_recv_offset c in
      if offset + word_of_nat (length data) \<le> expected then (Inr False, c)
      else if offset > expected
      then (Inr False, case map_of (crypto_recv_buf c) offset of
             Some existing \<Rightarrow>
               if length existing < length data
               then c\<lparr>crypto_recv_buf := bt_insert offset data (crypto_recv_buf c)\<rparr> else c
           | None \<Rightarrow> c\<lparr>crypto_recv_buf := bt_insert offset data (crypto_recv_buf c)\<rparr>)
      else let useful = drop (unat (expected - offset)) data in
           case feed_tls read_hs useful c of
             (Inl e, c) \<Rightarrow> (Inl e, c)
           | (Inr _, c) \<Rightarrow> (case crypto_drain read_hs c of (r, c) \<Rightarrow> (map_sum id (\<lambda>_. True) r, c)))"

section \<open>The bytes that were received\<close>

definition chunk_ok :: "bytes \<Rightarrow> u64 \<times> bytes \<Rightarrow> bool" where
  "chunk_ok src e \<longleftrightarrow> unat (fst e) + length (snd e) \<le> length src \<and>
     snd e = take (length (snd e)) (drop (unat (fst e)) src)"

definition span :: "u64 \<times> bytes \<Rightarrow> nat set" where
  "span e = {unat (fst e) ..< unat (fst e) + length (snd e)}"

definition spans :: "(u64 \<times> bytes) list \<Rightarrow> nat set" where
  "spans es = (\<Union>e \<in> set es. span e)"

definition crypto_inv :: "bytes \<Rightarrow> nat set \<Rightarrow> 't CryptoRecv \<Rightarrow> bool" where
  "crypto_inv src R c \<longleftrightarrow> bt_wf (crypto_recv_buf c) \<and> (\<forall>e \<in> set (crypto_recv_buf c). chunk_ok src e) \<and>
     unat (crypto_recv_offset c) \<le> length src \<and> R = {..<unat (crypto_recv_offset c)} \<union> spans (crypto_recv_buf c)"

definition ahead :: "'t CryptoRecv \<Rightarrow> bool" where
  "ahead c \<longleftrightarrow> (\<forall>e \<in> set (crypto_recv_buf c). crypto_recv_offset c < fst e)"

text \<open>The TLS states reached by feeding accepted chunks that together make up the bytes.\<close>

inductive fed :: "'t read_hs \<Rightarrow> 't \<Rightarrow> bytes \<Rightarrow> 't \<Rightarrow> bool" for read_hs :: "'t read_hs" and t0 :: 't where
  fed_Nil: "fed read_hs t0 [] t0"
| fed_step: "fed read_hs t0 bs t \<Longrightarrow> read_hs u t = (Inr (), t') \<Longrightarrow> fed read_hs t0 (bs @ u) t'"

lemma unat_chunk_end:
  assumes "chunk_ok src e" "length src < 2 ^ 64"
  shows "unat (chunk_end e) = unat (fst e) + length (snd e)"
  using assms unfolding chunk_end_def chunk_ok_def
  by (simp add: unat_word_ariths unsigned_of_nat take_bit_nat_eq_self)

lemma set_fold_delete: "set (fold AList.delete ks m) = {e \<in> set m. fst e \<notin> set ks}"
  by (induction ks arbitrary: m) (auto simp: set_delete)

lemma set_remove_stale:
  "bt_wf buf \<Longrightarrow> set (remove_stale n buf) = {e \<in> set buf. n < chunk_end e}"
  by (auto simp: remove_stale_def set_fold_delete image_iff not_le dest!: bt_wf_distinct)
    (metis eq_key_imp_eq_value prod.collapse not_le)+

lemma bt_wf_remove_stale: "bt_wf buf \<Longrightarrow> bt_wf (remove_stale n buf)"
proof -
  have "bt_wf m \<Longrightarrow> bt_wf (fold AList.delete ks m)" for ks and m :: "(u64, bytes) BTreeMap"
    by (induction ks arbitrary: m) auto
  then show "bt_wf buf \<Longrightarrow> ?thesis" by (simp add: remove_stale_def)
qed

lemma crypto_inv_remove_stale:
  assumes "crypto_inv src R c" "length src < 2 ^ 64"
  shows "crypto_inv src R (c\<lparr>crypto_recv_buf := remove_stale (crypto_recv_offset c) (crypto_recv_buf c)\<rparr>)"
proof -
  have "span e \<subseteq> {..<unat (crypto_recv_offset c)}" if "e \<in> set (crypto_recv_buf c)" "chunk_end e \<le> crypto_recv_offset c" for e
    using that assms unat_chunk_end [of src e] by (auto simp: crypto_inv_def span_def word_le_nat_alt)
  then show ?thesis
    using assms by (auto simp: crypto_inv_def bt_wf_remove_stale set_remove_stale spans_def not_less [symmetric])
qed

text \<open>Feeding the rest of a chunk that starts at or below the expected offset.\<close>

lemma feed_chunk:
  assumes "chunk_ok src e" "length src < 2 ^ 64" "fst e \<le> crypto_recv_offset c" "crypto_recv_offset c \<le> chunk_end e"
    and "feed_tls read_hs (drop (unat (crypto_recv_offset c - fst e)) (snd e)) c = (r, c')"
  shows "unat (crypto_recv_offset c') = unat (chunk_end e)" "crypto_recv_buf c' = crypto_recv_buf c"
    "r = Inr () \<Longrightarrow> fed read_hs t0 (take (unat (crypto_recv_offset c)) src) (crypto_tls c) \<Longrightarrow>
       fed read_hs t0 (take (unat (crypto_recv_offset c')) src) (crypto_tls c')"
    "r = Inl err \<Longrightarrow> \<exists>err'. err = Tls err' \<and>
       (\<exists>u t. read_hs u (crypto_tls c) = (Inl err', t) \<and>
          take (unat (crypto_recv_offset c)) src @ u = take (unat (chunk_end e)) src)"
proof -
  let ?off = "crypto_recv_offset c" and ?u = "drop (unat (crypto_recv_offset c - fst e)) (snd e)"
  have e: "unat (chunk_end e) = unat (fst e) + length (snd e)" by (rule unat_chunk_end [OF assms(1,2)])
  have sub: "unat (?off - fst e) = unat ?off - unat (fst e)" using assms(3) by (simp add: unat_sub)
  have le: "unat (fst e) \<le> unat ?off" "unat ?off \<le> unat (fst e) + length (snd e)"
    using assms(3,4) e by (simp_all add: word_le_nat_alt)
  have len: "length ?u = unat (chunk_end e) - unat ?off" using le e sub by simp
  show off': "unat (crypto_recv_offset c') = unat (chunk_end e)"
    using assms(5) len le e unat_u64_less_num [of "chunk_end e"]
    by (auto simp: feed_tls_def Let_def split_beta unat_word_ariths unsigned_of_nat take_bit_nat_eq_self
        simp del: unat_u64_less_num)
  show "crypto_recv_buf c' = crypto_recv_buf c"
    using assms(5) by (auto simp: feed_tls_def Let_def split_beta)
  have "?u = take (unat (chunk_end e) - unat ?off) (drop (unat ?off) src)"
  proof -
    have "?u = drop (unat ?off - unat (fst e)) (take (length (snd e)) (drop (unat (fst e)) src))"
      using assms(1) by (simp add: chunk_ok_def sub)
    also have "\<dots> = take (length (snd e) - (unat ?off - unat (fst e))) (drop (unat ?off) src)"
      using le(1) by (simp add: drop_take)
    also have "length (snd e) - (unat ?off - unat (fst e)) = unat (chunk_end e) - unat ?off"
      using le e by linarith
    finally show ?thesis .
  qed
  then have u: "take (unat ?off) src @ ?u = take (unat (chunk_end e)) src"
    using take_add [of "unat ?off" "unat (chunk_end e) - unat ?off" src] le e by simp
  show "fed read_hs t0 (take (unat (crypto_recv_offset c')) src) (crypto_tls c')"
    if "r = Inr ()" "fed read_hs t0 (take (unat ?off) src) (crypto_tls c)"
    unfolding off' u [symmetric] using that assms(5)
    by (intro fed_step) (auto simp: feed_tls_def Let_def map_err_def split: prod.splits sum.splits)
  show "\<exists>err'. err = Tls err' \<and> (\<exists>u t. read_hs u (crypto_tls c) = (Inl err', t) \<and>
          take (unat ?off) src @ u = take (unat (chunk_end e)) src)" if "r = Inl err"
    using that assms(5) u by (auto simp: feed_tls_def Let_def map_err_def split: prod.splits sum.splits)
qed


lemma crypto_inv_consume:
  assumes "crypto_inv src R c" "e \<in> set (crypto_recv_buf c)" "fst e \<le> crypto_recv_offset c" "crypto_recv_offset c < chunk_end e"
    and "chunk_ok src e" "unat (crypto_recv_offset c') = unat (chunk_end e)"
    and "crypto_recv_buf c' = crypto_recv_buf (c\<lparr>crypto_recv_buf := AList.delete (fst e) (crypto_recv_buf c)\<rparr>)"
    and "unat (chunk_end e) = unat (fst e) + length (snd e)"
  shows "crypto_inv src R c'"
proof -
  have buf: "set (crypto_recv_buf c') = set (crypto_recv_buf c) - {e}"
    using assms(1,2,7) bt_wf_distinct [of "crypto_recv_buf c"]
    by (auto simp: set_delete crypto_inv_def) (metis eq_key_imp_eq_value prod.collapse)
  have "{..<unat (crypto_recv_offset c')} = {..<unat (crypto_recv_offset c)} \<union> span e"
    using assms(3,4,6,8) by (auto simp: span_def word_le_nat_alt word_less_nat_alt)
  then have "{..<unat (crypto_recv_offset c')} \<union> spans (crypto_recv_buf c') = {..<unat (crypto_recv_offset c)} \<union> spans (crypto_recv_buf c)"
    using assms(2) unfolding spans_def buf by blast
  then show ?thesis
    using assms(1,5,6,7,8) buf unfolding crypto_inv_def by (auto simp: chunk_ok_def)
qed

lemma crypto_drain_correct:
  assumes "length src < 2 ^ 64"
  shows "crypto_inv src R c \<Longrightarrow> fed read_hs t0 (take (unat (crypto_recv_offset c)) src) (crypto_tls c) \<Longrightarrow>
    crypto_drain read_hs c = (r, c') \<Longrightarrow>
    (case r of
       Inr _ \<Rightarrow> crypto_inv src R c' \<and> ahead c' \<and> fed read_hs t0 (take (unat (crypto_recv_offset c')) src) (crypto_tls c')
     | Inl err \<Rightarrow> \<exists>n u t t' err'. fed read_hs t0 (take n src) t \<and> read_hs u t = (Inl err', t') \<and> err = Tls err' \<and>
         (\<exists>m. take n src @ u = take m src))"
proof (induction read_hs c arbitrary: rule: crypto_drain.induct)
  case (1 read_hs c)
  let ?n = "crypto_recv_offset c"
  define c1 where "c1 = c\<lparr>crypto_recv_buf := remove_stale ?n (crypto_recv_buf c)\<rparr>"
  have inv1: "crypto_inv src R c1" unfolding c1_def by (rule crypto_inv_remove_stale [OF "1.prems"(1) assms])
  have c1 [simp]: "crypto_recv_offset c1 = ?n" "crypto_tls c1 = crypto_tls c" by (simp_all add: c1_def)
  have stale: "?n < chunk_end e" if "e \<in> set (crypto_recv_buf c1)" for e
    using that "1.prems"(1) by (auto simp: c1_def crypto_inv_def set_remove_stale)
  show ?case
  proof (cases "next_start ?n (crypto_recv_buf c1)")
    case None
    then have "r = Inr ()" "c' = c1"
      using "1.prems"(3) by (subst (asm) crypto_drain.simps; simp add: Let_def c1_def)+
    moreover have "ahead c1"
      using None stale find_range_to_rev(2) [of _ ?n "crypto_recv_buf c1"]
      unfolding ahead_def next_start_def by (force simp: not_le [symmetric])
    ultimately show ?thesis using inv1 "1.prems"(2) by simp
  next
    case (Some e)
    then have e: "e \<in> set (crypto_recv_buf c1)" "fst e \<le> ?n" "?n < chunk_end e"
      unfolding next_start_def by (auto dest: find_range_to_rev(1))
    define c2 where "c2 = c1\<lparr>crypto_recv_buf := AList.delete (fst e) (crypto_recv_buf c1)\<rparr>"
    have c2 [simp]: "crypto_recv_offset c2 = ?n" "crypto_tls c2 = crypto_tls c" by (simp_all add: c2_def)
    obtain r3 c3 where f: "feed_tls read_hs (drop (unat (?n - fst e)) (snd e)) c2 = (r3, c3)" by fastforce
    have ok: "chunk_ok src e" using inv1 e(1) by (simp add: crypto_inv_def)
    note fc = feed_chunk [OF ok assms, of c2, unfolded c2, OF e(2) less_imp_le [OF e(3)] f]
    have step: "crypto_drain read_hs c = (case r3 of Inl err \<Rightarrow> (Inl err, c3) | Inr _ \<Rightarrow> crypto_drain read_hs c3)"
      using Some f by (subst crypto_drain.simps) (simp add: Let_def c1_def c2_def split_beta split: sum.splits)
    show ?thesis
    proof (cases r3)
      case (Inl err)
      then have "r = Inl err" using step "1.prems"(3) by simp
      then show ?thesis using fc(4) [OF Inl] "1.prems"(2) by fastforce
    next
      case (Inr x)
      have "crypto_inv src R c3"
        using crypto_inv_consume [OF inv1 e(1) _ _ ok fc(1) _ unat_chunk_end [OF ok assms]] e fc(2) by (simp add: c2_def)
      then show ?thesis
        using "1.IH" [OF refl c1_def Some prod.collapse c2_def refl f [symmetric] Inr] Inr step "1.prems"(2,3) fc(3)
        by simp
    qed
  qed
qed

section \<open>Sequences of CRYPTO frames\<close>

definition crypto_rejected :: "'t read_hs \<Rightarrow> 't \<Rightarrow> bytes \<Rightarrow> QuicError \<Rightarrow> bool" where
  "crypto_rejected read_hs t0 src err \<longleftrightarrow>
     (\<exists>n u t t' err'. fed read_hs t0 (take n src) t \<and> read_hs u t = (Inl err', t') \<and> err = Tls err' \<and>
        (\<exists>m. take n src @ u = take m src))"

definition crypto_good :: "'t read_hs \<Rightarrow> 't \<Rightarrow> bytes \<Rightarrow> nat set \<Rightarrow> 't CryptoRecv \<Rightarrow> bool" where
  "crypto_good read_hs t0 src R c \<longleftrightarrow> crypto_inv src R c \<and> ahead c \<and>
     fed read_hs t0 (take (unat (crypto_recv_offset c)) src) (crypto_tls c)"

lemma buffer_chunk:
  assumes "crypto_inv src R c" "ahead c" "chunk_ok src (offset, data)" "crypto_recv_offset c < offset"
    and "map_of (crypto_recv_buf c) offset = None \<or>
         (\<exists>d. map_of (crypto_recv_buf c) offset = Some d \<and> length d \<le> length data)"
  defines "c' \<equiv> c\<lparr>crypto_recv_buf := bt_insert offset data (crypto_recv_buf c)\<rparr>"
  shows "crypto_inv src (R \<union> span (offset, data)) c' \<and> ahead c'"
proof -
  have wf: "bt_wf (crypto_recv_buf c)" using assms(1) by (simp add: crypto_inv_def)
  have old: "span e \<subseteq> span (offset, data)" if "e \<in> set (crypto_recv_buf c)" "fst e = offset" for e
    using assms(5) map_of_is_SomeI [OF bt_wf_distinct [OF wf], of "fst e" "snd e"] that by (auto simp: span_def)
  then have "spans (bt_insert offset data (crypto_recv_buf c)) = span (offset, data) \<union> spans (crypto_recv_buf c)"
    unfolding spans_def set_bt_insert [OF wf] by blast
  then show ?thesis
    using assms(1-4) wf by (auto simp: crypto_inv_def ahead_def c'_def set_bt_insert)
qed

lemma crypto_receive_correct:
  assumes "length src < 2 ^ 64" "crypto_good read_hs t0 src R c" "chunk_ok src (offset, data)"
    and "crypto_receive read_hs offset data c = (r, c')"
  shows "case r of Inr _ \<Rightarrow> crypto_good read_hs t0 src (R \<union> span (offset, data)) c'
                 | Inl err \<Rightarrow> crypto_rejected read_hs t0 src err"
proof -
  let ?e = "(offset, data)" and ?n = "crypto_recv_offset c"
  have inv: "crypto_inv src R c" "ahead c" "fed read_hs t0 (take (unat ?n) src) (crypto_tls c)"
    using assms(2) by (auto simp: crypto_good_def)
  have ce: "unat (chunk_end ?e) = unat offset + length data" using unat_chunk_end [OF assms(3,1)] by simp
  consider (dup) "chunk_end ?e \<le> ?n" | (later) "?n < chunk_end ?e" "?n < offset" | (now) "?n < chunk_end ?e" "offset \<le> ?n"
    by fastforce
  then show ?thesis
  proof cases
    case dup
    then have "span ?e \<subseteq> R" using inv(1) ce by (auto simp: crypto_inv_def span_def word_le_nat_alt)
    moreover have "r = Inr False" "c' = c" using dup assms(4) by (auto simp: crypto_receive_def chunk_end_def Let_def)
    ultimately show ?thesis using assms(2) by (simp add: Un_absorb2)
  next
    case later
    then have late: "\<not> offset + word_of_nat (length data) \<le> ?n" "?n < offset" by (simp_all add: chunk_end_def)
    have r: "r = Inr False" "c' = (case map_of (crypto_recv_buf c) offset of
             Some existing \<Rightarrow>
               if length existing < length data
               then c\<lparr>crypto_recv_buf := bt_insert offset data (crypto_recv_buf c)\<rparr> else c
           | None \<Rightarrow> c\<lparr>crypto_recv_buf := bt_insert offset data (crypto_recv_buf c)\<rparr>)"
      using late assms(4) by (auto simp: crypto_receive_def Let_def)
    show ?thesis
    proof (cases "\<exists>d. map_of (crypto_recv_buf c) offset = Some d \<and> length data \<le> length d")
      case True
      then obtain d where d: "map_of (crypto_recv_buf c) offset = Some d" "length data \<le> length d" by blast
      then have "span ?e \<subseteq> R" using inv(1) map_of_SomeD [OF d(1)] by (force simp: crypto_inv_def spans_def span_def)
      then show ?thesis using r d assms(2) by (simp add: Un_absorb2)
    next
      case False
      then have "c' = c\<lparr>crypto_recv_buf := bt_insert offset data (crypto_recv_buf c)\<rparr>"
        using r(2) by (auto split: option.splits)
      then show ?thesis
        using buffer_chunk [OF inv(1,2) assms(3) later(2)] False inv(3) r(1)
        by (auto simp: crypto_good_def) (metis linear not_None_eq)+
    qed
  next
    case now
    then have nw: "\<not> offset + word_of_nat (length data) \<le> ?n" "\<not> ?n < offset" by (simp_all add: chunk_end_def)
    obtain r1 c1 where f: "feed_tls read_hs (drop (unat (?n - offset)) data) c = (r1, c1)" by fastforce
    note fc = feed_chunk [OF assms(3,1), of c, simplified fst_conv snd_conv, OF now(2) less_imp_le [OF now(1)] f]
    have step: "crypto_receive read_hs offset data c = (case r1 of Inl e \<Rightarrow> (Inl e, c1)
        | Inr _ \<Rightarrow> (case crypto_drain read_hs c1 of (r, c) \<Rightarrow> (map_sum id (\<lambda>_. True) r, c)))"
      using nw f by (simp add: crypto_receive_def Let_def split: sum.splits)
    show ?thesis
    proof (cases r1)
      case (Inl err)
      then have "r = Inl err" using step assms(4) by simp
      then show ?thesis using fc(4) [OF Inl] inv(3) by (fastforce simp: crypto_rejected_def)
    next
      case (Inr x)
      have "R \<union> span ?e = {..<unat (crypto_recv_offset c1)} \<union> spans (crypto_recv_buf c1)"
        using inv(1) now ce fc(1,2) by (auto simp: crypto_inv_def span_def word_le_nat_alt word_less_nat_alt)
      then have i: "crypto_inv src (R \<union> span ?e) c1"
        using inv(1) assms(3) fc(1,2) ce by (auto simp: crypto_inv_def chunk_ok_def)
      obtain r2 c2 where d: "crypto_drain read_hs c1 = (r2, c2)" by fastforce
      have "r = map_sum id (\<lambda>_. True) r2" "c' = c2" using step Inr d assms(4) by auto
      then show ?thesis
        using crypto_drain_correct [OF assms(1) i _ d, of t0] fc(3) [of t0] Inr inv(3)
        by (cases r2) (simp_all add: crypto_good_def crypto_rejected_def)
    qed
  qed
qed


text \<open>A connection receives CRYPTO frames one after the other and stops at the first error.\<close>

fun crypto_run :: "'t read_hs \<Rightarrow> (u64 \<times> bytes) list \<Rightarrow> 't CryptoRecv \<Rightarrow> (QuicError + unit) \<times> 't CryptoRecv" where
  "crypto_run read_hs [] c = (Inr (), c)"
| "crypto_run read_hs ((offset, data) # frames) c =
     (case crypto_receive read_hs offset data c of
        (Inl e, c) \<Rightarrow> (Inl e, c)
      | (Inr _, c) \<Rightarrow> crypto_run read_hs frames c)"

definition crypto_new :: "'t \<Rightarrow> 't CryptoRecv" where
  "crypto_new t = \<lparr>crypto_recv_offset = 0, crypto_recv_buf = [], crypto_tls = t\<rparr>"

lemma crypto_run_correct:
  assumes "length src < 2 ^ 64"
  shows "crypto_good read_hs t0 src R c \<Longrightarrow> list_all (chunk_ok src) frames \<Longrightarrow> crypto_run read_hs frames c = (r, c') \<Longrightarrow>
    (case r of Inr _ \<Rightarrow> crypto_good read_hs t0 src (R \<union> spans frames) c'
             | Inl err \<Rightarrow> crypto_rejected read_hs t0 src err)"
proof (induction frames arbitrary: R c)
  case Nil
  then show ?case by (auto simp: spans_def)
next
  case (Cons f frames)
  obtain offset data where f: "f = (offset, data)" by fastforce
  obtain r1 c1 where s: "crypto_receive read_hs offset data c = (r1, c1)" by fastforce
  note cr = crypto_receive_correct [OF assms Cons.prems(1) _ s]
  show ?case
  proof (cases r1)
    case (Inl e)
    then show ?thesis using cr Cons.prems(2,3) s f by auto
  next
    case (Inr b)
    then have "crypto_good read_hs t0 src (R \<union> span f) c1" using cr Cons.prems(2) f by simp
    moreover have "R \<union> spans (f # frames) = (R \<union> span f) \<union> spans frames" by (auto simp: spans_def)
    moreover have "crypto_run read_hs frames c1 = (r, c')" "list_all (chunk_ok src) frames"
      using Cons.prems(2,3) Inr s f by simp_all
    ultimately show ?thesis using Cons.IH [of "R \<union> span f" c1] by metis
  qed
qed

lemma crypto_new_good: "crypto_good read_hs t src {} (crypto_new t)"
  by (simp add: crypto_good_def crypto_inv_def ahead_def crypto_new_def spans_def fed_Nil)

section \<open>Properties\<close>

text \<open>C4: whatever CRYPTO frames of a handshake stream arrive, in whatever order, overlap or repetition, TLS
  is fed the bytes of the stream from its start, in order and each once, up to the first byte that no
  frame has carried yet; the only error is one that TLS reports for such bytes.\<close>

theorem crypto_stream_delivered:
  assumes "length src < 2 ^ 64" "list_all (chunk_ok src) frames"
  shows "case crypto_run read_hs frames (crypto_new t) of
      (Inr _, c') \<Rightarrow> fed read_hs t (take (unat (crypto_recv_offset c')) src) (crypto_tls c') \<and>
        {..<unat (crypto_recv_offset c')} \<subseteq> spans frames \<and> unat (crypto_recv_offset c') \<notin> spans frames
    | (Inl err, c') \<Rightarrow> crypto_rejected read_hs t src err"
proof -
  obtain r c' where r: "crypto_run read_hs frames (crypto_new t) = (r, c')" by fastforce
  have "unat (crypto_recv_offset c') \<notin> R \<and> {..<unat (crypto_recv_offset c')} \<subseteq> R" if "crypto_good read_hs t src R c'" for R
    using that by (auto simp: crypto_good_def crypto_inv_def ahead_def spans_def span_def word_less_nat_alt)
  then show ?thesis
    using crypto_run_correct [OF assms(1) crypto_new_good assms(2) r] r
    by (cases r) (simp_all add: crypto_good_def)
qed

definition accept_all :: "bytes read_hs" where "accept_all bs t = (Inr (), t @ bs)"

theorem crypto_stream_delivered_witness:
  "let c' = snd (crypto_run accept_all [(2, [7, 8]), (1, [6, 7]), (0, [5, 6]), (9, [4])] (crypto_new []))
   in crypto_tls c' = [5, 6, 7, 8] \<and>
      unat (crypto_recv_offset c') \<notin> spans [(2, [7, 8]), (1, [6, 7]), (0, [5, 6]), (9, [4])]"
proof -
  let ?fs = "[(2, [7, 8]), (1, [6, 7]), (0, [5, 6]), (9, [4])] :: (u64 \<times> bytes) list"
  have ok: "length [5, 6, 7, 8, 0, 0, 0, 0, 0, 4 :: u8] < 2 ^ 64" "list_all (chunk_ok [5, 6, 7, 8, 0, 0, 0, 0, 0, 4]) ?fs"
    by (simp_all add: chunk_ok_def)
  have "crypto_run accept_all ?fs (crypto_new []) =
    (Inr (), \<lparr>crypto_recv_offset = 4, crypto_recv_buf = [(9, [4])], crypto_tls = [5, 6, 7, 8]\<rparr>)"
    by (simp add: crypto_receive_def crypto_new_def feed_tls_def accept_all_def map_err_def crypto_drain.simps
        remove_stale_def chunk_end_def next_start_def bt_range_to_rev_def)
  then show ?thesis using crypto_stream_delivered [OF ok, of accept_all "[]"] by simp
qed

end
