(* ===== verification/Connection_Id.thy ===== *)
theory Connection_Id
  imports Crypto_Stream
begin

text \<open>
  Connection identifiers (\<open>starfish-quic/src/transport/connection_id.rs\<close>): the identifiers each side
  issued, their retirement, the identifier in use, and the frames of \<open>connection.rs\<close> that exchange
  them.  \<open>rand seq\<close> gives the random identifier and reset-token bytes drawn when the identifier with
  sequence number \<open>seq\<close> is issued.
\<close>

section \<open>The manager\<close>

record IssuedConnectionId =
  sequence_number :: u64
  cid :: ConnectionId
  stateless_reset_token :: "bytes option"
  retired :: bool
  advertised_to_peer :: bool

record ConnectionIdManager =
  issued :: "IssuedConnectionId list"
  peer :: "IssuedConnectionId list"
  active_peer_cid_index :: nat
  next_sequence :: u64
  cm_cid_len :: u8
  max_peer_retire_prior_to :: u64

type_synonym cid_rand = "u64 \<Rightarrow> (nat \<Rightarrow> bytes) \<times> bytes"

definition prune_retired_local_cids :: "ConnectionIdManager \<Rightarrow> ConnectionIdManager" where
  "prune_retired_local_cids m = m\<lparr>issued := filter (\<lambda>entry. \<not> retired entry) (issued m)\<rparr>"

definition retire_peer_cids_below :: "u64 \<Rightarrow> ConnectionIdManager \<Rightarrow> ConnectionIdManager" where
  "retire_peer_cids_below retire_prior_to m =
     m\<lparr>peer := map (\<lambda>entry. if sequence_number entry < retire_prior_to then entry\<lparr>retired := True\<rparr> else entry) (peer m)\<rparr>"

definition rotate_away_from_retired_active_peer_cid :: "ConnectionIdManager \<Rightarrow> ConnectionIdManager" where
  "rotate_away_from_retired_active_peer_cid m =
     (if retired (peer m ! active_peer_cid_index m)
      then case position (\<lambda>entry. \<not> retired entry) (peer m) of
             Some new_index \<Rightarrow> m\<lparr>active_peer_cid_index := new_index\<rparr>
           | None \<Rightarrow> m
      else m)"

definition cm_new :: "ConnectionId \<Rightarrow> ConnectionId \<Rightarrow> ConnectionIdManager" where
  "cm_new initial_local_cid initial_peer_cid =
     \<lparr>issued = [\<lparr>sequence_number = 0, cid = initial_local_cid, stateless_reset_token = None, retired = False,
                  advertised_to_peer = True\<rparr>],
      peer = [\<lparr>sequence_number = 0, cid = initial_peer_cid, stateless_reset_token = None, retired = False,
                advertised_to_peer = True\<rparr>],
      active_peer_cid_index = 0, next_sequence = 1, cm_cid_len = word_of_nat (cid_len initial_local_cid),
      max_peer_retire_prior_to = 0\<rparr>"

definition issue_new_cid :: "cid_rand \<Rightarrow> ConnectionIdManager \<Rightarrow> IssuedConnectionId \<times> ConnectionIdManager" where
  "issue_new_cid rand m =
     (let (cid_bytes, token) = rand (next_sequence m);
          entry = \<lparr>sequence_number = next_sequence m, cid = cid_generate cid_bytes (cm_cid_len m),
                   stateless_reset_token = Some token, retired = False, advertised_to_peer = False\<rparr>
      in (entry, m\<lparr>next_sequence := next_sequence m + 1, issued := issued m @ [entry]\<rparr>))"

definition add_peer_cid ::
    "u64 \<Rightarrow> ConnectionId \<Rightarrow> bytes \<Rightarrow> u64 \<Rightarrow> ConnectionIdManager \<Rightarrow> (QuicError + unit) \<times> ConnectionIdManager" where
  "add_peer_cid seq new_cid token retire_prior_to m =
     (let retire_prior_to = max (max_peer_retire_prior_to m) retire_prior_to;
          m = m\<lparr>max_peer_retire_prior_to := retire_prior_to\<rparr>;
          m = retire_peer_cids_below retire_prior_to m
      in case position (\<lambda>entry. sequence_number entry = seq) (peer m) of
           Some existing_index \<Rightarrow>
             let existing = peer m ! existing_index in
             if cid existing \<noteq> new_cid \<or> stateless_reset_token existing \<noteq> Some token
             then (Inl (Transport ProtocolViolation
                     (Fmt ''NEW_CONNECTION_ID sequence {sequence_number} conflicts with existing CID'' [NumArg seq])), m)
             else let m = (if seq < retire_prior_to
                           then m\<lparr>peer := (peer m)[existing_index := existing\<lparr>retired := True\<rparr>]\<rparr> else m)
                  in (Inr (), rotate_away_from_retired_active_peer_cid m)
         | None \<Rightarrow>
             let m = m\<lparr>peer := peer m @ [\<lparr>sequence_number = seq, cid = new_cid, stateless_reset_token = Some token,
                                           retired = seq < retire_prior_to, advertised_to_peer = True\<rparr>]\<rparr>
             in (Inr (), rotate_away_from_retired_active_peer_cid m))"

definition retire_local_cid :: "cid_rand \<Rightarrow> u64 \<Rightarrow> ConnectionIdManager \<Rightarrow> ConnectionIdManager" where
  "retire_local_cid rand seq m =
     (let m = m\<lparr>issued := map (\<lambda>entry. if sequence_number entry = seq then entry\<lparr>retired := True\<rparr> else entry) (issued m)\<rparr>;
          m = prune_retired_local_cids m
      in if issued m = [] then snd (issue_new_cid rand m) else m)"

definition active_peer_cid :: "ConnectionIdManager \<Rightarrow> ConnectionId" where
  "active_peer_cid m = cid (peer m ! active_peer_cid_index m)"

text \<open>\<open>max_by_key\<close> keeps the last of several maxima.\<close>

fun max_by_seq :: "(nat \<times> IssuedConnectionId) list \<Rightarrow> (nat \<times> IssuedConnectionId) option" where
  "max_by_seq [] = None"
| "max_by_seq (e # es) =
     (case max_by_seq es of
        None \<Rightarrow> Some e
      | Some b \<Rightarrow> if sequence_number (snd b) \<ge> sequence_number (snd e) then Some b else Some e)"

definition rotate_active_peer_cid :: "ConnectionIdManager \<Rightarrow> bool \<times> ConnectionIdManager" where
  "rotate_active_peer_cid m =
     (case max_by_seq (filter (\<lambda>(index, entry). index \<noteq> active_peer_cid_index m \<and> \<not> retired entry)
                         (List.enumerate 0 (peer m))) of
        Some (new_index, _) \<Rightarrow> (True, m\<lparr>active_peer_cid_index := new_index\<rparr>)
      | None \<Rightarrow> (False, m))"

definition primary_local_cid :: "ConnectionIdManager \<Rightarrow> ConnectionId" where
  "primary_local_cid m = (case find (\<lambda>e. \<not> retired e) (issued m) of Some e \<Rightarrow> cid e | None \<Rightarrow> cid (issued m ! 0))"

definition set_peer_cid :: "ConnectionId \<Rightarrow> ConnectionIdManager \<Rightarrow> ConnectionIdManager" where
  "set_peer_cid new_cid m =
     m\<lparr>peer := (peer m)[active_peer_cid_index m := (peer m ! active_peer_cid_index m)\<lparr>cid := new_cid\<rparr>]\<rparr>"

definition set_primary_local_stateless_reset_token :: "bytes \<Rightarrow> ConnectionIdManager \<Rightarrow> ConnectionIdManager" where
  "set_primary_local_stateless_reset_token token m =
     m\<lparr>issued := (issued m)[0 := (issued m ! 0)\<lparr>stateless_reset_token := Some token\<rparr>]\<rparr>"

definition set_active_peer_stateless_reset_token :: "bytes \<Rightarrow> ConnectionIdManager \<Rightarrow> ConnectionIdManager" where
  "set_active_peer_stateless_reset_token token m =
     m\<lparr>peer := (peer m)[active_peer_cid_index m :=
          (peer m ! active_peer_cid_index m)\<lparr>stateless_reset_token := Some token\<rparr>]\<rparr>"

definition is_peer_stateless_reset_token :: "ConnectionIdManager \<Rightarrow> bytes \<Rightarrow> bool" where
  "is_peer_stateless_reset_token m token = list_ex (\<lambda>e. stateless_reset_token e = Some token) (peer m)"

definition local_cids :: "ConnectionIdManager \<Rightarrow> IssuedConnectionId list" where
  "local_cids m = filter (\<lambda>entry. \<not> retired entry) (issued m)"

definition active_local_cid_count :: "ConnectionIdManager \<Rightarrow> nat" where
  "active_local_cid_count m = length (filter (\<lambda>entry. \<not> retired entry) (issued m))"

definition local_retire_prior_to :: "ConnectionIdManager \<Rightarrow> u64" where
  "local_retire_prior_to m =
     (case map sequence_number (filter (\<lambda>entry. \<not> retired entry) (issued m)) of
        [] \<Rightarrow> 0 | s # ss \<Rightarrow> fold min ss s)"

definition take_unadvertised_local_cids :: "ConnectionIdManager \<Rightarrow> IssuedConnectionId list \<times> ConnectionIdManager" where
  "take_unadvertised_local_cids m =
     (let pending = map (\<lambda>entry. entry\<lparr>advertised_to_peer := True\<rparr>)
                      (filter (\<lambda>entry. \<not> retired entry \<and> \<not> advertised_to_peer entry) (issued m));
          m = m\<lparr>issued := map (\<lambda>entry. if \<not> retired entry \<and> \<not> advertised_to_peer entry
                                       then entry\<lparr>advertised_to_peer := True\<rparr> else entry) (issued m)\<rparr>
      in (pending, prune_retired_local_cids m))"

fun retire_loop ::
    "u64 \<Rightarrow> IssuedConnectionId list \<Rightarrow> u64 list \<Rightarrow> IssuedConnectionId list \<Rightarrow> nat
     \<Rightarrow> u64 list \<times> IssuedConnectionId list \<times> nat" where
  "retire_loop active_seq [] retire retained new_active_index = (retire, retained, new_active_index)"
| "retire_loop active_seq (entry # es) retire retained new_active_index =
     (if retired entry \<and> sequence_number entry \<noteq> active_seq
      then retire_loop active_seq es (retire @ [sequence_number entry]) retained new_active_index
      else let new_active_index = (if sequence_number entry = active_seq then length retained else new_active_index)
           in retire_loop active_seq es retire (retained @ [entry]) new_active_index)"

definition take_peer_cids_to_retire :: "ConnectionIdManager \<Rightarrow> u64 list \<times> ConnectionIdManager" where
  "take_peer_cids_to_retire m =
     (let active_seq = sequence_number (peer m ! active_peer_cid_index m);
          (retire, retained, new_active_index) = retire_loop active_seq (peer m) [] [] 0
      in (retire, m\<lparr>peer := retained, active_peer_cid_index := new_active_index\<rparr>))"

section \<open>The frames that exchange identifiers\<close>

definition process_new_connection_id ::
    "u64 \<Rightarrow> u64 \<Rightarrow> bytes \<Rightarrow> bytes \<Rightarrow> ConnectionIdManager \<Rightarrow> (QuicError + unit) \<times> ConnectionIdManager" where
  "process_new_connection_id seq retire_prior_to connection_id token m =
     (if retire_prior_to > seq
      then (Inl (Transport FrameEncodingError
              (Fmt ''NEW_CONNECTION_ID retire_prior_to {retire_prior_to} exceeds sequence {sequence_number}''
                [NumArg retire_prior_to, NumArg seq])), m)
      else if \<not> (1 \<le> length connection_id \<and> length connection_id \<le> MAX_CID_LEN)
      then (Inl (Transport FrameEncodingError
              (Fmt ''NEW_CONNECTION_ID invalid connection ID length {}'' [NumArg (word_of_nat (length connection_id))])), m)
      else add_peer_cid seq (cid_from_slice connection_id) token retire_prior_to m)"

function issue_until :: "cid_rand \<Rightarrow> nat \<Rightarrow> ConnectionIdManager \<Rightarrow> ConnectionIdManager" where
  "issue_until rand target m =
     (if active_local_cid_count m < target then issue_until rand target (snd (issue_new_cid rand m)) else m)"
  by pat_completeness auto
termination
  by (relation "measure (\<lambda>(_, target, m). target - active_local_cid_count m)")
    (auto simp: active_local_cid_count_def issue_new_cid_def Let_def split_beta)

declare issue_until.simps [simp del]

definition generate_connection_id_updates ::
    "cid_rand \<Rightarrow> bool \<Rightarrow> ConnectionState \<Rightarrow> u64 \<Rightarrow> ConnectionIdManager \<times> (PacketNumberSpace \<times> Frame) list
     \<Rightarrow> ConnectionIdManager \<times> (PacketNumberSpace \<times> Frame) list" where
  "generate_connection_id_updates rand params_applied state peer_active_connection_id_limit = (\<lambda>(m, pending).
     (if \<not> params_applied \<or> state \<noteq> StConnected \<or> cm_cid_len m = 0 then (m, pending)
      else let target_active_local_cids = unat (min peer_active_connection_id_limit 2);
               m = issue_until rand target_active_local_cids m;
               (retire, m) = take_peer_cids_to_retire m;
               pending = pending @ map (\<lambda>seq. (SpApplicationData, RetireConnectionId seq)) retire;
               retire_prior_to = local_retire_prior_to m;
               (entries, m) = take_unadvertised_local_cids m;
               pending = pending @ List.map_filter (\<lambda>entry.
                 map_option (\<lambda>token. (SpApplicationData,
                   NewConnectionId (sequence_number entry) (min retire_prior_to (sequence_number entry))
                     (cid_as_slice (cid entry)) token)) (stateless_reset_token entry)) entries
           in (m, pending)))"

section \<open>Invariant\<close>

definition cid_core :: "ConnectionIdManager \<Rightarrow> bool" where
  "cid_core m \<longleftrightarrow> active_peer_cid_index m < length (peer m) \<and>
     distinct (map sequence_number (peer m)) \<and> distinct (map sequence_number (issued m)) \<and>
     list_all (\<lambda>e. sequence_number e < next_sequence m \<and> \<not> retired e) (issued m) \<and>
     list_all (\<lambda>e. sequence_number e < max_peer_retire_prior_to m \<longrightarrow> retired e) (peer m)"

definition cid_inv :: "ConnectionIdManager \<Rightarrow> bool" where
  "cid_inv m \<longleftrightarrow> cid_core m \<and> issued m \<noteq> []"

named_theorems cid_ops \<open>definitions of the operations of the connection identifier manager\<close>

declare prune_retired_local_cids_def [cid_ops] retire_peer_cids_below_def [cid_ops]
  rotate_away_from_retired_active_peer_cid_def [cid_ops] set_peer_cid_def [cid_ops]
  set_primary_local_stateless_reset_token_def [cid_ops] set_active_peer_stateless_reset_token_def [cid_ops]

lemma map_update_same: "f (g (xs ! i)) = f (xs ! i) \<Longrightarrow> map f (xs[i := g (xs ! i)]) = map f xs"
  by (metis list_update_id map_update)

lemma list_all_update:
  "list_all P xs \<Longrightarrow> (i < length xs \<Longrightarrow> P (xs ! i) \<Longrightarrow> P y) \<Longrightarrow> list_all P (xs[i := y])"
  by (cases "i < length xs") (auto simp: list_all_length nth_list_update)

lemma positionD:
  "position P xs = Some i \<Longrightarrow> i < length xs \<and> P (xs ! i)"
  "position P xs = None \<Longrightarrow> x \<in> set xs \<Longrightarrow> \<not> P x"
  using position_split [of xs P] by (auto split: option.splits)

lemma cid_inv_new: "cid_inv (cm_new l p)"
  by (simp add: cid_inv_def cid_core_def cm_new_def)

lemma less_next: "s \<le> n \<Longrightarrow> n < - 1 \<Longrightarrow> (s :: u64) < n + 1"
proof -
  assume "s \<le> n" "n < - 1"
  then have "unat (n + 1) = Suc (unat n)" by (metis add.commute add_eq_0_iff2 less_irrefl unatSuc)
  then show ?thesis using \<open>s \<le> n\<close> by (simp add: word_less_nat_alt word_le_nat_alt)
qed

lemma cid_inv_issue:
  assumes "cid_core m" "next_sequence m < - 1"
  shows "cid_inv (snd (issue_new_cid rand m))"
  using assms by (auto simp: cid_inv_def cid_core_def issue_new_cid_def Let_def split_beta list_all_iff less_next less_imp_le)

lemma retire_entry [simp]:
  "sequence_number (if b then e\<lparr>retired := True\<rparr> else e) = sequence_number e"
  "retired (if b then e\<lparr>retired := True\<rparr> else e) \<longleftrightarrow> b \<or> retired e"
  by simp_all

lemma rotate_away_fields [simp]:
  "peer (rotate_away_from_retired_active_peer_cid m) = peer m"
  "issued (rotate_away_from_retired_active_peer_cid m) = issued m"
  "next_sequence (rotate_away_from_retired_active_peer_cid m) = next_sequence m"
  "max_peer_retire_prior_to (rotate_away_from_retired_active_peer_cid m) = max_peer_retire_prior_to m"
  "cm_cid_len (rotate_away_from_retired_active_peer_cid m) = cm_cid_len m"
  by (simp_all add: cid_ops split: option.splits)

lemma cid_inv_rotate_away: "cid_inv m \<Longrightarrow> cid_inv (rotate_away_from_retired_active_peer_cid m)"
  by (auto simp: cid_inv_def cid_core_def) (auto simp: cid_ops split: option.splits dest: positionD(1))

lemma rotate_away_usable:
  assumes "e \<in> set (peer m)" "\<not> retired e"
  shows "\<not> retired (peer m ! active_peer_cid_index (rotate_away_from_retired_active_peer_cid m))"
  using assms by (auto simp: cid_ops split: option.splits dest: positionD)

lemma cid_inv_retire_below:
  "cid_inv m \<Longrightarrow> max_peer_retire_prior_to m \<le> n \<Longrightarrow> cid_inv (retire_peer_cids_below n (m\<lparr>max_peer_retire_prior_to := n\<rparr>))"
  by (auto simp: cid_inv_def cid_core_def cid_ops list_all_iff comp_def)

lemma cid_inv_add_peer_cid:
  assumes "cid_inv m"
  shows "cid_inv (snd (add_peer_cid seq new_cid token rpt m))"
proof -
  define n where "n = max (max_peer_retire_prior_to m) rpt"
  define m1 where "m1 = retire_peer_cids_below n (m\<lparr>max_peer_retire_prior_to := n\<rparr>)"
  have i: "cid_inv m1" unfolding m1_def by (rule cid_inv_retire_below [OF assms]) (simp add: n_def)
  have n: "max_peer_retire_prior_to m1 = n" by (simp add: m1_def cid_ops)
  show ?thesis
  proof (cases "position (\<lambda>e. sequence_number e = seq) (peer m1)")
    case None
    then have "seq \<notin> sequence_number ` set (peer m1)" by (auto dest: positionD(2))
    then have "cid_inv (m1\<lparr>peer := peer m1 @ [\<lparr>sequence_number = seq, cid = new_cid, stateless_reset_token = Some token,
                   retired = seq < n, advertised_to_peer = True\<rparr>]\<rparr>)"
      using i n by (auto simp: cid_inv_def cid_core_def)
    then show ?thesis
      using None by (simp add: add_peer_cid_def Let_def n_def [symmetric] m1_def [symmetric] cid_inv_rotate_away)
  next
    case (Some k)
    then have "cid_inv (m1\<lparr>peer := (peer m1)[k := (peer m1 ! k)\<lparr>retired := True\<rparr>]\<rparr>)"
      using i by (auto simp: cid_inv_def cid_core_def map_update_same intro: list_all_update)
    then show ?thesis
      using Some i by (simp add: add_peer_cid_def Let_def n_def [symmetric] m1_def [symmetric] cid_inv_rotate_away)
  qed
qed

lemma distinct_map_filter_seq: "distinct (map f xs) \<Longrightarrow> distinct (map f (filter P xs))"
  by (induction xs) auto

lemma cid_inv_retire_local:
  assumes "cid_inv m" "next_sequence m < - 1"
  shows "cid_inv (retire_local_cid rand seq m)"
proof -
  define es where "es = map (\<lambda>e. if sequence_number e = seq then e\<lparr>retired := True\<rparr> else e) (issued m)"
  define m1 where "m1 = prune_retired_local_cids (m\<lparr>issued := es\<rparr>)"
  have es: "map sequence_number es = map sequence_number (issued m)" by (simp add: es_def)
  have "sequence_number ` set es = sequence_number ` set (issued m)" using es by (metis list.set_map)
  then have "\<forall>e \<in> set es. sequence_number e < next_sequence m"
    using assms(1) unfolding cid_inv_def cid_core_def list_all_iff by (metis (no_types, lifting) imageE image_eqI)
  then have "cid_core m1"
    using assms(1) es unfolding m1_def cid_ops cid_inv_def cid_core_def
    by (simp add: list_all_iff distinct_map_filter_seq)
  moreover have "next_sequence m1 = next_sequence m" by (simp add: m1_def cid_ops)
  moreover have "retire_local_cid rand seq m = (if issued m1 = [] then snd (issue_new_cid rand m1) else m1)"
    by (simp only: retire_local_cid_def Let_def m1_def es_def)
  ultimately show ?thesis using cid_inv_issue [of m1] assms(2) by (simp add: cid_inv_def)
qed

lemma max_by_seq_mem: "max_by_seq es = Some e \<Longrightarrow> e \<in> set es"
  by (induction es arbitrary: e) (auto split: option.splits if_splits)

lemma rotate_active_index:
  assumes "rotate_active_peer_cid m = (True, m')"
  shows "active_peer_cid_index m' < length (peer m) \<and> \<not> retired (peer m ! active_peer_cid_index m') \<and>
    active_peer_cid_index m' \<noteq> active_peer_cid_index m"
  using assms
  by (auto simp: rotate_active_peer_cid_def in_set_enumerate_eq split: option.splits dest!: max_by_seq_mem)

lemma cid_inv_rotate_active: "cid_inv m \<Longrightarrow> cid_inv (snd (rotate_active_peer_cid m))"
  using rotate_active_index [of m "snd (rotate_active_peer_cid m)"]
  by (auto simp: cid_inv_def cid_core_def rotate_active_peer_cid_def split: option.splits prod.splits)

lemma cid_inv_setters:
  assumes "cid_inv m"
  shows "cid_inv (set_peer_cid c m)" "cid_inv (set_primary_local_stateless_reset_token t m)"
    "cid_inv (set_active_peer_stateless_reset_token t m)"
  using assms
  by (auto simp: cid_inv_def cid_core_def cid_ops map_update_same intro: list_all_update)

lemma advertise_entry [simp]:
  "sequence_number (if b then e\<lparr>advertised_to_peer := True\<rparr> else e) = sequence_number e"
  "retired (if b then e\<lparr>advertised_to_peer := True\<rparr> else e) = retired e"
  by simp_all

lemma take_unadvertised_spec:
  assumes "cid_inv m"
  shows "fst (take_unadvertised_local_cids m) =
      map (\<lambda>e. e\<lparr>advertised_to_peer := True\<rparr>) (filter (\<lambda>e. \<not> advertised_to_peer e) (issued m))"
    "snd (take_unadvertised_local_cids m) = m\<lparr>issued := map (\<lambda>e. e\<lparr>advertised_to_peer := True\<rparr>) (issued m)\<rparr>"
proof -
  have nr: "\<not> retired e" if "e \<in> set (issued m)" for e using assms that by (auto simp: cid_inv_def cid_core_def list_all_iff)
  show "fst (take_unadvertised_local_cids m) =
      map (\<lambda>e. e\<lparr>advertised_to_peer := True\<rparr>) (filter (\<lambda>e. \<not> advertised_to_peer e) (issued m))"
    using nr by (simp add: take_unadvertised_local_cids_def Let_def cong: filter_cong)
  have "e\<lparr>advertised_to_peer := True\<rparr> = e" if "advertised_to_peer e" for e :: IssuedConnectionId
    using that by (cases e) simp
  then have "map (\<lambda>e. if \<not> retired e \<and> \<not> advertised_to_peer e then e\<lparr>advertised_to_peer := True\<rparr> else e) (issued m)
      = map (\<lambda>e. e\<lparr>advertised_to_peer := True\<rparr>) (issued m)"
    using nr by (auto intro!: map_cong)
  moreover have "filter (\<lambda>e. \<not> retired e) (map (\<lambda>e. e\<lparr>advertised_to_peer := True\<rparr>) (issued m))
      = map (\<lambda>e. e\<lparr>advertised_to_peer := True\<rparr>) (issued m)"
    using nr by (auto simp: filter_id_conv)
  ultimately show "snd (take_unadvertised_local_cids m) = m\<lparr>issued := map (\<lambda>e. e\<lparr>advertised_to_peer := True\<rparr>) (issued m)\<rparr>"
    by (simp only: take_unadvertised_local_cids_def Let_def cid_ops snd_conv) simp
qed

lemma cid_inv_take_unadvertised: "cid_inv m \<Longrightarrow> cid_inv (snd (take_unadvertised_local_cids m))"
  by (simp add: take_unadvertised_spec) (simp add: cid_inv_def cid_core_def list_all_iff comp_def)

section \<open>Retiring the peer's identifiers\<close>

lemma retire_loop_lists:
  "retire_loop a es rt kept i = (rt', kept', i') \<Longrightarrow>
     rt' = rt @ map sequence_number (filter (\<lambda>e. retired e \<and> sequence_number e \<noteq> a) es) \<and>
     kept' = kept @ filter (\<lambda>e. \<not> (retired e \<and> sequence_number e \<noteq> a)) es"
  by (induction a es rt kept i rule: retire_loop.induct) (auto split: if_splits simp: Let_def)

lemma retire_loop_index:
  "retire_loop a es rt kept i = (rt', kept', i') \<Longrightarrow> distinct (map sequence_number es) \<Longrightarrow>
     (a \<notin> sequence_number ` set es \<longrightarrow> i' = i) \<and>
     (\<forall>e \<in> set es. sequence_number e = a \<longrightarrow> i' < length kept' \<and> kept' ! i' = e)"
proof (induction a es rt kept i rule: retire_loop.induct)
  case (2 a e es rt kept i)
  show ?case
  proof (cases "retired e \<and> sequence_number e \<noteq> a")
    case True
    then show ?thesis using 2 by auto
  next
    case False
    show ?thesis
    proof (cases "sequence_number e = a")
      case a: True
      then have "retire_loop a es rt (kept @ [e]) (length kept) = (rt', kept', i')" using 2(3) by (simp add: Let_def)
      moreover from this have "kept' = (kept @ [e]) @ filter (\<lambda>e. \<not> (retired e \<and> sequence_number e \<noteq> a)) es"
        by (rule retire_loop_lists [THEN conjunct2])
      moreover have "a \<notin> sequence_number ` set es" using 2(4) a by auto
      ultimately show ?thesis using 2(2) [OF False] 2(4) a by (auto simp: Let_def image_iff)
    next
      case na: False
      then show ?thesis using 2(2) [OF False] 2(3,4) False by (auto simp: Let_def)
    qed
  qed
qed simp

lemma take_peer_cids_to_retire_spec:
  assumes "cid_inv m" "take_peer_cids_to_retire m = (rs, m')"
  shows "rs = map sequence_number (filter (\<lambda>e. retired e \<and> sequence_number e \<noteq> sequence_number (peer m ! active_peer_cid_index m)) (peer m))"
    "peer m' = filter (\<lambda>e. \<not> (retired e \<and> sequence_number e \<noteq> sequence_number (peer m ! active_peer_cid_index m))) (peer m)"
    "active_peer_cid_index m' < length (peer m')" "peer m' ! active_peer_cid_index m' = peer m ! active_peer_cid_index m"
    "issued m' = issued m" "next_sequence m' = next_sequence m" "max_peer_retire_prior_to m' = max_peer_retire_prior_to m"
    "cm_cid_len m' = cm_cid_len m"
proof -
  let ?a = "peer m ! active_peer_cid_index m"
  obtain retained i where l: "retire_loop (sequence_number ?a) (peer m) [] [] 0 = (rs, retained, i)"
    and m': "m' = m\<lparr>peer := retained, active_peer_cid_index := i\<rparr>"
    using assms(2) by (auto simp: take_peer_cids_to_retire_def Let_def split: prod.splits)
  have a: "?a \<in> set (peer m)" using assms(1) by (simp add: cid_inv_def cid_core_def)
  have d: "distinct (map sequence_number (peer m))" using assms(1) by (simp add: cid_inv_def cid_core_def)
  show "rs = map sequence_number (filter (\<lambda>e. retired e \<and> sequence_number e \<noteq> sequence_number ?a) (peer m))"
    "peer m' = filter (\<lambda>e. \<not> (retired e \<and> sequence_number e \<noteq> sequence_number ?a)) (peer m)"
    using retire_loop_lists [OF l] m' by simp_all
  show "active_peer_cid_index m' < length (peer m')" "peer m' ! active_peer_cid_index m' = ?a"
    using retire_loop_index [OF l d] a m' by auto
  show "issued m' = issued m" "next_sequence m' = next_sequence m" "max_peer_retire_prior_to m' = max_peer_retire_prior_to m"
    "cm_cid_len m' = cm_cid_len m"
    using m' by simp_all
qed

lemma cid_inv_take_retire: "cid_inv m \<Longrightarrow> cid_inv (snd (take_peer_cids_to_retire m))"
proof -
  assume i: "cid_inv m"
  obtain rs m' where t: "take_peer_cids_to_retire m = (rs, m')" by fastforce
  note sp = take_peer_cids_to_retire_spec [OF i t]
  show ?thesis using i sp(3) unfolding t cid_inv_def cid_core_def snd_conv sp(2,5-7)
    by (auto simp: list_all_iff distinct_map_filter_seq)
qed

section \<open>Identifiers that can be advertised\<close>

text \<open>What is documented of the random generator: the requested number of bytes.\<close>

definition rand_ok :: "cid_rand \<Rightarrow> bool" where
  "rand_ok rand \<longleftrightarrow> (\<forall>seq n. length (fst (rand seq) n) = n \<and> length (snd (rand seq)) = 16)"

definition cid_adv :: "ConnectionIdManager \<Rightarrow> bool" where
  "cid_adv m \<longleftrightarrow> unat (cm_cid_len m) \<le> MAX_CID_LEN \<and>
     list_all (\<lambda>e. advertised_to_peer e \<or> length (cid_as_slice (cid e)) = unat (cm_cid_len m) \<and>
                (\<exists>t. stateless_reset_token e = Some t \<and> length t = 16)) (issued m)"

lemma length_cid_generate:
  "unat len \<le> MAX_CID_LEN \<Longrightarrow> length (r (unat len)) = unat len \<Longrightarrow> length (cid_as_slice (cid_generate r len)) = unat len"
  by (simp add: cid_as_slice_def cid_generate_def Let_def MAX_CID_LEN_def min_def word_le_nat_alt)

lemma cid_adv_issue: "cid_adv m \<Longrightarrow> rand_ok rand \<Longrightarrow> cid_adv (snd (issue_new_cid rand m))"
  by (auto simp: cid_adv_def rand_ok_def issue_new_cid_def Let_def split_beta length_cid_generate)

lemma cid_adv_filter: "cid_adv m \<Longrightarrow> cid_adv (m\<lparr>issued := filter P (issued m)\<rparr>)"
  by (auto simp: cid_adv_def list_all_iff)

lemma add_peer_cid_fields [simp]:
  "issued (snd (add_peer_cid seq c t r m)) = issued m" "cm_cid_len (snd (add_peer_cid seq c t r m)) = cm_cid_len m"
  "next_sequence (snd (add_peer_cid seq c t r m)) = next_sequence m"
  by (simp_all add: add_peer_cid_def Let_def retire_peer_cids_below_def split: option.splits)

lemma cid_adv_peer_only: "issued m' = issued m \<Longrightarrow> cm_cid_len m' = cm_cid_len m \<Longrightarrow> cid_adv m \<Longrightarrow> cid_adv m'"
  by (simp add: cid_adv_def)

lemma cid_adv_retire: "cid_adv m \<Longrightarrow> rand_ok rand \<Longrightarrow> cid_adv (retire_local_cid rand seq m)"
proof -
  assume m: "cid_adv m" and r: "rand_ok rand"
  let ?m = "m\<lparr>issued := map (\<lambda>e. if sequence_number e = seq then e\<lparr>retired := True\<rparr> else e) (issued m)\<rparr>"
  have "cid_adv ?m" using m by (auto simp: cid_adv_def list_all_iff)
  then have "cid_adv (prune_retired_local_cids ?m)" unfolding prune_retired_local_cids_def by (rule cid_adv_filter)
  then show ?thesis
    using cid_adv_issue [OF _ r] unfolding retire_local_cid_def Let_def by (simp only: split: if_split) blast
qed

lemma cid_adv_set_token:
  "length token = 16 \<Longrightarrow> cid_adv m \<Longrightarrow> cid_adv (set_primary_local_stateless_reset_token token m)"
  by (auto simp: cid_adv_def set_primary_local_stateless_reset_token_def intro!: list_all_update)

lemma cid_adv_take_unadvertised: "cid_inv m \<Longrightarrow> cid_adv m \<Longrightarrow> cid_adv (snd (take_unadvertised_local_cids m))"
  by (auto simp: take_unadvertised_spec cid_adv_def list_all_iff)

section \<open>Reachable managers\<close>

text \<open>
  One call of an operation.  A 64-bit sequence counter that starts at one does not run out, which the
  guards of the two issuing steps say.
\<close>

inductive cid_step :: "ConnectionIdManager \<Rightarrow> ConnectionIdManager \<Rightarrow> bool" where
  issue: "rand_ok rand \<Longrightarrow> next_sequence m < - 1 \<Longrightarrow> cid_step m (snd (issue_new_cid rand m))"
| add: "cid_step m (snd (process_new_connection_id seq rpt bs token m))"
| retire: "rand_ok rand \<Longrightarrow> next_sequence m < - 1 \<Longrightarrow> cid_step m (retire_local_cid rand seq m)"
| rotate: "cid_step m (snd (rotate_active_peer_cid m))"
| set_peer: "cid_step m (set_peer_cid c m)"
| set_token: "length token = 16 \<Longrightarrow> cid_step m (set_primary_local_stateless_reset_token token m)"
| set_peer_token: "cid_step m (set_active_peer_stateless_reset_token token m)"
| advertise: "cid_step m (snd (take_unadvertised_local_cids m))"
| take_retire: "cid_step m (snd (take_peer_cids_to_retire m))"

lemma cid_step_inv: "cid_step m m' \<Longrightarrow> cid_inv m \<and> cid_adv m \<Longrightarrow> cid_inv m' \<and> cid_adv m'"
proof (induction rule: cid_step.induct)
  case (issue rand m)
  then have "cid_core m" by (simp add: cid_inv_def)
  then show ?case using issue cid_inv_issue cid_adv_issue by blast
next
  case (add m seq rpt bs token)
  moreover have "cid_adv (snd (process_new_connection_id seq rpt bs token m))"
    using add by (auto simp: process_new_connection_id_def intro: cid_adv_peer_only [of _ m])
  ultimately show ?case using cid_inv_add_peer_cid by (simp add: process_new_connection_id_def)
next
  case (rotate m)
  moreover have "cid_adv (snd (rotate_active_peer_cid m))"
    using rotate by (auto intro!: cid_adv_peer_only [of _ m] simp: rotate_active_peer_cid_def split: option.splits)
  ultimately show ?case by (simp add: cid_inv_rotate_active)
next
  case (take_retire m)
  moreover obtain rs m' where "take_peer_cids_to_retire m = (rs, m')" by fastforce
  ultimately show ?case
    using cid_inv_take_retire [of m] take_peer_cids_to_retire_spec(5,8) [of m rs m'] by (auto intro: cid_adv_peer_only [of _ m])
next
  case (set_peer m c)
  then show ?case using cid_inv_setters(1) [of m c] by (auto intro!: cid_adv_peer_only [of _ m] simp: set_peer_cid_def)
next
  case (set_peer_token m token)
  then show ?case
    using cid_inv_setters(3) [of m token]
    by (auto intro!: cid_adv_peer_only [of _ m] simp: set_active_peer_stateless_reset_token_def)
qed (simp_all add: cid_inv_retire_local cid_adv_retire cid_inv_setters cid_adv_set_token cid_inv_take_unadvertised
    cid_adv_take_unadvertised)

lemma cid_steps_inv: "cid_step\<^sup>*\<^sup>* m m' \<Longrightarrow> cid_inv m \<and> cid_adv m \<Longrightarrow> cid_inv m' \<and> cid_adv m'"
  by (induction rule: rtranclp_induct) (auto dest: cid_step_inv)

lemma cid_adv_new: "wf_cid l \<Longrightarrow> cid_adv (cm_new l p)"
  by (simp add: cid_adv_def cm_new_def wf_cid_def cid_len_def)

section \<open>Issuing and advertising\<close>

lemma issue_until_correct:
  "rand_ok rand \<Longrightarrow> unat (next_sequence m) + (target - active_local_cid_count m) < 2 ^ 64 \<Longrightarrow> cid_inv m \<Longrightarrow> cid_adv m \<Longrightarrow>
    cid_inv (issue_until rand target m) \<and> cid_adv (issue_until rand target m) \<and>
    target \<le> active_local_cid_count (issue_until rand target m) \<and>
    peer (issue_until rand target m) = peer m \<and>
    active_peer_cid_index (issue_until rand target m) = active_peer_cid_index m \<and>
    cm_cid_len (issue_until rand target m) = cm_cid_len m"
proof (induction rand target m rule: issue_until.induct)
  case (1 rand target m)
  show ?case
  proof (cases "active_local_cid_count m < target")
    case True
    let ?m = "snd (issue_new_cid rand m)"
    have lt: "unat (next_sequence m) + 1 < 2 ^ 64" using True "1.prems"(2) by linarith
    then have u: "unat (next_sequence m + 1) = unat (next_sequence m) + 1" "next_sequence m < - 1"
      by (simp_all add: unat_word_ariths word_less_nat_alt unsigned_minus_1_eq_mask mask_eq_exp_minus_1)
    have c: "active_local_cid_count ?m = active_local_cid_count m + 1"
      "next_sequence ?m = next_sequence m + 1" "peer ?m = peer m" "cm_cid_len ?m = cm_cid_len m"
      "active_peer_cid_index ?m = active_peer_cid_index m"
      by (simp_all add: active_local_cid_count_def issue_new_cid_def Let_def split_beta)
    have "cid_inv ?m" "cid_adv ?m"
      using "1.prems" u(2) by (auto simp: cid_inv_def [of m] intro: cid_inv_issue cid_adv_issue)
    then show ?thesis using "1.IH" [OF True] True "1.prems"(1,2) c u(1) by (simp add: issue_until.simps [of rand target m])
  next
    case False
    then show ?thesis using "1.prems" by (simp add: issue_until.simps [of rand target m])
  qed
qed

lemma fold_min_le: "fold min ss (s :: 'a::linorder) \<le> s \<and> (\<forall>x \<in> set ss. fold min ss s \<le> x)"
proof (induction ss arbitrary: s)
  case (Cons a ss)
  then show ?case using Cons.IH [of "min a s"] by simp
qed simp

section \<open>Properties\<close>

text \<open>C26: through any sequence of operations the manager never indexes outside its tables: the identifier in
  use exists, there is always a local identifier, sequence numbers stay unique, and every identifier of
  the peer below its Retire Prior To is retired.\<close>

theorem cid_manager_invariant:
  assumes "cid_step\<^sup>*\<^sup>* (cm_new l p) m" "wf_cid l"
  shows "active_peer_cid_index m < length (peer m) \<and> issued m \<noteq> [] \<and>
    distinct (map sequence_number (peer m)) \<and> distinct (map sequence_number (issued m)) \<and>
    list_all (\<lambda>e. sequence_number e < next_sequence m \<and> \<not> retired e) (issued m) \<and>
    list_all (\<lambda>e. sequence_number e < max_peer_retire_prior_to m \<longrightarrow> retired e) (peer m)"
  using cid_steps_inv [OF assms(1)] cid_inv_new cid_adv_new [OF assms(2)]
  by (auto simp: cid_inv_def cid_core_def)

definition example_cid :: ConnectionId where "example_cid = cid_from_slice [1, 2, 3, 4]"

definition example_rand :: cid_rand where "example_rand seq = ((\<lambda>n. replicate n 9), replicate 16 7)"

lemma example_cid_wf: "wf_cid example_cid"
  by (simp add: example_cid_def)

lemma example_rand_ok: "rand_ok example_rand"
  by (simp add: rand_ok_def example_rand_def)

theorem cid_manager_invariant_witness:
  "active_peer_cid_index (snd (process_new_connection_id 1 1 [5, 6] (replicate 16 3) (cm_new example_cid example_cid))) < 2"
proof -
  let ?m = "snd (process_new_connection_id 1 1 [5, 6] (replicate 16 3) (cm_new example_cid example_cid))"
  have s: "cid_step\<^sup>*\<^sup>* (cm_new example_cid example_cid) ?m" by (intro r_into_rtranclp cid_step.add)
  have "length (peer ?m) = 2"
    by (simp add: process_new_connection_id_def add_peer_cid_def Let_def cm_new_def retire_peer_cids_below_def MAX_CID_LEN_def)
  then show ?thesis using cid_manager_invariant [OF s example_cid_wf] by simp
qed

text \<open>C27: a NEW_CONNECTION_ID frame that is accepted registers its identifier, retires everything below Retire
  Prior To, and moves the connection off a retired identifier whenever an unretired one exists.\<close>

theorem new_connection_id_accepted:
  assumes "cid_inv m" "process_new_connection_id seq rpt bs token m = (Inr (), m')"
  shows "(\<exists>e \<in> set (peer m'). sequence_number e = seq \<and> cid e = cid_from_slice bs \<and> stateless_reset_token e = Some token) \<and>
    (\<forall>e \<in> set (peer m'). sequence_number e < rpt \<longrightarrow> retired e) \<and>
    ((\<exists>e \<in> set (peer m'). \<not> retired e) \<longrightarrow> \<not> retired (peer m' ! active_peer_cid_index m'))"
proof -
  define n where "n = max (max_peer_retire_prior_to m) rpt"
  define m1 where "m1 = retire_peer_cids_below n (m\<lparr>max_peer_retire_prior_to := n\<rparr>)"
  have a: "add_peer_cid seq (cid_from_slice bs) token rpt m = (Inr (), m')"
    using assms(2) by (simp add: process_new_connection_id_def split: if_splits)
  have r: "\<forall>e \<in> set (peer m1). sequence_number e < n \<longrightarrow> retired e" by (auto simp: m1_def cid_ops)
  obtain m2 where m': "m' = rotate_away_from_retired_active_peer_cid m2"
    and e2: "\<exists>e \<in> set (peer m2). sequence_number e = seq \<and> cid e = cid_from_slice bs \<and> stateless_reset_token e = Some token"
    and r2: "\<forall>e \<in> set (peer m2). sequence_number e < n \<longrightarrow> retired e"
  proof (cases "position (\<lambda>e. sequence_number e = seq) (peer m1)")
    case None
    show ?thesis
      by (rule that [of "m1\<lparr>peer := peer m1 @ [\<lparr>sequence_number = seq, cid = cid_from_slice bs, stateless_reset_token = Some token,
                   retired = seq < n, advertised_to_peer = True\<rparr>]\<rparr>"])
        (use a None r in \<open>auto simp: add_peer_cid_def Let_def n_def [symmetric] m1_def [symmetric]\<close>)
  next
    case (Some k)
    let ?e = "peer m1 ! k"
    have k: "k < length (peer m1)" "sequence_number ?e = seq" using positionD(1) [OF Some] by auto
    have m1: "cid ?e = cid_from_slice bs" "stateless_reset_token ?e = Some token"
      "m' = rotate_away_from_retired_active_peer_cid (if seq < n then m1\<lparr>peer := (peer m1)[k := ?e\<lparr>retired := True\<rparr>]\<rparr> else m1)"
      using a Some by (auto simp: add_peer_cid_def Let_def n_def [symmetric] m1_def [symmetric] split: if_splits)
    have "(peer m1)[k := ?e\<lparr>retired := True\<rparr>] = peer m1" if "seq < n"
      using r k that by (metis (full_types) IssuedConnectionId.surjective IssuedConnectionId.update_convs(4) list_update_id nth_mem)
    then have p: "peer (if seq < n then m1\<lparr>peer := (peer m1)[k := ?e\<lparr>retired := True\<rparr>]\<rparr> else m1) = peer m1" by simp
    have "\<exists>e \<in> set (peer m1). sequence_number e = seq \<and> cid e = cid_from_slice bs \<and> stateless_reset_token e = Some token"
      using m1(1,2) k by (intro bexI [of _ ?e]) auto
    then show ?thesis using that [OF m1(3), unfolded p] r by blast
  qed
  have "rpt \<le> n" by (simp add: n_def)
  then show ?thesis
    unfolding m' rotate_away_fields using e2 r2 rotate_away_usable [of _ m2] by (auto dest: less_le_trans)
qed

theorem new_connection_id_accepted_witness:
  "\<exists>m'. process_new_connection_id 1 1 [5, 6] (replicate 16 3) (cm_new example_cid example_cid) = (Inr (), m') \<and>
     (\<exists>e. e \<in> set (peer m') \<and> cid e = cid_from_slice [5, 6]) \<and> \<not> retired (peer m' ! active_peer_cid_index m')"
proof -
  let ?r = "process_new_connection_id 1 1 [5, 6] (replicate 16 3) (cm_new example_cid example_cid)"
  have r: "?r = (Inr (), snd ?r)" and p: "\<exists>e \<in> set (peer (snd ?r)). \<not> retired e"
    by (simp_all add: process_new_connection_id_def add_peer_cid_def Let_def cm_new_def retire_peer_cids_below_def MAX_CID_LEN_def)
  show ?thesis
    using new_connection_id_accepted [OF cid_inv_new r] p r by blast
qed

text \<open>C28: \<open>take_peer_cids_to_retire\<close> reports each retired identifier except the one in use, exactly once,
  forgets exactly those, and the identifier in use stays the same.\<close>

theorem retire_reports_exact:
  assumes "cid_inv m" "take_peer_cids_to_retire m = (rs, m')"
  shows "distinct rs \<and> active_peer_cid m' = active_peer_cid m \<and>
    set rs = {sequence_number e |e. e \<in> set (peer m) \<and> retired e} - {sequence_number (peer m ! active_peer_cid_index m)} \<and>
    set (peer m') = {e \<in> set (peer m). sequence_number e \<notin> set rs}"
proof -
  note sp = take_peer_cids_to_retire_spec [OF assms]
  have d: "distinct (map sequence_number (peer m))" using assms(1) by (simp add: cid_inv_def cid_core_def)
  then have "e = e'" if "e \<in> set (peer m)" "e' \<in> set (peer m)" "sequence_number e = sequence_number e'" for e e'
    using that by (metis distinct_map inj_onD)
  then have "set (peer m') = {e \<in> set (peer m). sequence_number e \<notin> set rs}"
    unfolding sp(1,2) by (auto simp: image_iff)
  then show ?thesis
    using distinct_map_filter_seq [OF d] sp(4) unfolding sp(1) by (auto simp: active_peer_cid_def)
qed

theorem retire_reports_exact_witness:
  "let m = snd (process_new_connection_id 1 1 [5, 6] (replicate 16 3) (cm_new example_cid example_cid))
   in fst (take_peer_cids_to_retire m) = [0] \<and> active_peer_cid (snd (take_peer_cids_to_retire m)) = cid_from_slice [5, 6]"
proof -
  let ?m = "snd (process_new_connection_id 1 1 [5, 6] (replicate 16 3) (cm_new example_cid example_cid))"
  have i: "cid_inv ?m" using cid_step_inv [OF cid_step.add] cid_inv_new cid_adv_new [OF example_cid_wf] by blast
  have t: "take_peer_cids_to_retire ?m = ([0], snd (take_peer_cids_to_retire ?m))" "active_peer_cid ?m = cid_from_slice [5, 6]"
    by (simp_all add: process_new_connection_id_def add_peer_cid_def Let_def cm_new_def retire_peer_cids_below_def MAX_CID_LEN_def
        rotate_away_from_retired_active_peer_cid_def take_peer_cids_to_retire_def active_peer_cid_def)
  have "fst (take_peer_cids_to_retire ?m) = [0]" by (subst t(1)) simp
  moreover have "active_peer_cid (snd (take_peer_cids_to_retire ?m)) = active_peer_cid ?m"
    using retire_reports_exact [OF i t(1)] by blast
  ultimately show ?thesis unfolding Let_def t(2) by blast
qed



end
