(* ===== verification/Packet_Assembly.thy ===== *)
theory Packet_Assembly
  imports Connection_Id "HOL-Library.Multiset"
begin

text \<open>
  Assembling packets (\<open>send_pending_frames\<close> and \<open>split_frame\<close> in
  \<open>starfish-quic/src/connection.rs\<close>): pending frames are packed into payloads of a bounded size, and
  CRYPTO and STREAM frames that do not fit are split at the largest number of bytes that does.
\<close>

section \<open>Splitting a frame\<close>

text \<open>\<open>encode(&mut buf).ok()?\<close> followed by \<open>buf.len()\<close>.\<close>

definition encoded_len :: "Frame \<Rightarrow> nat option" where
  "encoded_len f = (case encode_frame f [] of (Inr _, buf) \<Rightarrow> Some (length buf) | (Inl _, _) \<Rightarrow> None)"

text \<open>The binary search for the largest prefix whose frame fits; \<open>len mid\<close> is the encoded length of the
  candidate with \<open>mid\<close> data bytes.  The loop is entered with \<open>low = 1\<close> and only raises it; the guard
  \<open>0 < low\<close> makes that explicit.\<close>

function split_search :: "(nat \<Rightarrow> nat option) \<Rightarrow> nat \<Rightarrow> nat \<Rightarrow> nat \<Rightarrow> nat \<Rightarrow> nat option" where
  "split_search len budget low high split_at =
     (if 0 < low \<and> low \<le> high
      then let mid = low + (high - low) div 2 in
           case len mid of
             None \<Rightarrow> None
           | Some n \<Rightarrow> if n \<le> budget then split_search len budget (mid + 1) high mid
                      else split_search len budget low (mid - 1) split_at
      else Some split_at)"
  by pat_completeness auto
termination
  by (relation "measure (\<lambda>(_, _, low, high, _). Suc high - low)") auto

declare split_search.simps [simp del]

definition crypto_head :: "CryptoFrame \<Rightarrow> nat \<Rightarrow> Frame" where
  "crypto_head cf n = Crypto \<lparr>cf_offset = cf_offset cf, cf_data = take n (cf_data cf)\<rparr>"

definition stream_head :: "StreamFrame \<Rightarrow> nat \<Rightarrow> Frame" where
  "stream_head sf n = Stream \<lparr>sf_stream_id = sf_stream_id sf, sf_offset = sf_offset sf, sf_fin = False,
     sf_data = take n (sf_data sf)\<rparr>"

fun split_frame :: "Frame \<Rightarrow> nat \<Rightarrow> (Frame \<times> Frame) option" where
  "split_frame (Crypto cf) budget =
     (if length (cf_data cf) \<le> 1 then None
      else case encoded_len (Crypto cf) of
        None \<Rightarrow> None
      | Some n \<Rightarrow>
          if n \<le> budget then None
          else case split_search (\<lambda>mid. encoded_len (crypto_head cf mid)) budget 1 (length (cf_data cf) - 1) 0 of
                 None \<Rightarrow> None
               | Some split_at \<Rightarrow>
                   if split_at = 0 then None
                   else Some (crypto_head cf split_at,
                          Crypto \<lparr>cf_offset = cf_offset cf + word_of_nat split_at, cf_data = drop split_at (cf_data cf)\<rparr>))"
| "split_frame (Stream sf) budget =
     (if length (sf_data sf) \<le> 1 then None
      else case encoded_len (Stream sf) of
        None \<Rightarrow> None
      | Some n \<Rightarrow>
          if n \<le> budget then None
          else case split_search (\<lambda>mid. encoded_len (stream_head sf mid)) budget 1 (length (sf_data sf) - 1) 0 of
                 None \<Rightarrow> None
               | Some split_at \<Rightarrow>
                   if split_at = 0 then None
                   else Some (stream_head sf split_at,
                          Stream \<lparr>sf_stream_id = sf_stream_id sf, sf_offset = sf_offset sf + word_of_nat split_at,
                            sf_fin = sf_fin sf, sf_data = drop split_at (sf_data sf)\<rparr>))"
| "split_frame _ budget = None"

section \<open>Filling a packet\<close>

fun carries_data :: "Frame \<Rightarrow> bool" where
  "carries_data (Crypto _) = True"
| "carries_data (Stream _) = True"
| "carries_data _ = False"

fun fill_packet :: "nat \<Rightarrow> Frame list \<Rightarrow> Frame list \<Rightarrow> bytes \<Rightarrow> QuicError + Frame list \<times> bytes \<times> Frame list" where
  "fill_packet max_payload [] packet_frames payload = Inr (packet_frames, payload, [])"
| "fill_packet max_payload (frame # space_frames) packet_frames payload =
     (case encode_frame frame [] of
        (Inl e, _) \<Rightarrow> Inl e
      | (Inr _, trial_buf) \<Rightarrow>
          let budget = max_payload - length payload in
          if length trial_buf \<le> budget
          then fill_packet max_payload space_frames (packet_frames @ [frame]) (payload @ trial_buf)
          else if budget > 0 \<and> carries_data frame
          then (case split_frame frame budget of
                  Some (head, tail) \<Rightarrow>
                    (case encode_frame head [] of
                       (Inl e, _) \<Rightarrow> Inl e
                     | (Inr _, head_buf) \<Rightarrow> Inr (packet_frames @ [head], payload @ head_buf, tail # space_frames))
                | None \<Rightarrow> Inr (packet_frames, payload, space_frames))
          else if payload = []
          then fill_packet max_payload space_frames (packet_frames @ [frame]) (payload @ trial_buf)
          else Inr (packet_frames, payload, frame # space_frames))"

section \<open>Encoded lengths\<close>

lemma varint_len_mono: "v \<le> w \<Longrightarrow> varint_len v \<le> varint_len w"
  by (auto simp: varint_len_def)

lemma encoded_len_Some: "encoded_len f = Some n \<longleftrightarrow> (\<exists>b. encode_frame f [] = (Inr (), b) \<and> length b = n)"
  by (auto simp: encoded_len_def split: prod.splits sum.splits)

lemma encoded_lenI:
  assumes "\<And>b. encode_frame f [] = (Inr (), b) \<longleftrightarrow> P \<and> b = out" "P \<Longrightarrow> length out = n"
  shows "encoded_len f = (if P then Some n else None)"
proof (cases P)
  case True
  then show ?thesis using assms by (simp add: encoded_len_Some)
next
  case False
  then have "encoded_len f \<noteq> Some k" for k using assms by (simp add: encoded_len_Some)
  then show ?thesis using False by (cases "encoded_len f") auto
qed

lemma small_le_MAX_VARINT: "v < 0x40 \<Longrightarrow> v \<le> MAX_VARINT"
  by (simp add: MAX_VARINT_eq word_le_nat_alt word_less_nat_alt)

lemma encoded_len_stream:
  "encoded_len (Stream sf) =
     (if sf_stream_id sf \<le> MAX_VARINT \<and> sf_offset sf \<le> MAX_VARINT \<and> word_of_nat (length (sf_data sf)) \<le> MAX_VARINT
      then Some (1 + varint_len (sf_stream_id sf) + varint_len (sf_offset sf)
             + varint_len (word_of_nat (length (sf_data sf))) + length (sf_data sf))
      else None)"
  by (rule encoded_lenI [where out = "[if sf_fin sf then 0x0f else 0x0e] @ varint_bytes (sf_stream_id sf)
        @ varint_bytes (sf_offset sf) @ varint_bytes (word_of_nat (length (sf_data sf))) @ sf_data sf"])
    (auto simp: encode_stream_def Let_def run_enc_ok small_le_MAX_VARINT varint_bytes_small length_varint_bytes
      simp del: run_enc.simps)

lemma encoded_len_crypto:
  "encoded_len (Crypto cf) =
     (if cf_offset cf \<le> MAX_VARINT \<and> word_of_nat (length (cf_data cf)) \<le> MAX_VARINT
      then Some (1 + varint_len (cf_offset cf) + varint_len (word_of_nat (length (cf_data cf))) + length (cf_data cf))
      else None)"
  by (rule encoded_lenI [where out = "[0x06] @ varint_bytes (cf_offset cf) @ varint_bytes (word_of_nat (length (cf_data cf))) @ cf_data cf"])
    (auto simp: encode_crypto_def run_enc_ok small_le_MAX_VARINT varint_bytes_small length_varint_bytes
      simp del: run_enc.simps)

section \<open>The search\<close>

text \<open>With lengths that grow with the number of bytes, the search returns the largest count that fits.\<close>

lemma split_search_correct:
  assumes len: "\<And>i. i \<le> hi \<Longrightarrow> \<exists>n. len i = Some n" and mono: "\<And>i j. i \<le> j \<Longrightarrow> j \<le> hi \<Longrightarrow> the (len i) \<le> the (len j)"
  shows "high \<le> hi \<Longrightarrow> s \<le> hi \<Longrightarrow> s = 0 \<or> the (len s) \<le> budget \<Longrightarrow>
    (\<And>i. high < i \<Longrightarrow> i \<le> hi \<Longrightarrow> budget < the (len i)) \<Longrightarrow>
    \<exists>r. split_search len budget (Suc s) high s = Some r \<and> r \<le> hi \<and> (r = 0 \<or> the (len r) \<le> budget) \<and>
      (\<forall>i. r < i \<and> i \<le> hi \<longrightarrow> budget < the (len i))"
proof (induction "high - s" arbitrary: s high rule: less_induct)
  case less
  note eq = split_search.simps [of len budget "Suc s" high s]
  show ?case
  proof (cases "Suc s \<le> high")
    case True
    define mid where "mid = Suc (s + (high - Suc s) div 2)"
    have mid: "s < mid" "mid \<le> high" "mid \<le> hi" using True less.prems(1) by (auto simp: mid_def)
    then obtain n where n: "len mid = Some n" using len by blast
    show ?thesis
    proof (cases "n \<le> budget")
      case fits: True
      then have "split_search len budget (Suc s) high s = split_search len budget (Suc mid) high mid"
        using True n by (simp add: eq Let_def mid_def [symmetric])
      then show ?thesis using less.hyps [of high mid] less.prems(1,4) mid fits n True by simp
    next
      case big: False
      then have "split_search len budget (Suc s) high s = split_search len budget (Suc s) (mid - 1) s"
        using True n by (simp add: eq Let_def mid_def [symmetric])
      moreover have "budget < the (len i)" if "mid - 1 < i" "i \<le> hi" for i
      proof -
        have "mid \<le> i" using that(1) by linarith
        then show ?thesis using mono [of mid i] that(2) big n by simp
      qed
      ultimately show ?thesis using less.hyps [of "mid - 1" s] less.prems(1-3) mid by simp
    qed
  next
    case False
    then show ?thesis using less.prems by (simp add: eq)
  qed
qed

section \<open>What a split does\<close>

text \<open>The bytes of a data frame put back together.\<close>

definition joins :: "Frame \<Rightarrow> Frame \<Rightarrow> Frame \<Rightarrow> bool" where
  "joins head tail frame \<longleftrightarrow>
     (\<exists>h t f. head = Crypto h \<and> tail = Crypto t \<and> frame = Crypto f \<and>
        cf_offset h = cf_offset f \<and> cf_data f = cf_data h @ cf_data t \<and>
        cf_offset t = cf_offset f + word_of_nat (length (cf_data h)))
   \<or> (\<exists>h t f. head = Stream h \<and> tail = Stream t \<and> frame = Stream f \<and>
        sf_stream_id h = sf_stream_id f \<and> sf_stream_id t = sf_stream_id f \<and> sf_offset h = sf_offset f \<and>
        sf_data f = sf_data h @ sf_data t \<and> sf_offset t = sf_offset f + word_of_nat (length (sf_data h)) \<and>
        \<not> sf_fin h \<and> sf_fin t = sf_fin f)"

fun frame_data :: "Frame \<Rightarrow> bytes" where
  "frame_data (Crypto c) = cf_data c"
| "frame_data (Stream s) = sf_data s"
| "frame_data _ = []"

fun with_data :: "Frame \<Rightarrow> bytes \<Rightarrow> Frame" where
  "with_data (Crypto c) d = Crypto (c\<lparr>cf_data := d\<rparr>)"
| "with_data (Stream s) d = Stream (s\<lparr>sf_fin := False, sf_data := d\<rparr>)"
| "with_data f d = f"

lemma head_eqs: "crypto_head c n = with_data (Crypto c) (take n (cf_data c))" "stream_head s n = with_data (Stream s) (take n (sf_data s))"
  by (cases c; simp add: crypto_head_def) (cases s; simp add: stream_head_def)

lemma len_le_MAX_VARINT: "i \<le> n \<Longrightarrow> n < 2 ^ 64 \<Longrightarrow> (word_of_nat n :: u64) \<le> MAX_VARINT \<Longrightarrow> (word_of_nat i :: u64) \<le> MAX_VARINT"
  by (simp add: word_le_nat_alt unsigned_of_nat take_bit_nat_eq_self)

lemma word_of_nat_mono: "i \<le> n \<Longrightarrow> n < 2 ^ 64 \<Longrightarrow> (word_of_nat i :: u64) \<le> word_of_nat n"
  by (simp add: word_le_nat_alt unsigned_of_nat take_bit_nat_eq_self)

text \<open>The encoded lengths of the prefixes of an encodable frame are defined and grow with the prefix.\<close>

lemma encoded_len_prefix:
  assumes "carries_data f" "encoded_len f = Some n" "length (frame_data f) < 2 ^ 64"
  shows "i \<le> length (frame_data f) \<Longrightarrow> \<exists>k. encoded_len (with_data f (take i (frame_data f))) = Some k"
    "i \<le> j \<Longrightarrow> j \<le> length (frame_data f) \<Longrightarrow>
       the (encoded_len (with_data f (take i (frame_data f)))) \<le> the (encoded_len (with_data f (take j (frame_data f))))"
proof -
  let ?l = "length (frame_data f)"
  have fits: "(word_of_nat i :: u64) \<le> MAX_VARINT" if "i \<le> ?l" for i
    using assms len_le_MAX_VARINT [OF that assms(3)]
    by (cases f) (auto simp: encoded_len_stream encoded_len_crypto split: if_splits)
  have len: "min ?l i = i" if "i \<le> ?l" for i using that by simp
  show "\<exists>k. encoded_len (with_data f (take i (frame_data f))) = Some k" if "i \<le> ?l" for i
    using assms(1,2) fits [OF that] len [OF that] that
    by (cases f) (auto simp: encoded_len_stream encoded_len_crypto split: if_splits)
  show "the (encoded_len (with_data f (take i (frame_data f)))) \<le> the (encoded_len (with_data f (take j (frame_data f))))"
    if "i \<le> j" "j \<le> ?l"
    using assms fits [of i] fits [of j] that varint_len_mono [OF word_of_nat_mono [of i j]]
    by (cases f) (auto simp: encoded_len_stream encoded_len_crypto split: if_splits)
qed

text \<open>Both kinds of data frame are split in the same way.\<close>

lemma split_frame_eq:
  assumes "carries_data f"
  shows "split_frame f budget =
     (if length (frame_data f) \<le> 1 then None
      else case encoded_len f of
        None \<Rightarrow> None
      | Some n \<Rightarrow>
          if n \<le> budget then None
          else case split_search (\<lambda>mid. encoded_len (with_data f (take mid (frame_data f)))) budget 1 (length (frame_data f) - 1) 0 of
                 None \<Rightarrow> None
               | Some s \<Rightarrow> if s = 0 then None
                   else Some (with_data f (take s (frame_data f)), snd (the (split_frame f budget))))"
  using assms by (cases f) (auto simp: head_eqs Let_def split: option.splits)

lemma split_frame_SomeE:
  assumes "split_frame f budget = Some (head, tail)" "length (frame_data f) < 2 ^ 64"
  obtains s where "0 < s" "s < length (frame_data f)" "head = with_data f (take s (frame_data f))" "joins head tail f"
    "the (encoded_len head) \<le> budget" "encoded_len head \<noteq> None"
    "\<And>i. s < i \<Longrightarrow> i < length (frame_data f) \<Longrightarrow> budget < the (encoded_len (with_data f (take i (frame_data f))))"
proof -
  have c: "carries_data f" using assms(1) by (cases f) auto
  let ?len = "\<lambda>mid. encoded_len (with_data f (take mid (frame_data f)))" and ?l = "length (frame_data f)"
  obtain n where l: "1 < ?l" and n: "encoded_len f = Some n"
    using assms(1) c by (subst (asm) split_frame_eq) (auto split: if_splits option.splits)
  note pre = encoded_len_prefix [OF c n assms(2)]
  have "\<exists>r. split_search ?len budget (Suc 0) (?l - 1) 0 = Some r \<and> r \<le> ?l - 1 \<and> (r = 0 \<or> the (?len r) \<le> budget) \<and>
      (\<forall>i. r < i \<and> i \<le> ?l - 1 \<longrightarrow> budget < the (?len i))"
    by (rule split_search_correct) (auto intro: pre)
  then obtain s where s: "split_search ?len budget 1 (?l - 1) 0 = Some s" "s \<le> ?l - 1" "s = 0 \<or> the (?len s) \<le> budget"
      "\<forall>i. s < i \<and> i \<le> ?l - 1 \<longrightarrow> budget < the (?len i)"
    by auto
  have h: "s \<noteq> 0" "head = with_data f (take s (frame_data f))"
    using assms(1) c l n s(1) by (subst (asm) split_frame_eq; auto split: if_splits)+
  have "joins head tail f"
    using assms(1) c l n s(1,2) by (cases f) (auto simp: joins_def head_eqs split: if_splits)
  then show ?thesis using that [of s] h s l pre(1) [of s] by auto
qed

section \<open>What a packet carries\<close>

text \<open>The content of a frame: every byte of a data frame with its place in the stream, the end of a stream,
  or the control frame itself.\<close>

datatype atom = CryptoByte u64 u8 | StreamByte u64 u64 u8 | StreamFin u64 u64 | Control Frame

definition placed :: "u64 \<Rightarrow> bytes \<Rightarrow> (u64 \<times> u8) list" where
  "placed offset data = map (\<lambda>(i, b). (offset + word_of_nat i, b)) (List.enumerate 0 data)"

fun atoms :: "Frame \<Rightarrow> atom list" where
  "atoms (Crypto c) = map (\<lambda>(p, b). CryptoByte p b) (placed (cf_offset c) (cf_data c))"
| "atoms (Stream s) = map (\<lambda>(p, b). StreamByte (sf_stream_id s) p b) (placed (sf_offset s) (sf_data s))
     @ (if sf_fin s then [StreamFin (sf_stream_id s) (sf_offset s + word_of_nat (length (sf_data s)))] else [])"
| "atoms f = [Control f]"

lemma enumerate_from: "List.enumerate n xs = map (\<lambda>(i, b). (n + i, b)) (List.enumerate 0 xs)"
  by (rule nth_equalityI) (simp_all add: nth_enumerate_eq)

lemma placed_append: "placed offset (xs @ ys) = placed offset xs @ placed (offset + word_of_nat (length xs)) ys"
  unfolding placed_def enumerate_append_eq map_append
  by (subst (2) enumerate_from) (simp add: comp_def split_beta add.assoc)

lemma atoms_joins: "joins h t f \<Longrightarrow> atoms f = atoms h @ atoms t"
  by (auto simp: joins_def placed_append add.assoc)

text \<open>Encoders only append: what they do does not depend on what is already in the buffer.\<close>

definition appends :: "'e writer \<Rightarrow> bool" where
  "appends w \<longleftrightarrow> (\<forall>buf. w buf = (fst (w []), buf @ snd (w [])))"

lemma appends_push [simp, intro]: "appends (push_bytes bs)"
  by (simp add: appends_def push_bytes_def)

lemma appends_varint [simp, intro]: "appends (encode_varint v)"
  by (cases "v \<le> MAX_VARINT") (simp_all add: appends_def encode_varint_ok encode_varint_err not_le)

lemma appends_run_enc: "list_all appends ws \<Longrightarrow> appends (run_enc ws)"
proof (induction ws)
  case (Cons w ws)
  show ?case unfolding appends_def
  proof
    fix buf
    obtain r out where w: "w [] = (r, out)" by fastforce
    have "w b = (r, b @ out)" for b using Cons.prems w by (auto simp: appends_def)
    moreover obtain r' out' where ws: "run_enc ws [] = (r', out')" by fastforce
    moreover have "run_enc ws b = (r', b @ out')" for b
    proof -
      have "appends (run_enc ws)" using Cons by simp
      then show ?thesis using ws unfolding appends_def by (metis fst_conv snd_conv)
    qed
    ultimately show "run_enc (w # ws) buf = (fst (run_enc (w # ws) []), buf @ snd (run_enc (w # ws) []))"
      by (cases r) (simp_all add: run_enc.simps)
  qed
qed (simp add: appends_def run_enc.simps)

lemma appends_more_ranges: "list_all appends (encode_more_ranges prev rs)"
  by (induction rs arbitrary: prev) auto

lemma appends_encode_frame: "appends (encode_frame f)"
  by (cases f) (auto simp: encode_ack_def encode_crypto_def encode_stream_def Let_def appends_more_ranges
      simp del: run_enc.simps split: list.splits option.splits intro!: appends_run_enc)

lemma run_enc_snoc:
  "run_enc ws [] = (Inr (), payload) \<Longrightarrow> encode_frame f [] = (Inr (), out) \<Longrightarrow>
     run_enc (ws @ [encode_frame f]) [] = (Inr (), payload @ out)"
  using appends_encode_frame [of f] by (simp add: run_enc_append run_enc.simps appends_def split: prod.splits)

definition data_frames_ok :: "Frame list \<Rightarrow> bool" where
  "data_frames_ok frames \<longleftrightarrow> list_all (\<lambda>f. length (frame_data f) < 2 ^ 64) frames"

definition undividable :: "Frame \<Rightarrow> nat \<Rightarrow> bool" where
  "undividable f budget \<longleftrightarrow> carries_data f \<and> 0 < budget \<and> split_frame f budget = None \<and>
     (\<exists>n. encoded_len f = Some n \<and> budget < n)"

lemma fill_packet_correct:
  "fill_packet mp frames pf payload = Inr (pf', payload', rest) \<Longrightarrow> data_frames_ok frames \<Longrightarrow>
   run_enc (map encode_frame pf) [] = (Inr (), payload) \<Longrightarrow>
   run_enc (map encode_frame pf') [] = (Inr (), payload') \<and>
   (\<exists>new dropped. pf' = pf @ new \<and>
      concat (map atoms frames) = concat (map atoms new) @ concat (map atoms dropped) @ concat (map atoms rest) \<and>
      length dropped \<le> 1 \<and> (\<forall>f \<in> set dropped. f \<in> set frames \<and> undividable f (mp - length payload')))"
proof (induction mp frames pf payload rule: fill_packet.induct)
  case (1 mp pf payload)
  then show ?case by (auto intro: exI [of _ "[]"])
next
  case (2 mp f fs pf payload)
  obtain trial where e: "encode_frame f [] = (Inr (), trial)"
    using "2.prems"(1) by (auto split: prod.splits sum.splits)
  let ?b = "mp - length payload"
  have ok: "data_frames_ok fs" "length (frame_data f) < 2 ^ 64" using "2.prems"(2) by (auto simp: data_frames_ok_def)
  have enc: "run_enc (map encode_frame (pf @ [f])) [] = (Inr (), payload @ trial)"
    using run_enc_snoc [OF "2.prems"(3) e] by simp
  have more: ?case
    if r: "fill_packet mp fs (pf @ [f]) (payload @ trial) = Inr (pf', payload', rest)"
      and ih: "run_enc (map encode_frame pf') [] = (Inr (), payload') \<and>
   (\<exists>new dropped. pf' = (pf @ [f]) @ new \<and>
      concat (map atoms fs) = concat (map atoms new) @ concat (map atoms dropped) @ concat (map atoms rest) \<and>
      length dropped \<le> 1 \<and> (\<forall>f \<in> set dropped. f \<in> set fs \<and> undividable f (mp - length payload')))"
  proof -
    from ih obtain new dropped where "pf' = pf @ f # new" "length dropped \<le> 1"
      "concat (map atoms fs) = concat (map atoms new) @ concat (map atoms dropped) @ concat (map atoms rest)"
      "\<forall>f \<in> set dropped. f \<in> set fs \<and> undividable f (mp - length payload')" by auto
    then show ?thesis using ih by (intro conjI exI [of _ "f # new"] exI [of _ dropped]) auto
  qed
  consider (fits) "length trial \<le> ?b" | (split) "\<not> length trial \<le> ?b" "0 < ?b" "carries_data f"
    | (first) "\<not> length trial \<le> ?b" "\<not> (0 < ?b \<and> carries_data f)" "payload = []"
    | (full) "\<not> length trial \<le> ?b" "\<not> (0 < ?b \<and> carries_data f)" "payload \<noteq> []" by argo
  then show ?case
  proof cases
    case fits
    then have r: "fill_packet mp fs (pf @ [f]) (payload @ trial) = Inr (pf', payload', rest)" using "2.prems"(1) e by simp
    show ?thesis using "2.IH"(1) [OF e [symmetric] refl refl fits r ok(1) enc] by (rule more [OF r])
  next
    case split
    show ?thesis
    proof (cases "split_frame f ?b")
      case None
      then have r: "pf' = pf" "payload' = payload" "rest = fs" using "2.prems"(1) e split by auto
      have "undividable f ?b" using None split e by (auto simp: undividable_def encoded_len_Some)
      then show ?thesis using r "2.prems"(3) by (intro conjI exI [of _ "[]"] exI [of _ "[f]"]) auto
    next
      case (Some ht)
      obtain h t where ht: "ht = (h, t)" by fastforce
      obtain hb where hb: "encode_frame h [] = (Inr (), hb)" and r: "pf' = pf @ [h]" "payload' = payload @ hb" "rest = t # fs"
        using "2.prems"(1) e split Some ht by (auto split: prod.splits sum.splits)
      have "joins h t f" using split_frame_SomeE [OF Some [unfolded ht] ok(2)] by metis
      then show ?thesis
        using r run_enc_snoc [OF "2.prems"(3) hb] atoms_joins by (intro conjI exI [of _ "[h]"] exI [of _ "[]"]) auto
    qed
  next
    case first
    then have r: "fill_packet mp fs (pf @ [f]) (payload @ trial) = Inr (pf', payload', rest)"
      using "2.prems"(1) e by (auto split: if_splits)
    show ?thesis using "2.IH"(2) [OF e [symmetric] refl refl first r ok(1) enc] by (rule more [OF r])
  next
    case full
    then have r: "pf' = pf" "payload' = payload" "rest = f # fs" using "2.prems"(1) e by auto
    then show ?thesis using "2.prems"(3) by (intro conjI exI [of _ "[]"]) auto
  qed
qed

section \<open>The packet loop\<close>

text \<open>
  The loop over the frames of one packet-number space: packets are filled until no frame is left, a
  packet would be empty, or building one is refused (\<open>accept n\<close> says whether packet \<open>n\<close> of the loop
  was built), in which case its frames go back to the front of the queue.
\<close>

definition frame_weight :: "Frame \<Rightarrow> nat" where
  "frame_weight f = Suc (length (frame_data f))"

lemma split_frame_weight: "split_frame f b = Some (h, t) \<Longrightarrow> frame_weight t < frame_weight f"
  by (cases f) (auto simp: frame_weight_def split: if_splits option.splits)

lemma fill_packet_weight:
  "fill_packet mp frames pf payload = Inr (pf', payload', rest) \<Longrightarrow>
     (\<exists>new. pf' = pf @ new) \<and> sum_list (map frame_weight rest) \<le> sum_list (map frame_weight frames) \<and>
     (pf' \<noteq> pf \<longrightarrow> sum_list (map frame_weight rest) < sum_list (map frame_weight frames))"
proof (induction mp frames pf payload rule: fill_packet.induct)
  case (2 mp f fs pf payload)
  have w: "0 < frame_weight f" by (simp add: frame_weight_def)
  obtain trial where e: "encode_frame f [] = (Inr (), trial)"
    using "2.prems"(1) by (auto split: prod.splits sum.splits)
  show ?case
  proof (cases "length trial \<le> mp - length payload")
    case True
    then show ?thesis using "2.IH"(1) [OF e [symmetric] refl refl True] "2.prems" e w by auto
  next
    case False
    note big = this
    show ?thesis
    proof (cases "0 < mp - length payload \<and> carries_data f")
      case True
      then show ?thesis
        using "2.prems" e False w
        by (auto dest!: split_frame_weight split: option.splits prod.splits sum.splits)
    next
      case False
      then show ?thesis
        using "2.IH"(2) [OF e [symmetric] refl refl big False] "2.prems" e w big
        by (cases "payload = []") auto
    qed
  qed
qed simp

function packetize ::
    "(nat \<Rightarrow> bool) \<Rightarrow> nat \<Rightarrow> nat \<Rightarrow> Frame list \<Rightarrow> QuicError + (Frame list \<times> bytes) list \<times> Frame list" where
  "packetize accept n max_payload space_frames =
     (if space_frames = [] then Inr ([], [])
      else case fill_packet max_payload space_frames [] [] of
             Inl e \<Rightarrow> Inl e
           | Inr (packet_frames, payload, rest) \<Rightarrow>
               if packet_frames = [] then Inr ([], rest)
               else if \<not> accept n then Inr ([], packet_frames @ rest)
               else and_then (packetize accept (n + 1) max_payload rest)
                      (\<lambda>(packets, rest). Inr ((packet_frames, payload) # packets, rest)))"
  by pat_completeness auto
termination
  by (relation "measure (\<lambda>(_, _, _, frames). sum_list (map frame_weight frames))")
    (auto dest: fill_packet_weight)

declare packetize.simps [simp del]

lemma run_enc_starts:
  assumes "run_enc (encode_varint v # ws) [] = (Inr (), out)" "list_all appends ws"
  shows "out \<noteq> []"
proof -
  have v: "v \<le> MAX_VARINT" using assms(1) encode_varint_err [of v] by (cases "v \<le> MAX_VARINT") (auto simp: run_enc.simps)
  then have "run_enc ws (varint_bytes v) = (Inr (), out)" using assms(1) by (simp add: run_enc.simps encode_varint_ok)
  then have "out = varint_bytes v @ snd (run_enc ws [])"
    using appends_run_enc [OF assms(2)] unfolding appends_def by (metis snd_conv)
  then show ?thesis using v length_varint_bytes [of v] by (auto simp: varint_len_def split: if_splits)
qed

lemma encode_frame_nonempty: "encode_frame f [] = (Inr (), out) \<Longrightarrow> out \<noteq> []"
  by (cases f) (auto simp: encode_ack_def encode_crypto_def encode_stream_def Let_def appends_more_ranges push_bytes_def
      simp del: run_enc.simps dest!: run_enc_starts split: list.splits option.splits if_splits)

lemma fill_packet_size:
  "fill_packet mp frames pf payload = Inr (pf', payload', rest) \<Longrightarrow> data_frames_ok frames \<Longrightarrow>
     (payload = [] \<longleftrightarrow> pf = []) \<Longrightarrow> length payload \<le> mp \<or> length pf = 1 \<Longrightarrow> length payload' \<le> mp \<or> length pf' = 1"
proof (induction mp frames pf payload rule: fill_packet.induct)
  case (2 mp f fs pf payload)
  obtain trial where e: "encode_frame f [] = (Inr (), trial)"
    using "2.prems"(1) by (auto split: prod.splits sum.splits)
  have ne: "trial \<noteq> []" by (rule encode_frame_nonempty [OF e])
  have ok: "data_frames_ok fs" "length (frame_data f) < 2 ^ 64" using "2.prems"(2) by (auto simp: data_frames_ok_def)
  show ?case
  proof (cases "length trial \<le> mp - length payload")
    case True
    then have "length (payload @ trial) \<le> mp" using ne by (cases trial) auto
    then show ?thesis using "2.IH"(1) [OF e [symmetric] refl refl True _ ok(1)] "2.prems"(1) e True ne by auto
  next
    case False
    note big = this
    show ?thesis
    proof (cases "0 < mp - length payload \<and> carries_data f")
      case True
      show ?thesis
      proof (cases "split_frame f (mp - length payload)")
        case None
        then show ?thesis using True False "2.prems"(1,4) e by auto
      next
        case (Some ht)
        obtain h t where ht: "ht = (h, t)" by fastforce
        obtain hb where hb: "encode_frame h [] = (Inr (), hb)" "payload' = payload @ hb"
          using Some ht True False "2.prems"(1) e by (auto split: prod.splits sum.splits)
        have "the (encoded_len h) \<le> mp - length payload"
          using split_frame_SomeE [OF Some [unfolded ht] ok(2)] by metis
        then have "length hb \<le> mp - length payload" using hb(1) by (simp add: encoded_len_def)
        then show ?thesis using hb(2) True by simp linarith
      qed
    next
      case False
      then show ?thesis
        using "2.IH"(2) [OF e [symmetric] refl refl big False _ _ ok(1)] "2.prems"(1,3,4) e ne big
        by (cases "payload = []") (auto split: if_splits)
    qed
  qed
qed simp

lemma mset_atoms_joins: "joins h t f \<Longrightarrow> mset (atoms f) = mset (atoms h) + mset (atoms t)"
  by (simp add: atoms_joins)

definition content :: "Frame list \<Rightarrow> atom multiset" where
  "content frames = mset (concat (map atoms frames))"

lemma content_simps [simp]: "content [] = {#}" "content (xs @ ys) = content xs + content ys"
  by (simp_all add: content_def)

lemma split_frame_data: "split_frame f b = Some (h, t) \<Longrightarrow> length (frame_data t) \<le> length (frame_data f)"
  by (cases f) (auto split: if_splits option.splits)

lemma fill_packet_data_ok:
  "fill_packet mp frames pf payload = Inr (pf', payload', rest) \<Longrightarrow> data_frames_ok frames \<Longrightarrow> data_frames_ok rest"
proof (induction mp frames pf payload rule: fill_packet.induct)
  case (2 mp f fs pf payload)
  obtain trial where e: "encode_frame f [] = (Inr (), trial)"
    using "2.prems"(1) by (auto split: prod.splits sum.splits)
  have fs: "data_frames_ok fs" using "2.prems"(2) by (simp add: data_frames_ok_def)
  show ?case
  proof (cases "length trial \<le> mp - length payload")
    case True
    then show ?thesis using "2.IH"(1) [OF e [symmetric] refl refl True _ fs] "2.prems"(1) e by simp
  next
    case False
    note big = this
    show ?thesis
    proof (cases "0 < mp - length payload \<and> carries_data f")
      case True
      then show ?thesis
        using "2.prems" e False
        by (auto simp: data_frames_ok_def dest!: split_frame_data split: option.splits prod.splits sum.splits)
    next
      case False
      then show ?thesis
        using "2.IH"(2) [OF e [symmetric] refl refl big False _ _ fs] "2.prems" e big by (auto split: if_splits)
    qed
  qed
qed simp

lemma packetize_correct:
  "packetize accept n mp frames = Inr (packets, rest) \<Longrightarrow> data_frames_ok frames \<Longrightarrow>
   list_all (\<lambda>(pf, payload). run_enc (map encode_frame pf) [] = (Inr (), payload) \<and> (length payload \<le> mp \<or> length pf = 1)) packets \<and>
   (\<exists>dropped. content frames = content (concat (map fst packets)) + content rest + content dropped \<and>
      (\<forall>f \<in> set dropped. \<exists>budget \<le> mp. undividable f budget))"
proof (induction accept n mp frames arbitrary: packets rule: packetize.induct)
  case (1 accept n mp frames)
  note eq = packetize.simps [of accept n mp frames]
  show ?case
  proof (cases "frames = []")
    case True
    then have "packets = []" "rest = []" using "1.prems"(1) by (simp_all add: packetize.simps)
    then show ?thesis using True by (auto intro: exI [of _ "[]"])
  next
    case False
    then obtain pf payload rest' where f: "fill_packet mp frames [] [] = Inr (pf, payload, rest')"
      using "1.prems"(1) by (auto simp: eq split: sum.splits prod.splits)
    have nil: "run_enc (map encode_frame []) [] = (Inr (), [])" by simp
    obtain dropped where fc: "run_enc (map encode_frame pf) [] = (Inr (), payload)"
      "content frames = content pf + content dropped + content rest'"
      "\<forall>f \<in> set dropped. undividable f (mp - length payload)"
      using fill_packet_correct [OF f "1.prems"(2) nil] by (auto simp: content_def)
    have sz: "length payload \<le> mp \<or> length pf = 1" using fill_packet_size [OF f "1.prems"(2)] by simp
    have d: "\<exists>budget \<le> mp. undividable f budget" if "f \<in> set dropped" for f using that fc(3) by (metis diff_le_self)
    consider (empty) "pf = []" | (blocked) "pf \<noteq> []" "\<not> accept n" | (built) "pf \<noteq> []" "accept n" by blast
    then show ?thesis
    proof cases
      case empty
      then show ?thesis using "1.prems"(1) False f fc d by (auto simp: eq intro!: exI [of _ dropped])
    next
      case blocked
      then show ?thesis using "1.prems"(1) False f fc d by (auto simp: eq intro!: exI [of _ dropped])
    next
      case built
      then obtain ps where p: "packetize accept (n + 1) mp rest' = Inr (ps, rest)" "packets = (pf, payload) # ps"
        using "1.prems"(1) False f by (auto simp: eq and_then_eq_Inr)
      obtain dr where dr: "content rest' = content (concat (map fst ps)) + content rest + content dr"
          "\<forall>f \<in> set dr. \<exists>budget \<le> mp. undividable f budget"
        and l: "list_all (\<lambda>(pf, payload). run_enc (map encode_frame pf) [] = (Inr (), payload) \<and>
           (length payload \<le> mp \<or> length pf = 1)) ps"
        using "1.IH" [OF False f refl refl] built p(1) fill_packet_data_ok [OF f "1.prems"(2)] by blast
      show ?thesis
        using fc(1,2) sz dr l d p(2)
        by (intro conjI exI [of _ "dropped @ dr"]) (auto simp: ac_simps)
    qed
  qed
qed

section \<open>Properties\<close>

text \<open>C15: a CRYPTO or STREAM frame that does not fit is split so that the head fits the budget and no longer head
  would; head and tail carry exactly the bytes of the frame at their places, and only the tail keeps FIN.\<close>

theorem split_frame_maximal:
  assumes "split_frame f budget = Some (head, tail)" "length (frame_data f) < 2 ^ 64"
  shows "joins head tail f \<and> frame_data head \<noteq> [] \<and> frame_data tail \<noteq> [] \<and>
    (\<exists>n. encoded_len head = Some n \<and> n \<le> budget) \<and>
    (\<forall>i. length (frame_data head) < i \<and> i < length (frame_data f) \<longrightarrow>
       budget < the (encoded_len (with_data f (take i (frame_data f)))))"
proof -
  obtain s where s: "0 < s" "s < length (frame_data f)" "head = with_data f (take s (frame_data f))" "joins head tail f"
    "the (encoded_len head) \<le> budget" "encoded_len head \<noteq> None"
    "\<And>i. s < i \<Longrightarrow> i < length (frame_data f) \<Longrightarrow> budget < the (encoded_len (with_data f (take i (frame_data f))))"
    using split_frame_SomeE [OF assms] by blast
  have jd: "frame_data f = frame_data head @ frame_data tail" using s(4) by (auto simp: joins_def)
  have "length (frame_data head) = s" using s(2-4) by (cases f) (auto simp: joins_def)
  then have "length (frame_data head) = s" "frame_data tail \<noteq> []" "frame_data head \<noteq> []" using jd s(1,2) by auto
  then show ?thesis using s by auto
qed

definition example_stream_frame :: "nat \<Rightarrow> Frame" where
  "example_stream_frame n = Stream \<lparr>sf_stream_id = 4, sf_offset = 0, sf_fin = True, sf_data = replicate n 7\<rparr>"

theorem split_frame_maximal_witness:
  "\<exists>head tail. split_frame (example_stream_frame 6) 8 = Some (head, tail) \<and> joins head tail (example_stream_frame 6) \<and>
     length (frame_data head) = 4"
proof -
  have s: "split_frame (example_stream_frame 6) 8 =
    Some (Stream \<lparr>sf_stream_id = 4, sf_offset = 0, sf_fin = False, sf_data = replicate 4 7\<rparr>,
          Stream \<lparr>sf_stream_id = 4, sf_offset = 4, sf_fin = True, sf_data = replicate 2 7\<rparr>)"
    by code_simp
  show ?thesis using s split_frame_maximal [OF s] by (simp add: example_stream_frame_def)
qed


lemma example_packets:
  "packetize (\<lambda>_. True) 0 14 [example_stream_frame 8, example_stream_frame 1, Ping] =
     Inr ([([example_stream_frame 8], [0x0f, 4, 0, 8] @ replicate 8 7), ([Ping], [1])], [])"
proof -
  have "case packetize (\<lambda>_. True) 0 14 [example_stream_frame 8, example_stream_frame 1, Ping] of
      Inr (ps, rest) \<Rightarrow> ps = [([example_stream_frame 8], [0x0f, 4, 0, 8] @ replicate 8 7), ([Ping], [1])] \<and> rest = []
    | Inl _ \<Rightarrow> False"
    by code_simp
  then show ?thesis by (auto split: sum.splits)
qed


text \<open>The exception is real: when the room left in a packet is too small for any part of the next data frame,
  \<open>split_frame\<close> returns \<open>None\<close> and the frame, already taken from the queue, is not put back.\<close>

lemma data_frame_dropped:
  assumes "encode_frame f [] = (Inr (), trial)" "carries_data f" "length (frame_data f) \<le> 1"
    and "length payload < max_payload" "max_payload < length payload + length trial"
  shows "fill_packet max_payload (f # frames) pf payload = Inr (pf, payload, frames)"
proof -
  have "split_frame f b = None" for b using assms(2,3) by (cases f) auto
  moreover have "\<not> length trial \<le> max_payload - length payload" "0 < max_payload - length payload" using assms(4,5) by auto
  ultimately show ?thesis using assms(1,2) by (simp add: Let_def)
qed

end
