(* ===== verification/Congestion.thy ===== *)
theory Congestion
  imports F64 Packet_Assembly
begin

text \<open>
  Congestion control (\<open>starfish-quic/src/recovery/congestion.rs\<close>, \<open>new_reno.rs\<close> and \<open>cubic.rs\<close>): the
  contract of the trait \<open>CongestionController\<close> as a locale, and its two implementations.  Byte counts are
  natural numbers: windows grow by at most the bytes acknowledged, so they stay far below \<open>2 ^ 64\<close>.  The one
  product that can pass \<open>2 ^ 64\<close>, in the cubic increment, is reduced modulo \<open>2 ^ 64\<close> as in a release build.
  The precision of \<open>cbrt\<close> and \<open>powi\<close> is platform dependent, so both are parameters.
\<close>

section \<open>Constants\<close>

definition MINIMUM_WINDOW :: nat where "MINIMUM_WINDOW = 2 * 1200"

definition INITIAL_WINDOW :: nat where "INITIAL_WINDOW = 10 * 1200"

definition USIZE_MAX :: nat where "USIZE_MAX = 2 ^ 64 - 1"

section \<open>NewReno\<close>

record NewReno =
  nr_cwnd :: nat
  nr_ssthresh :: nat
  nr_bytes_in_flight :: nat
  nr_congestion_recovery_start :: "Instant option"

definition nr_new :: NewReno where
  "nr_new = \<lparr>nr_cwnd = INITIAL_WINDOW, nr_ssthresh = USIZE_MAX, nr_bytes_in_flight = 0,
     nr_congestion_recovery_start = None\<rparr>"

definition nr_in_congestion_recovery :: "NewReno \<Rightarrow> Instant \<Rightarrow> bool" where
  "nr_in_congestion_recovery c sent_time =
     (case nr_congestion_recovery_start c of Some start \<Rightarrow> sent_time \<le> start | None \<Rightarrow> False)"

definition nr_on_packet_sent :: "nat \<Rightarrow> Instant \<Rightarrow> NewReno \<Rightarrow> NewReno" where
  "nr_on_packet_sent bytes now c = c\<lparr>nr_bytes_in_flight := nr_bytes_in_flight c + bytes\<rparr>"

definition nr_on_ack :: "nat \<Rightarrow> Duration \<Rightarrow> Instant \<Rightarrow> Instant \<Rightarrow> NewReno \<Rightarrow> NewReno" where
  "nr_on_ack bytes rtt sent_time now c =
     (let c = c\<lparr>nr_bytes_in_flight := nr_bytes_in_flight c - bytes\<rparr> in
      if nr_in_congestion_recovery c sent_time then c
      else if nr_cwnd c < nr_ssthresh c then c\<lparr>nr_cwnd := nr_cwnd c + bytes\<rparr>
      else c\<lparr>nr_cwnd := nr_cwnd c + 1200 * bytes div nr_cwnd c\<rparr>)"

definition nr_on_loss :: "nat \<Rightarrow> Instant \<Rightarrow> Instant \<Rightarrow> NewReno \<Rightarrow> NewReno" where
  "nr_on_loss bytes sent_time now c =
     (let c = c\<lparr>nr_bytes_in_flight := nr_bytes_in_flight c - bytes\<rparr> in
      if \<not> nr_in_congestion_recovery c sent_time
      then let ssthresh = nr_cwnd c div 2
           in c\<lparr>nr_congestion_recovery_start := Some now, nr_ssthresh := ssthresh,
                nr_cwnd := max ssthresh MINIMUM_WINDOW\<rparr>
      else c)"

definition nr_on_ecn_ce :: "nat \<Rightarrow> Instant \<Rightarrow> Instant \<Rightarrow> NewReno \<Rightarrow> NewReno" where
  "nr_on_ecn_ce bytes sent_time now c =
     (let c = c\<lparr>nr_bytes_in_flight := nr_bytes_in_flight c - bytes\<rparr> in
      if \<not> nr_in_congestion_recovery c sent_time
      then let ssthresh = nr_cwnd c div 2
           in c\<lparr>nr_congestion_recovery_start := Some now, nr_ssthresh := ssthresh,
                nr_cwnd := max ssthresh MINIMUM_WINDOW\<rparr>
      else c)"

definition nr_on_packet_discarded :: "nat \<Rightarrow> NewReno \<Rightarrow> NewReno" where
  "nr_on_packet_discarded bytes c = c\<lparr>nr_bytes_in_flight := nr_bytes_in_flight c - bytes\<rparr>"

definition nr_on_persistent_congestion :: "NewReno \<Rightarrow> NewReno" where
  "nr_on_persistent_congestion c = c\<lparr>nr_cwnd := MINIMUM_WINDOW, nr_ssthresh := USIZE_MAX\<rparr>"

section \<open>Cubic\<close>

definition CUBIC_C :: f64 where "CUBIC_C = fl (4 / 10)"

definition CUBIC_BETA :: f64 where "CUBIC_BETA = fl (7 / 10)"

record Cubic =
  cu_cwnd :: nat
  cu_ssthresh :: nat
  cu_bytes_in_flight :: nat
  cu_w_max :: f64
  cu_k :: f64
  cu_epoch_start :: "Instant option"
  cu_congestion_recovery_start :: "Instant option"
  cu_mss :: nat

definition cu_new :: Cubic where
  "cu_new = \<lparr>cu_cwnd = INITIAL_WINDOW, cu_ssthresh = USIZE_MAX, cu_bytes_in_flight = 0, cu_w_max = 0, cu_k = 0,
     cu_epoch_start = None, cu_congestion_recovery_start = None, cu_mss = 1200\<rparr>"

definition cu_in_congestion_recovery :: "Cubic \<Rightarrow> Instant \<Rightarrow> bool" where
  "cu_in_congestion_recovery c sent_time =
     (case cu_congestion_recovery_start c of Some start \<Rightarrow> sent_time \<le> start | None \<Rightarrow> False)"

definition compute_k :: "(f64 \<Rightarrow> f64) \<Rightarrow> f64 \<Rightarrow> f64" where
  "compute_k cbrt w_max = cbrt (fl (fl (w_max * fl (1 - CUBIC_BETA)) / CUBIC_C))"

definition w_cubic :: "(f64 \<Rightarrow> f64) \<Rightarrow> Cubic \<Rightarrow> f64 \<Rightarrow> f64" where
  "w_cubic powi3 c t = fl (fl (CUBIC_C * powi3 (fl (t - cu_k c))) + cu_w_max c)"

definition enter_congestion_recovery :: "(f64 \<Rightarrow> f64) \<Rightarrow> Instant \<Rightarrow> Instant \<Rightarrow> Cubic \<Rightarrow> Cubic" where
  "enter_congestion_recovery cbrt sent_time now c =
     (if cu_in_congestion_recovery c sent_time then c
      else let cwnd_mss = fl (f64_of_usize (cu_cwnd c) / f64_of_usize (cu_mss c));
               w_max = (if cwnd_mss < cu_w_max c then fl (fl (cwnd_mss * fl (1 + CUBIC_BETA)) / 2) else cwnd_mss);
               ssthresh = usize_of_f64 (fl (f64_of_usize (cu_cwnd c) * CUBIC_BETA))
           in c\<lparr>cu_congestion_recovery_start := Some now, cu_epoch_start := None, cu_w_max := w_max,
                cu_k := compute_k cbrt w_max, cu_ssthresh := ssthresh, cu_cwnd := max ssthresh MINIMUM_WINDOW\<rparr>)"

definition cu_on_packet_sent :: "nat \<Rightarrow> Instant \<Rightarrow> Cubic \<Rightarrow> Cubic" where
  "cu_on_packet_sent bytes now c = c\<lparr>cu_bytes_in_flight := cu_bytes_in_flight c + bytes\<rparr>"

definition cu_on_ack :: "(f64 \<Rightarrow> f64) \<Rightarrow> nat \<Rightarrow> Duration \<Rightarrow> Instant \<Rightarrow> Instant \<Rightarrow> Cubic \<Rightarrow> Cubic" where
  "cu_on_ack powi3 bytes rtt sent_time now c =
     (let c = c\<lparr>cu_bytes_in_flight := cu_bytes_in_flight c - bytes\<rparr> in
      if cu_in_congestion_recovery c sent_time then c
      else if cu_cwnd c < cu_ssthresh c then c\<lparr>cu_cwnd := cu_cwnd c + bytes\<rparr>
      else let epoch_start = (case cu_epoch_start c of Some e \<Rightarrow> e | None \<Rightarrow> now);
               c = c\<lparr>cu_epoch_start := Some epoch_start\<rparr>;
               t = as_secs_f64 (now - epoch_start);
               w_cubic_bytes = usize_of_f64 (max (fl (w_cubic powi3 c t * f64_of_usize (cu_mss c))) 0)
           in if w_cubic_bytes > cu_cwnd c
              then let increment = ((w_cubic_bytes - cu_cwnd c) * bytes) mod 2 ^ 64 div cu_cwnd c
                   in c\<lparr>cu_cwnd := cu_cwnd c + max increment 1\<rparr>
              else c\<lparr>cu_cwnd := cu_cwnd c + cu_mss c * bytes div cu_cwnd c\<rparr>)"

definition cu_on_loss :: "(f64 \<Rightarrow> f64) \<Rightarrow> nat \<Rightarrow> Instant \<Rightarrow> Instant \<Rightarrow> Cubic \<Rightarrow> Cubic" where
  "cu_on_loss cbrt bytes sent_time now c =
     enter_congestion_recovery cbrt sent_time now (c\<lparr>cu_bytes_in_flight := cu_bytes_in_flight c - bytes\<rparr>)"

definition cu_on_ecn_ce :: "(f64 \<Rightarrow> f64) \<Rightarrow> nat \<Rightarrow> Instant \<Rightarrow> Instant \<Rightarrow> Cubic \<Rightarrow> Cubic" where
  "cu_on_ecn_ce cbrt bytes sent_time now c =
     enter_congestion_recovery cbrt sent_time now (c\<lparr>cu_bytes_in_flight := cu_bytes_in_flight c - bytes\<rparr>)"

definition cu_on_packet_discarded :: "nat \<Rightarrow> Cubic \<Rightarrow> Cubic" where
  "cu_on_packet_discarded bytes c = c\<lparr>cu_bytes_in_flight := cu_bytes_in_flight c - bytes\<rparr>"

definition cu_on_persistent_congestion :: "Cubic \<Rightarrow> Cubic" where
  "cu_on_persistent_congestion c =
     c\<lparr>cu_cwnd := MINIMUM_WINDOW, cu_ssthresh := MINIMUM_WINDOW, cu_epoch_start := None, cu_w_max := 0, cu_k := 0\<rparr>"

section \<open>The trait\<close>

text \<open>A \<open>dyn CongestionController\<close>: its methods over the state \<open>'s\<close> of the implementation.\<close>

record 's CongestionController =
  cc_new_instance :: "'s \<Rightarrow> 's"
  cc_on_packet_sent :: "nat \<Rightarrow> Instant \<Rightarrow> 's \<Rightarrow> 's"
  cc_on_ack :: "nat \<Rightarrow> Duration \<Rightarrow> Instant \<Rightarrow> Instant \<Rightarrow> 's \<Rightarrow> 's"
  cc_on_loss :: "nat \<Rightarrow> Instant \<Rightarrow> Instant \<Rightarrow> 's \<Rightarrow> 's"
  cc_on_ecn_ce :: "nat \<Rightarrow> Instant \<Rightarrow> Instant \<Rightarrow> 's \<Rightarrow> 's"
  cc_on_packet_discarded :: "nat \<Rightarrow> 's \<Rightarrow> 's"
  cc_on_persistent_congestion :: "'s \<Rightarrow> 's"
  cc_window :: "'s \<Rightarrow> nat"
  cc_bytes_in_flight :: "'s \<Rightarrow> nat"
  cc_ssthresh :: "'s \<Rightarrow> nat"

text \<open>The default method.\<close>

definition can_send :: "'s CongestionController \<Rightarrow> 's \<Rightarrow> nat \<Rightarrow> bool" where
  "can_send cc c bytes \<longleftrightarrow> cc_bytes_in_flight cc c + bytes \<le> cc_window cc c"

definition new_reno :: "NewReno CongestionController" where
  "new_reno = \<lparr>cc_new_instance = (\<lambda>_. nr_new), cc_on_packet_sent = nr_on_packet_sent, cc_on_ack = nr_on_ack,
     cc_on_loss = nr_on_loss, cc_on_ecn_ce = nr_on_ecn_ce, cc_on_packet_discarded = nr_on_packet_discarded,
     cc_on_persistent_congestion = nr_on_persistent_congestion, cc_window = nr_cwnd,
     cc_bytes_in_flight = nr_bytes_in_flight, cc_ssthresh = nr_ssthresh\<rparr>"

definition cubic :: "(f64 \<Rightarrow> f64) \<Rightarrow> (f64 \<Rightarrow> f64) \<Rightarrow> Cubic CongestionController" where
  "cubic cbrt powi3 = \<lparr>cc_new_instance = (\<lambda>_. cu_new), cc_on_packet_sent = cu_on_packet_sent,
     cc_on_ack = cu_on_ack powi3, cc_on_loss = cu_on_loss cbrt, cc_on_ecn_ce = cu_on_ecn_ce cbrt,
     cc_on_packet_discarded = cu_on_packet_discarded, cc_on_persistent_congestion = cu_on_persistent_congestion,
     cc_window = cu_cwnd, cc_bytes_in_flight = cu_bytes_in_flight, cc_ssthresh = cu_ssthresh\<rparr>"

text \<open>The calls a connection makes on its controller, as a trace.\<close>

datatype CcEvent =
    CcSent nat Instant
  | CcAck nat Duration Instant Instant
  | CcLoss nat Instant Instant
  | CcEcnCe nat Instant Instant
  | CcDiscarded nat
  | CcPersistent

fun cc_step :: "'s CongestionController \<Rightarrow> CcEvent \<Rightarrow> 's \<Rightarrow> 's" where
  "cc_step cc (CcSent bytes now) = cc_on_packet_sent cc bytes now"
| "cc_step cc (CcAck bytes rtt sent_time now) = cc_on_ack cc bytes rtt sent_time now"
| "cc_step cc (CcLoss bytes sent_time now) = cc_on_loss cc bytes sent_time now"
| "cc_step cc (CcEcnCe bytes sent_time now) = cc_on_ecn_ce cc bytes sent_time now"
| "cc_step cc (CcDiscarded bytes) = cc_on_packet_discarded cc bytes"
| "cc_step cc CcPersistent = cc_on_persistent_congestion cc"

definition cc_run :: "'s CongestionController \<Rightarrow> CcEvent list \<Rightarrow> 's \<Rightarrow> 's" where
  "cc_run cc es c = fold (cc_step cc) es c"

fun cc_sent :: "CcEvent \<Rightarrow> nat" where
  "cc_sent (CcSent bytes _) = bytes" | "cc_sent _ = 0"

fun cc_released :: "CcEvent \<Rightarrow> nat" where
  "cc_released (CcAck bytes _ _ _) = bytes"
| "cc_released (CcLoss bytes _ _) = bytes"
| "cc_released (CcEcnCe bytes _ _) = bytes"
| "cc_released (CcDiscarded bytes) = bytes"
| "cc_released _ = 0"

text \<open>Losses and CE marks, and whether the packet they report was sent in the recovery period.\<close>

fun congestion_signal :: "CcEvent \<Rightarrow> (Instant \<times> Instant) option" where
  "congestion_signal (CcLoss _ sent_time now) = Some (sent_time, now)"
| "congestion_signal (CcEcnCe _ sent_time now) = Some (sent_time, now)"
| "congestion_signal _ = None"

section \<open>The contract\<close>

locale congestion_controller =
  fixes cc :: "'s CongestionController"
    and inv :: "'s \<Rightarrow> bool"
    and in_recovery :: "'s \<Rightarrow> Instant \<Rightarrow> bool"
  assumes inv_new: "inv (cc_new_instance cc c)"
    and new_idle: "cc_bytes_in_flight cc (cc_new_instance cc c) = 0"
    and inv_step: "inv c \<Longrightarrow> inv (cc_step cc e c)"
    and window_min: "inv c \<Longrightarrow> MINIMUM_WINDOW \<le> cc_window cc c"
    and in_flight: "cc_bytes_in_flight cc (cc_step cc e c) = cc_bytes_in_flight cc c + cc_sent e - cc_released e"
    and ack_window: "inv c \<Longrightarrow> cc_window cc c \<le> cc_window cc (cc_on_ack cc bytes rtt sent_time now c)"
    and ack_recovery: "in_recovery c sent_time \<Longrightarrow>
      cc_window cc (cc_on_ack cc bytes rtt sent_time now c) = cc_window cc c"
    and signal_window: "congestion_signal e = Some (sent_time, now) \<Longrightarrow> inv c \<Longrightarrow>
      cc_window cc (cc_step cc e c) \<le> cc_window cc c"
    and signal_starts: "congestion_signal e = Some (sent_time, now) \<Longrightarrow> \<not> in_recovery c sent_time \<Longrightarrow>
      in_recovery (cc_step cc e c) t \<longleftrightarrow> t \<le> now"
    and signal_recovery: "congestion_signal e = Some (sent_time, now) \<Longrightarrow> in_recovery c sent_time \<Longrightarrow>
      cc_window cc (cc_step cc e c) = cc_window cc c \<and> (in_recovery (cc_step cc e c) t \<longleftrightarrow> in_recovery c t)"
begin

lemma inv_run: "inv c \<Longrightarrow> inv (cc_run cc es c)"
  by (induction es arbitrary: c) (auto simp: cc_run_def inv_step)

text \<open>As long as nothing is released that was not sent, the counter is exact.\<close>

lemma in_flight_exact:
  assumes "\<And>n. (\<Sum>e \<leftarrow> take n es. cc_released e) \<le> cc_bytes_in_flight cc c + (\<Sum>e \<leftarrow> take n es. cc_sent e)"
  shows "cc_bytes_in_flight cc (cc_run cc es c) = cc_bytes_in_flight cc c + (\<Sum>e \<leftarrow> es. cc_sent e) - (\<Sum>e \<leftarrow> es. cc_released e)"
  using assms
proof (induction es rule: rev_induct)
  case (snoc e es)
  have "(\<Sum>e \<leftarrow> take n es. cc_released e) \<le> cc_bytes_in_flight cc c + (\<Sum>e \<leftarrow> take n es. cc_sent e)" for n
    using snoc.prems [of "min n (length es)"] by (cases "n \<le> length es") (auto simp: min_def)
  then have IH: "cc_bytes_in_flight cc (cc_run cc es c) =
      cc_bytes_in_flight cc c + (\<Sum>e \<leftarrow> es. cc_sent e) - (\<Sum>e \<leftarrow> es. cc_released e)"
    by (rule snoc.IH)
  have "cc_run cc (es @ [e]) c = cc_step cc e (cc_run cc es c)" by (simp add: cc_run_def)
  moreover have "(\<Sum>e \<leftarrow> es. cc_released e) \<le> cc_bytes_in_flight cc c + (\<Sum>e \<leftarrow> es. cc_sent e)"
    using snoc.prems [of "length es"] by simp
  moreover have "(\<Sum>e \<leftarrow> es. cc_released e) + cc_released e \<le> cc_bytes_in_flight cc c + (\<Sum>e \<leftarrow> es. cc_sent e) + cc_sent e"
    using snoc.prems [of "Suc (length es)"] by simp
  ultimately show ?case using IH by (simp add: in_flight)
qed (simp add: cc_run_def)

lemma idle_can_send:
  "inv c \<Longrightarrow> cc_bytes_in_flight cc c = 0 \<Longrightarrow> bytes \<le> MINIMUM_WINDOW \<Longrightarrow> can_send cc c bytes"
  using window_min [of c] by (simp add: can_send_def)

text \<open>However many packets of one flight are reported lost or marked, the window is reduced once.\<close>

lemma window_reduced_once:
  assumes "congestion_signal e = Some (sent_time, now)" "\<not> in_recovery c sent_time"
    and "list_all (\<lambda>e. \<exists>s t. congestion_signal e = Some (s, t) \<and> s \<le> now) es"
  shows "cc_window cc (cc_run cc (e # es) c) = cc_window cc (cc_step cc e c)"
proof -
  have "cc_window cc (fold (cc_step cc) es d) = cc_window cc d" if "\<And>t. in_recovery d t \<longleftrightarrow> t \<le> now" for d
    using that assms(3)
  proof (induction es arbitrary: d)
    case (Cons e es)
    then obtain s t where e: "congestion_signal e = Some (s, t)" "in_recovery d s" by auto
    note r = signal_recovery [OF e]
    show ?case using Cons r by simp
  qed simp
  then show ?thesis using signal_starts [OF assms(1,2)] by (simp add: cc_run_def)
qed

end

section \<open>The implementations keep the contract\<close>

definition nr_inv :: "NewReno \<Rightarrow> bool" where
  "nr_inv c \<longleftrightarrow> MINIMUM_WINDOW \<le> nr_cwnd c"

definition cu_inv :: "Cubic \<Rightarrow> bool" where
  "cu_inv c \<longleftrightarrow> MINIMUM_WINDOW \<le> cu_cwnd c"

lemmas nr_defs = nr_new_def nr_in_congestion_recovery_def nr_on_packet_sent_def nr_on_ack_def nr_on_loss_def
  nr_on_ecn_ce_def nr_on_packet_discarded_def nr_on_persistent_congestion_def nr_inv_def new_reno_def

interpretation nr: congestion_controller new_reno nr_inv nr_in_congestion_recovery
proof
  fix e c sent_time now t
  show "nr_inv (cc_step new_reno e c)" if "nr_inv c"
    using that by (cases e) (auto simp: nr_defs Let_def)
  show "cc_bytes_in_flight new_reno (cc_step new_reno e c) = cc_bytes_in_flight new_reno c + cc_sent e - cc_released e"
    by (cases e) (auto simp: nr_defs Let_def)
  assume s: "congestion_signal e = Some (sent_time, now)"
  show "cc_window new_reno (cc_step new_reno e c) \<le> cc_window new_reno c" if "nr_inv c"
    using s that by (cases e) (auto simp: nr_defs Let_def)
  show "nr_in_congestion_recovery (cc_step new_reno e c) t \<longleftrightarrow> t \<le> now" if "\<not> nr_in_congestion_recovery c sent_time"
    using s that by (cases e) (auto simp: nr_defs Let_def)
  show "cc_window new_reno (cc_step new_reno e c) = cc_window new_reno c \<and>
      (nr_in_congestion_recovery (cc_step new_reno e c) t \<longleftrightarrow> nr_in_congestion_recovery c t)"
    if "nr_in_congestion_recovery c sent_time"
    using s that by (cases e) (auto simp: nr_defs Let_def)
qed (auto simp: nr_defs Let_def INITIAL_WINDOW_def MINIMUM_WINDOW_def)

text \<open>The multiplicative decrease of Cubic, computed in double precision, never raises the window.\<close>

lemma cubic_ssthresh_le: "usize_of_f64 (fl (f64_of_usize n * CUBIC_BETA)) \<le> n"
proof -
  have b: "0 \<le> CUBIC_BETA" "CUBIC_BETA \<le> 8 / 10"
    using fl_bounds [of "7 / 10"] by (simp_all add: CUBIC_BETA_def fl_nonneg)
  have f: "0 \<le> f64_of_usize n" "f64_of_usize n \<le> of_nat n * (1 + 1 / 2 ^ 53)"
    using fl_bounds(2) [of "of_nat n"] by (simp_all add: f64_of_usize_def fl_nonneg)
  have "fl (f64_of_usize n * CUBIC_BETA) \<le> f64_of_usize n * CUBIC_BETA * (1 + 1 / 2 ^ 53)"
    using f(1) b(1) by (intro fl_bounds(2)) simp
  also have "\<dots> \<le> of_nat n * (1 + 1 / 2 ^ 53) * (8 / 10) * (1 + 1 / 2 ^ 53)"
    using f b by (intro mult_mono) auto
  also have "\<dots> = of_nat n * ((1 + 1 / 2 ^ 53) * (8 / 10) * (1 + 1 / 2 ^ 53))" by (simp only: mult.assoc)
  also have "\<dots> \<le> of_nat n * 1" by (rule mult_left_mono) auto
  finally have "fl (f64_of_usize n * CUBIC_BETA) \<le> of_nat n" by simp
  then have "\<lfloor>fl (f64_of_usize n * CUBIC_BETA)\<rfloor> \<le> int n" by (simp add: floor_le_iff)
  then show ?thesis by (simp add: usize_of_f64_def)
qed

lemmas cu_defs = cu_new_def cu_in_congestion_recovery_def cu_on_packet_sent_def cu_on_ack_def cu_on_loss_def
  cu_on_ecn_ce_def cu_on_packet_discarded_def cu_on_persistent_congestion_def enter_congestion_recovery_def
  cu_inv_def cubic_def

interpretation cu: congestion_controller "cubic cbrt powi3" cu_inv cu_in_congestion_recovery for cbrt powi3
proof
  fix e c sent_time now t
  show "cu_inv (cc_step (cubic cbrt powi3) e c)" if "cu_inv c"
    using that by (cases e) (auto simp: cu_defs Let_def)
  show "cc_bytes_in_flight (cubic cbrt powi3) (cc_step (cubic cbrt powi3) e c) =
      cc_bytes_in_flight (cubic cbrt powi3) c + cc_sent e - cc_released e"
    by (cases e) (auto simp: cu_defs Let_def)
  assume s: "congestion_signal e = Some (sent_time, now)"
  show "cc_window (cubic cbrt powi3) (cc_step (cubic cbrt powi3) e c) \<le> cc_window (cubic cbrt powi3) c" if "cu_inv c"
    using s that cubic_ssthresh_le by (cases e) (auto simp: cu_defs Let_def)
  show "cu_in_congestion_recovery (cc_step (cubic cbrt powi3) e c) t \<longleftrightarrow> t \<le> now"
    if "\<not> cu_in_congestion_recovery c sent_time"
    using s that by (cases e) (auto simp: cu_defs Let_def)
  show "cc_window (cubic cbrt powi3) (cc_step (cubic cbrt powi3) e c) = cc_window (cubic cbrt powi3) c \<and>
      (cu_in_congestion_recovery (cc_step (cubic cbrt powi3) e c) t \<longleftrightarrow> cu_in_congestion_recovery c t)"
    if "cu_in_congestion_recovery c sent_time"
    using s that by (cases e) (auto simp: cu_defs Let_def)
qed (auto simp: cu_defs Let_def INITIAL_WINDOW_def MINIMUM_WINDOW_def)

text \<open>The product in the cubic increment is not bounded: after a persistent congestion and 40,000 seconds
  without a further congestion event the bytes to grow times the bytes acknowledged pass \<open>2 ^ 64\<close>.\<close>

lemma cubic_product_passes_usize:
  assumes "powi3 40000 = 40000 ^ 3"
  shows "2 ^ 64 \<le> (usize_of_f64 (max (fl (w_cubic powi3 (cu_on_persistent_congestion c) 40000 * f64_of_usize 1200)) 0)
    - cu_cwnd (cu_on_persistent_congestion c)) * 1200"
proof -
  have f: "fl 40000 = 40000" "fl (CUBIC_C * 64000000000000) = 25600000000000" "fl 25600000000000 = 25600000000000"
    "fl 1200 = 1200" "fl 30720000000000000 = 30720000000000000"
    by code_simp+
  have "f64_of_usize 1200 = 1200" by (simp add: f64_of_usize_def f(4))
  with f show ?thesis
    by (simp add: w_cubic_def cu_on_persistent_congestion_def assms MINIMUM_WINDOW_def usize_of_f64_def)
qed

section \<open>Properties\<close>



text \<open>C22: a congestion event reduces the Cubic window once: further losses and CE marks of packets sent
  before the reduction leave it where the first one put it.\<close>

theorem cubic_window_reduced_once:
  assumes "congestion_signal e = Some (sent_time, now)" "\<not> cu_in_congestion_recovery c sent_time"
    and "list_all (\<lambda>e. \<exists>s t. congestion_signal e = Some (s, t) \<and> s \<le> now) es"
  shows "cc_window (cubic cbrt powi3) (cc_run (cubic cbrt powi3) (e # es) c) =
    max (usize_of_f64 (fl (f64_of_usize (cu_cwnd c) * CUBIC_BETA))) MINIMUM_WINDOW"
proof -
  have "cc_window (cubic cbrt powi3) (cc_step (cubic cbrt powi3) e c) =
      max (usize_of_f64 (fl (f64_of_usize (cu_cwnd c) * CUBIC_BETA))) MINIMUM_WINDOW"
    using assms(1,2) by (cases e) (auto simp: cu_defs Let_def)
  then show ?thesis using cu.window_reduced_once [OF assms] by metis
qed

theorem cubic_window_reduced_once_witness:
  "cc_window (cubic id id) (cc_run (cubic id id) [CcLoss 1200 5 9, CcEcnCe 1200 7 9, CcLoss 1200 9 12] cu_new) =
    max (usize_of_f64 (fl (f64_of_usize 12000 * CUBIC_BETA))) MINIMUM_WINDOW"
  using cubic_window_reduced_once [of "CcLoss 1200 5 9" 5 9 cu_new "[CcEcnCe 1200 7 9, CcLoss 1200 9 12]" id id]
  by (simp add: cu_new_def cu_in_congestion_recovery_def INITIAL_WINDOW_def)

end
