(* ===== verification/Loss_Detection.thy ===== *)
theory Loss_Detection
  imports Transport_Params Congestion
begin

text \<open>
  Loss detection (\<open>starfish-quic/src/recovery/loss_detection.rs\<close>): the RTT estimator, the packets in flight
  per packet-number space, the packet and time thresholds, probe timeouts and persistent congestion.
  Durations and instants are nanoseconds; the time threshold is computed in double precision as in the
  code.  \<open>Instant::checked_sub\<close> yields no instant before the origin; a packet sent at or after the origin is
  never older than such an instant, so the two platform behaviours agree.
\<close>

section \<open>Constants and data\<close>

definition PACKET_THRESHOLD :: u64 where "PACKET_THRESHOLD = 3"

definition TIME_THRESHOLD_MULTIPLIER :: f64 where "TIME_THRESHOLD_MULTIPLIER = 9 / 8"

definition PERSISTENT_CONGESTION_THRESHOLD :: nat where "PERSISTENT_CONGESTION_THRESHOLD = 3"

definition from_millis :: "nat \<Rightarrow> Duration" where "from_millis n = n * 10 ^ 6"

definition INITIAL_RTT :: Duration where "INITIAL_RTT = from_millis 333"

text \<open>\<open>Duration::MAX\<close>.\<close>

definition DURATION_MAX :: Duration where "DURATION_MAX = (2 ^ 64 - 1) * 10 ^ 9 + 999999999"

record SentPacket =
  sp_pn :: u64
  sp_space :: PacketNumberSpace
  sp_time_sent :: Instant
  sp_size :: nat
  sp_ack_eliciting :: bool
  sp_ecn_marking :: "UdpEcnCodepoint option"

section \<open>RTT estimation\<close>

record RttEstimator =
  smoothed_rtt :: Duration
  rttvar :: Duration
  min_rtt :: Duration
  latest_rtt :: Duration
  first_sample :: bool

definition rtt_new :: RttEstimator where
  "rtt_new = \<lparr>smoothed_rtt = INITIAL_RTT, rttvar = INITIAL_RTT div 2, min_rtt = DURATION_MAX, latest_rtt = 0,
     first_sample = True\<rparr>"

definition abs_diff :: "nat \<Rightarrow> nat \<Rightarrow> nat" where
  "abs_diff a b = (if a < b then b - a else a - b)"

definition rtt_update :: "Duration \<Rightarrow> Duration \<Rightarrow> RttEstimator \<Rightarrow> RttEstimator" where
  "rtt_update rtt_sample delay r =
     (let r = r\<lparr>latest_rtt := rtt_sample, min_rtt := min (min_rtt r) rtt_sample\<rparr> in
      if first_sample r
      then r\<lparr>smoothed_rtt := rtt_sample, rttvar := rtt_sample div 2, first_sample := False\<rparr>
      else let adjusted_rtt = (if rtt_sample > min_rtt r + delay then rtt_sample - delay else rtt_sample);
               diff = abs_diff (smoothed_rtt r) adjusted_rtt
           in r\<lparr>rttvar := (rttvar r * 3 + diff) div 4, smoothed_rtt := (smoothed_rtt r * 7 + adjusted_rtt) div 8\<rparr>)"

definition pto :: "RttEstimator \<Rightarrow> Duration" where
  "pto r = smoothed_rtt r + max (rttvar r) (from_millis 1) * 4"

section \<open>Packets in flight\<close>

text \<open>A \<open>BTreeSet\<close> is its ascending list of elements.\<close>

record SpaceState =
  lss_largest_acked :: "u64 option"
  lss_loss_time :: "Instant option"
  lss_sent_packets :: "(u64, SentPacket) BTreeMap"
  lss_acked_ack_eliciting_times :: "Instant list"
  lss_time_of_last_ack_eliciting :: "Instant option"

definition space_state_new :: SpaceState where
  "space_state_new = \<lparr>lss_largest_acked = None, lss_loss_time = None, lss_sent_packets = [],
     lss_acked_ack_eliciting_times = [], lss_time_of_last_ack_eliciting = None\<rparr>"

record LossDetection =
  ld_spaces :: "PacketNumberSpace \<Rightarrow> SpaceState"
  ld_rtt :: RttEstimator
  ld_pto_count :: nat
  ld_max_ack_delay :: Duration

definition loss_detection_new :: LossDetection where
  "loss_detection_new = \<lparr>ld_spaces = (\<lambda>_. space_state_new), ld_rtt = rtt_new, ld_pto_count = 0,
     ld_max_ack_delay = from_millis (unat DEFAULT_MAX_ACK_DELAY_MS)\<rparr>"

definition set_max_ack_delay :: "Duration \<Rightarrow> LossDetection \<Rightarrow> LossDetection" where
  "set_max_ack_delay d l = l\<lparr>ld_max_ack_delay := d\<rparr>"

definition upd_space :: "PacketNumberSpace \<Rightarrow> (SpaceState \<Rightarrow> SpaceState) \<Rightarrow> LossDetection \<Rightarrow> LossDetection" where
  "upd_space space f l = l\<lparr>ld_spaces := (ld_spaces l)(space := f (ld_spaces l space))\<rparr>"

definition ld_on_packet_sent :: "SentPacket \<Rightarrow> LossDetection \<Rightarrow> LossDetection" where
  "ld_on_packet_sent pkt l =
     (if \<not> sp_ack_eliciting pkt then l
      else upd_space (sp_space pkt)
             (\<lambda>s. s\<lparr>lss_time_of_last_ack_eliciting := Some (sp_time_sent pkt),
                    lss_sent_packets := bt_insert (sp_pn pkt) pkt (lss_sent_packets s)\<rparr>) l)"

section \<open>Acknowledgements\<close>

text \<open>The inner loop of \<open>on_ack_received\<close>: the numbers of one range are collected and then removed one by one.\<close>

fun take_acked_pns :: "u64 list \<Rightarrow> (u64, SentPacket) BTreeMap \<Rightarrow> SentPacket list \<Rightarrow>
    (u64, SentPacket) BTreeMap \<times> SentPacket list" where
  "take_acked_pns [] sent newly_acked = (sent, newly_acked)"
| "take_acked_pns (pn # nums) sent newly_acked =
     (case map_of sent pn of
        Some pkt \<Rightarrow> take_acked_pns nums (AList.delete pn sent) (newly_acked @ [pkt])
      | None \<Rightarrow> take_acked_pns nums sent newly_acked)"

fun take_acked :: "(u64 \<times> u64) list \<Rightarrow> (u64, SentPacket) BTreeMap \<Rightarrow> SentPacket list \<Rightarrow>
    (u64, SentPacket) BTreeMap \<times> SentPacket list" where
  "take_acked [] sent newly_acked = (sent, newly_acked)"
| "take_acked ((start, stop) # ranges) sent newly_acked =
     (let nums = map fst (filter (\<lambda>e. start \<le> fst e \<and> fst e \<le> stop) sent);
          (sent, newly_acked) = take_acked_pns nums sent newly_acked
      in take_acked ranges sent newly_acked)"

section \<open>Lost packets\<close>

definition loss_delay :: "RttEstimator \<Rightarrow> Duration" where
  "loss_delay r =
     max (from_secs_f64 (fl (as_secs_f64 (max (latest_rtt r) (smoothed_rtt r)) * TIME_THRESHOLD_MULTIPLIER)))
       (from_millis 1)"

text \<open>The loop over the candidates; it returns the packets still in flight, the loss timer and the lost packets.\<close>

fun detect_loop :: "u64 \<Rightarrow> Duration \<Rightarrow> Instant option \<Rightarrow> u64 list \<Rightarrow> (u64, SentPacket) BTreeMap \<Rightarrow> Instant option \<Rightarrow>
    SentPacket list \<Rightarrow> (u64, SentPacket) BTreeMap \<times> Instant option \<times> SentPacket list" where
  "detect_loop largest_acked delay lost_send_time [] sent timer lost = (sent, timer, lost)"
| "detect_loop largest_acked delay lost_send_time (pn # nums) sent timer lost =
     (case map_of sent pn of
        None \<Rightarrow> detect_loop largest_acked delay lost_send_time nums sent timer lost
      | Some pkt \<Rightarrow>
          let packet_threshold_met = PACKET_THRESHOLD \<le> largest_acked - pn;
              time_threshold_met = (case lost_send_time of Some lt \<Rightarrow> sp_time_sent pkt \<le> lt | None \<Rightarrow> False)
          in if packet_threshold_met \<or> time_threshold_met
             then detect_loop largest_acked delay lost_send_time nums (AList.delete pn sent) timer (lost @ [pkt])
             else let loss_time = sp_time_sent pkt + delay;
                      timer = (case timer of Some existing \<Rightarrow> if existing \<le> loss_time then timer else Some loss_time
                                           | None \<Rightarrow> Some loss_time)
                  in detect_loop largest_acked delay lost_send_time nums sent timer lost)"

definition detect_lost_packets :: "PacketNumberSpace \<Rightarrow> Instant \<Rightarrow> LossDetection \<Rightarrow> LossDetection \<times> SentPacket list" where
  "detect_lost_packets space now l =
     (case lss_largest_acked (ld_spaces l space) of
        None \<Rightarrow> (l, [])
      | Some largest_acked \<Rightarrow>
          let delay = loss_delay (ld_rtt l);
              lost_send_time = (if delay \<le> now then Some (now - delay) else None);
              sent = lss_sent_packets (ld_spaces l space);
              nums = filter (\<lambda>pn. pn < largest_acked) (map fst sent);
              (sent, timer, lost) = detect_loop largest_acked delay lost_send_time nums sent None []
          in (upd_space space (\<lambda>s. s\<lparr>lss_loss_time := timer, lss_sent_packets := sent\<rparr>) l, lost))"

definition on_ack_received :: "PacketNumberSpace \<Rightarrow> u64 \<Rightarrow> Duration \<Rightarrow> (u64 \<times> u64) list \<Rightarrow> Instant \<Rightarrow> LossDetection \<Rightarrow>
    LossDetection \<times> SentPacket list \<times> SentPacket list" where
  "on_ack_received space largest_acked delay ranges now l =
     (let is_new_largest = (case lss_largest_acked (ld_spaces l space) of Some prev \<Rightarrow> largest_acked > prev | None \<Rightarrow> True);
          l = (if is_new_largest then upd_space space (\<lambda>s. s\<lparr>lss_largest_acked := Some largest_acked\<rparr>) l else l);
          (sent, newly_acked) = take_acked ranges (lss_sent_packets (ld_spaces l space)) [];
          times = fold (\<lambda>pkt ts. if sp_ack_eliciting pkt then insort_insert (sp_time_sent pkt) ts else ts) newly_acked
                    (lss_acked_ack_eliciting_times (ld_spaces l space));
          l = upd_space space (\<lambda>s. s\<lparr>lss_sent_packets := sent, lss_acked_ack_eliciting_times := times\<rparr>) l;
          l = (if is_new_largest
               then (case find (\<lambda>p. sp_pn p = largest_acked) newly_acked of
                       Some largest_pkt \<Rightarrow>
                         l\<lparr>ld_rtt := rtt_update (now - sp_time_sent largest_pkt) delay (ld_rtt l)\<rparr>
                     | None \<Rightarrow> l)
               else l);
          l = l\<lparr>ld_pto_count := 0\<rparr>;
          (l, lost) = detect_lost_packets space now l
      in (l, newly_acked, lost))"

section \<open>Timers\<close>

definition min_option :: "nat option list \<Rightarrow> nat option" where
  "min_option xs = (case List.map_filter id xs of [] \<Rightarrow> None | y # ys \<Rightarrow> Some (foldl min y ys))"

definition all_spaces :: "PacketNumberSpace list" where
  "all_spaces = [SpInitial, SpHandshake, SpApplicationData]"

definition earliest_loss_time :: "LossDetection \<Rightarrow> Instant option" where
  "earliest_loss_time l = min_option (map (\<lambda>s. lss_loss_time (ld_spaces l s)) all_spaces)"

definition pto_timeout_for_space :: "LossDetection \<Rightarrow> PacketNumberSpace \<Rightarrow> Duration" where
  "pto_timeout_for_space l space =
     (let p = pto (ld_rtt l);
          p = (if space = SpApplicationData then p + ld_max_ack_delay l else p)
      in p * 2 ^ min (ld_pto_count l) 30)"

definition pto_deadline :: "LossDetection \<Rightarrow> Instant option" where
  "pto_deadline l = min_option (map (\<lambda>space.
     let state = ld_spaces l space in
     if lss_sent_packets state \<noteq> []
     then map_option (\<lambda>sent_at. sent_at + pto_timeout_for_space l space) (lss_time_of_last_ack_eliciting state)
     else None) all_spaces)"

definition has_unacked :: "LossDetection \<Rightarrow> PacketNumberSpace \<Rightarrow> bool" where
  "has_unacked l space \<longleftrightarrow> lss_sent_packets (ld_spaces l space) \<noteq> []"

definition pto_timeout :: "LossDetection \<Rightarrow> Duration" where
  "pto_timeout l =
     (let p = pto (ld_rtt l);
          p = (if has_unacked l SpApplicationData then p + ld_max_ack_delay l else p)
      in p * 2 ^ min (ld_pto_count l) 30)"

definition on_pto_timeout :: "LossDetection \<Rightarrow> LossDetection" where
  "on_pto_timeout l = l\<lparr>ld_pto_count := ld_pto_count l + 1\<rparr>"

definition ld_largest_acked :: "LossDetection \<Rightarrow> PacketNumberSpace \<Rightarrow> u64 option" where
  "ld_largest_acked l space = lss_largest_acked (ld_spaces l space)"

definition remove_sent_packet :: "PacketNumberSpace \<Rightarrow> u64 \<Rightarrow> LossDetection \<Rightarrow> LossDetection \<times> SentPacket option" where
  "remove_sent_packet space pn l =
     (upd_space space (\<lambda>s. s\<lparr>lss_sent_packets := AList.delete pn (lss_sent_packets s)\<rparr>) l,
      map_of (lss_sent_packets (ld_spaces l space)) pn)"

definition take_sent_packets :: "PacketNumberSpace \<Rightarrow> LossDetection \<Rightarrow> LossDetection \<times> SentPacket list" where
  "take_sent_packets space l =
     (upd_space space (\<lambda>s. s\<lparr>lss_sent_packets := []\<rparr>) l, map snd (lss_sent_packets (ld_spaces l space)))"

section \<open>Persistent congestion\<close>

definition persistent_congestion_duration :: "LossDetection \<Rightarrow> PacketNumberSpace \<Rightarrow> Duration" where
  "persistent_congestion_duration l space =
     (let p = pto (ld_rtt l);
          p = (if space = SpApplicationData then p + ld_max_ack_delay l else p)
      in p * PERSISTENT_CONGESTION_THRESHOLD)"

definition eliciting_between :: "Instant \<Rightarrow> Instant \<Rightarrow> SentPacket \<Rightarrow> bool" where
  "eliciting_between start stop pkt \<longleftrightarrow> sp_ack_eliciting pkt \<and> start \<le> sp_time_sent pkt \<and> sp_time_sent pkt \<le> stop"

definition detects_persistent_congestion ::
    "PacketNumberSpace \<Rightarrow> SentPacket list \<Rightarrow> SentPacket list \<Rightarrow> LossDetection \<Rightarrow> bool" where
  "detects_persistent_congestion space acked lost l =
     (case filter sp_ack_eliciting lost of
        [] \<Rightarrow> False
      | first # others \<Rightarrow>
          let start = foldl (\<lambda>t pkt. min t (sp_time_sent pkt)) (sp_time_sent first) others;
              stop = foldl (\<lambda>t pkt. max t (sp_time_sent pkt)) (sp_time_sent first) others;
              s = ld_spaces l space
          in if stop - start < persistent_congestion_duration l space then False
             else if list_ex (eliciting_between start stop) acked then False
             else if list_ex (\<lambda>t. start \<le> t \<and> t \<le> stop) (lss_acked_ack_eliciting_times s) then False
             else \<not> list_ex (eliciting_between start stop) (map snd (lss_sent_packets s)))"

definition prune_acknowledged_ack_eliciting_times :: "PacketNumberSpace \<Rightarrow> LossDetection \<Rightarrow> LossDetection" where
  "prune_acknowledged_ack_eliciting_times space l =
     upd_space space (\<lambda>s.
       case min_option (map (\<lambda>pkt. Some (sp_time_sent pkt)) (filter sp_ack_eliciting (map snd (lss_sent_packets s)))) of
         None \<Rightarrow> s\<lparr>lss_acked_ack_eliciting_times := []\<rparr>
       | Some oldest \<Rightarrow>
           s\<lparr>lss_acked_ack_eliciting_times := dropWhile (\<lambda>t. t < oldest) (lss_acked_ack_eliciting_times s)\<rparr>) l"

section \<open>RTT estimates\<close>

text \<open>Once a sample has been taken, the smoothed RTT and the last sample are at least the minimum RTT.\<close>

definition rtt_inv :: "RttEstimator \<Rightarrow> bool" where
  "rtt_inv r \<longleftrightarrow> (if first_sample r then r = rtt_new else min_rtt r \<le> smoothed_rtt r \<and> min_rtt r \<le> latest_rtt r)"

lemma rtt_inv_new: "rtt_inv rtt_new"
  by (simp add: rtt_inv_def rtt_new_def)

lemma rtt_inv_update: "rtt_inv r \<Longrightarrow> rtt_inv (rtt_update sample d r)"
  by (auto simp: rtt_inv_def rtt_update_def Let_def)

definition wf_space :: "PacketNumberSpace \<Rightarrow> SpaceState \<Rightarrow> bool" where
  "wf_space space s \<longleftrightarrow> bt_wf (lss_sent_packets s) \<and>
     (\<forall>(pn, pkt) \<in> set (lss_sent_packets s). sp_pn pkt = pn \<and> sp_space pkt = space \<and> sp_ack_eliciting pkt) \<and>
     sorted (lss_acked_ack_eliciting_times s) \<and>
     (lss_sent_packets s \<noteq> [] \<longrightarrow> lss_time_of_last_ack_eliciting s \<noteq> None)"

definition wf_loss :: "LossDetection \<Rightarrow> bool" where
  "wf_loss l \<longleftrightarrow> (\<forall>space. wf_space space (ld_spaces l space)) \<and> rtt_inv (ld_rtt l)"

section \<open>Acknowledged packets\<close>

lemma filter_key:
  "bt_wf m \<Longrightarrow> map_of m k = Some v \<Longrightarrow> filter (\<lambda>e. fst e = k) m = [(k, v)]"
proof (induction m)
  case (Cons e m)
  then show ?case
    by (cases e) (auto simp: bt_wf_Cons filter_empty_conv split: if_splits dest!: map_of_SomeD)
qed simp

lemma mset_filter_insert_key:
  assumes "bt_wf m" "map_of m k = Some v" "P (k, v)"
  shows "mset (map snd (filter (\<lambda>e. fst e = k \<or> fst e \<in> A) (filter P m))) =
    {#v#} + mset (map snd (filter (\<lambda>e. fst e \<in> A) (filter P (AList.delete k m))))"
proof -
  let ?M = "filter (\<lambda>e. fst e = k \<or> fst e \<in> A) (filter P m)"
  have k: "filter (\<lambda>e. fst e = k) ?M = [(k, v)]"
  proof -
    have "filter (\<lambda>e. fst e = k) ?M = filter P (filter (\<lambda>e. fst e = k) m)" by (auto simp: conj_ac intro: filter_cong)
    then show ?thesis using filter_key [OF assms(1,2)] assms(3) by simp
  qed
  have "mset (map snd ?M) = mset (map snd (filter (\<lambda>e. fst e = k) ?M)) + mset (map snd (filter (\<lambda>e. fst e \<noteq> k) ?M))"
    by (subst (1) mset_map, subst multiset_partition [of "mset ?M" "\<lambda>e. fst e = k"]) (simp only: mset_map mset_filter image_mset_union)
  moreover have "filter (\<lambda>e. fst e \<noteq> k) ?M = filter (\<lambda>e. fst e \<in> A) (filter P (AList.delete k m))"
    by (auto simp: AList.delete_eq split_beta intro: filter_cong)
  ultimately show ?thesis by (simp only: k list.map mset.simps snd_conv)
qed

lemma take_acked_pns_eq:
  "bt_wf sent \<Longrightarrow> take_acked_pns nums sent acc = (sent', acked) \<Longrightarrow>
   sent' = filter (\<lambda>e. fst e \<notin> set nums) sent \<and>
   mset acked = mset acc + mset (map snd (filter (\<lambda>e. fst e \<in> set nums) sent))"
proof (induction nums arbitrary: sent acc)
  case (Cons pn nums)
  show ?case
  proof (cases "map_of sent pn")
    case None
    then have "pn \<notin> fst ` set sent" by (simp add: map_of_eq_None_iff)
    then have "filter (\<lambda>e. fst e = pn \<or> fst e \<in> set nums) sent = filter (\<lambda>e. fst e \<in> set nums) sent"
      "filter (\<lambda>e. fst e \<noteq> pn \<and> fst e \<notin> set nums) sent = filter (\<lambda>e. fst e \<notin> set nums) sent"
      by (auto intro!: filter_cong)
    then show ?thesis using Cons None by simp
  next
    case (Some pkt)
    have "sent' = filter (\<lambda>e. fst e \<notin> set nums) (AList.delete pn sent) \<and>
        mset acked = mset (acc @ [pkt]) + mset (map snd (filter (\<lambda>e. fst e \<in> set nums) (AList.delete pn sent)))"
      using Cons.prems Some by (intro Cons.IH) auto
    moreover have "filter (\<lambda>e. fst e \<notin> set nums) (AList.delete pn sent) = filter (\<lambda>e. fst e \<notin> set (pn # nums)) sent"
      by (auto simp: AList.delete_eq split_beta intro: filter_cong)
    ultimately show ?thesis
      using mset_filter_insert_key [OF Cons.prems(1) Some, of "\<lambda>_. True" "set nums"] by simp
  qed
qed simp

definition in_ranges :: "(u64 \<times> u64) list \<Rightarrow> u64 \<Rightarrow> bool" where
  "in_ranges ranges pn \<longleftrightarrow> list_ex (\<lambda>r. fst r \<le> pn \<and> pn \<le> snd r) ranges"

lemma take_acked_eq:
  "bt_wf sent \<Longrightarrow> take_acked ranges sent acc = (sent', acked) \<Longrightarrow>
   sent' = filter (\<lambda>e. \<not> in_ranges ranges (fst e)) sent \<and>
   mset acked = mset acc + mset (map snd (filter (\<lambda>e. in_ranges ranges (fst e)) sent))"
proof (induction ranges arbitrary: sent acc)
  case (Cons r ranges)
  obtain a b where r: "r = (a, b)" by fastforce
  let ?R = "\<lambda>e. a \<le> fst e \<and> fst e \<le> b" and ?Q = "\<lambda>e. in_ranges ranges (fst e)"
  let ?nums = "map fst (filter ?R sent)"
  obtain sent1 acked1 where t: "take_acked_pns ?nums sent acc = (sent1, acked1)" by fastforce
  have n: "fst e \<in> set ?nums \<longleftrightarrow> ?R e" if "e \<in> set sent" for e using that by auto
  have "filter (\<lambda>e. fst e \<notin> set ?nums) sent = filter (\<lambda>e. \<not> ?R e) sent"
    "filter (\<lambda>e. fst e \<in> set ?nums) sent = filter ?R sent"
    by (rule filter_cong [OF refl], simp only: n)+
  then have e1: "sent1 = filter (\<lambda>e. \<not> ?R e) sent" "mset acked1 = mset acc + mset (map snd (filter ?R sent))"
    using take_acked_pns_eq [OF Cons.prems(1) t] by (simp_all only:)
  have "sent' = filter (\<lambda>e. \<not> ?Q e) sent1 \<and> mset acked = mset acked1 + mset (map snd (filter ?Q sent1))"
    using Cons.prems t e1(1) r by (intro Cons.IH) (simp_all add: bt_wf_filter Let_def)
  moreover have "filter (\<lambda>e. \<not> ?Q e) sent1 = filter (\<lambda>e. \<not> in_ranges (r # ranges) (fst e)) sent"
    by (auto simp: e1 in_ranges_def r intro: filter_cong)
  moreover have "mset (map snd (filter (\<lambda>e. in_ranges (r # ranges) (fst e)) sent)) =
      mset (map snd (filter ?R sent)) + mset (map snd (filter ?Q sent1))"
  proof -
    have "mset (filter (\<lambda>e. in_ranges (r # ranges) (fst e)) sent) =
        mset (filter ?R sent) + mset (filter ?Q sent1)"
      by (subst multiset_partition [of "mset (filter (\<lambda>e. in_ranges (r # ranges) (fst e)) sent)" ?R])
        (auto simp: e1 in_ranges_def r filter_filter_mset intro!: arg_cong2 [where f = "(+)"] filter_mset_cong)
    then show ?thesis by simp
  qed
  ultimately show ?case using e1(2) by simp
qed (simp add: in_ranges_def)

section \<open>Lost packets\<close>

text \<open>The loss criterion of one packet.\<close>

definition is_lost :: "u64 \<Rightarrow> Duration \<Rightarrow> Instant \<Rightarrow> SentPacket \<Rightarrow> bool" where
  "is_lost largest_acked delay now pkt \<longleftrightarrow>
     sp_pn pkt < largest_acked \<and> (3 \<le> unat largest_acked - unat (sp_pn pkt) \<or> sp_time_sent pkt + delay \<le> now)"

definition send_deadline :: "Duration \<Rightarrow> Instant \<Rightarrow> Instant option" where
  "send_deadline delay now = (if delay \<le> now then Some (now - delay) else None)"

lemma is_lost_code:
  "pn < largest_acked \<Longrightarrow> sp_pn pkt = pn \<Longrightarrow>
   (PACKET_THRESHOLD \<le> largest_acked - pn \<or>
     (case send_deadline delay now of Some lt \<Rightarrow> sp_time_sent pkt \<le> lt | None \<Rightarrow> False))
   \<longleftrightarrow> is_lost largest_acked delay now pkt"
  by (auto simp: is_lost_def send_deadline_def PACKET_THRESHOLD_def word_le_nat_alt unat_sub word_less_nat_alt split: if_splits)

lemma detect_loop_eq:
  assumes "detect_loop la delay (send_deadline delay now) nums sent timer acc = (sent', timer', lost)"
    and "bt_wf sent" "\<forall>(pn, pkt) \<in> set sent. sp_pn pkt = pn" "\<forall>pn \<in> set nums. pn < la" "distinct nums"
  shows "sent' = filter (\<lambda>e. \<not> (fst e \<in> set nums \<and> is_lost la delay now (snd e))) sent \<and>
    mset lost = mset acc + mset (map snd (filter (\<lambda>e. fst e \<in> set nums) (filter (\<lambda>e. is_lost la delay now (snd e)) sent)))"
  using assms
proof (induction la delay "send_deadline delay now" nums sent timer acc rule: detect_loop.induct)
  case (2 la delay pn nums sent timer acc)
  show ?case
  proof (cases "map_of sent pn")
    case None
    then have "pn \<notin> fst ` set sent" by (simp add: map_of_eq_None_iff)
    then have "filter (\<lambda>e. fst e \<in> set (pn # nums)) (filter P sent) = filter (\<lambda>e. fst e \<in> set nums) (filter P sent)"
      "filter (\<lambda>e. \<not> (fst e \<in> set (pn # nums) \<and> P e)) sent = filter (\<lambda>e. \<not> (fst e \<in> set nums \<and> P e)) sent" for P
      by (auto intro!: filter_cong)
    moreover have "sent' = filter (\<lambda>e. \<not> (fst e \<in> set nums \<and> is_lost la delay now (snd e))) sent \<and>
        mset lost = mset acc + mset (map snd (filter (\<lambda>e. fst e \<in> set nums)
          (filter (\<lambda>e. is_lost la delay now (snd e)) sent)))"
      using "2.prems" None by (intro "2.hyps"(1) [OF None]) auto
    ultimately show ?thesis by (simp only:)
  next
    case (Some pkt)
    have pn: "sp_pn pkt = pn" "pn < la" using "2.prems"(3,4) Some by (auto dest: map_of_SomeD)
    note lost = is_lost_code [OF pn(2,1), of delay now]
    have K: "snd e = pkt" if "e \<in> set sent" "fst e = pn" for e
      using that Some bt_wf_distinct [OF "2.prems"(2)] by (metis map_of_eq_Some_iff option.inject prod.collapse)
    show ?thesis
    proof (cases "is_lost la delay now pkt")
      case True
      have "sent' = filter (\<lambda>e. \<not> (fst e \<in> set nums \<and> is_lost la delay now (snd e))) (AList.delete pn sent) \<and>
        mset lost = mset (acc @ [pkt]) + mset (map snd (filter (\<lambda>e. fst e \<in> set nums)
          (filter (\<lambda>e. is_lost la delay now (snd e)) (AList.delete pn sent))))"
        using "2.prems" Some True lost by (intro "2.hyps"(2) [OF Some refl refl]) (auto simp: set_delete)
      moreover have "filter (\<lambda>e. \<not> (fst e \<in> set nums \<and> is_lost la delay now (snd e))) (AList.delete pn sent) =
          filter (\<lambda>e. \<not> (fst e \<in> set (pn # nums) \<and> is_lost la delay now (snd e))) sent"
        using True by (auto simp: AList.delete_eq split_beta dest: K intro!: filter_cong)
      ultimately show ?thesis
        using mset_filter_insert_key [OF "2.prems"(2) Some, of "\<lambda>e. is_lost la delay now (snd e)" "set nums"] True by simp
    next
      case False
      have "sent' = filter (\<lambda>e. \<not> (fst e \<in> set nums \<and> is_lost la delay now (snd e))) sent \<and>
        mset lost = mset acc + mset (map snd (filter (\<lambda>e. fst e \<in> set nums)
          (filter (\<lambda>e. is_lost la delay now (snd e)) sent)))"
        using "2.prems" Some False lost by (intro "2.hyps"(3) [OF Some refl refl _ refl refl]) (auto simp: Let_def)
      moreover have "filter (\<lambda>e. \<not> (fst e \<in> set nums \<and> is_lost la delay now (snd e))) sent =
          filter (\<lambda>e. \<not> (fst e \<in> set (pn # nums) \<and> is_lost la delay now (snd e))) sent"
        "filter (\<lambda>e. fst e \<in> set nums) (filter (\<lambda>e. is_lost la delay now (snd e)) sent) =
          filter (\<lambda>e. fst e \<in> set (pn # nums)) (filter (\<lambda>e. is_lost la delay now (snd e)) sent)"
        using False by (auto dest: K intro!: filter_cong)
      ultimately show ?thesis by (simp only:)
    qed
  qed
qed simp

text \<open>The loss timer is the earliest time at which a packet that stays in flight becomes old enough.\<close>

lemma detect_loop_timer:
  assumes "detect_loop la delay (send_deadline delay now) nums sent timer acc = (sent', timer', lost)"
    and "bt_wf sent" "\<forall>(pn, pkt) \<in> set sent. sp_pn pkt = pn" "\<forall>pn \<in> set nums. pn < la" "distinct nums"
  shows "(\<forall>e \<in> set sent. fst e \<in> set nums \<longrightarrow> \<not> is_lost la delay now (snd e) \<longrightarrow>
        (\<exists>t. timer' = Some t \<and> t \<le> sp_time_sent (snd e) + delay)) \<and>
    (\<forall>t. timer = Some t \<longrightarrow> (\<exists>t'. timer' = Some t' \<and> t' \<le> t)) \<and>
    (\<forall>t. timer' = Some t \<longrightarrow> timer = Some t \<or> (\<exists>e \<in> set sent. fst e \<in> set nums \<and>
        \<not> is_lost la delay now (snd e) \<and> t = sp_time_sent (snd e) + delay))"
  using assms
proof (induction la delay "send_deadline delay now" nums sent timer acc rule: detect_loop.induct)
  case (2 la delay pn nums sent timer acc)
  show ?case
  proof (cases "map_of sent pn")
    case None
    then have "pn \<notin> fst ` set sent" by (simp add: map_of_eq_None_iff)
    then show ?thesis using "2.hyps"(1) [OF None] "2.prems" None by auto
  next
    case (Some pkt)
    have pn: "sp_pn pkt = pn" "pn < la" using "2.prems"(3,4) Some by (auto dest: map_of_SomeD)
    note lost = is_lost_code [OF pn(2,1), of delay now]
    have K: "snd e = pkt" if "e \<in> set sent" "fst e = pn" for e
      using that Some bt_wf_distinct [OF "2.prems"(2)] by (metis map_of_eq_Some_iff option.inject prod.collapse)
    have P: "(pn, pkt) \<in> set sent" using Some by (rule map_of_SomeD)
    have K': "b = pkt" if "(pn, b) \<in> set sent" for b using K [OF that] by simp
    show ?thesis
    proof (cases "is_lost la delay now pkt")
      case True
      have step: "detect_loop la delay (send_deadline delay now) nums (AList.delete pn sent) timer (acc @ [pkt]) = (sent', timer', lost)"
        using "2.prems"(1) Some True lost by (auto simp: Let_def)
      have prem: "bt_wf (AList.delete pn sent)" "\<forall>(pn, pkt) \<in> set (AList.delete pn sent). sp_pn pkt = pn"
        "\<forall>pn \<in> set nums. pn < la" "distinct nums"
        using "2.prems"(2-5) by (auto simp: set_delete)
      have "PACKET_THRESHOLD \<le> la - pn \<or> (case send_deadline delay now of None \<Rightarrow> False | Some lt \<Rightarrow> sp_time_sent pkt \<le> lt)"
        using True lost by blast
      note IH = "2.hyps"(2) [OF Some refl refl this step prem]
      show ?thesis
        using IH True "2.prems"(5) by (intro conjI) (fastforce simp: set_delete dest: K')+
    next
      case False
      define lt where "lt = sp_time_sent pkt + delay"
      define timer1 where "timer1 = (case timer of Some existing \<Rightarrow> if existing \<le> lt then timer else Some lt | None \<Rightarrow> Some lt)"
      have nl: "\<not> (PACKET_THRESHOLD \<le> la - pn \<or> (case send_deadline delay now of None \<Rightarrow> False | Some lt \<Rightarrow> sp_time_sent pkt \<le> lt))"
        using False lost by blast
      have step: "detect_loop la delay (send_deadline delay now) nums sent timer1 acc = (sent', timer', lost)"
        using "2.prems"(1) Some nl unfolding timer1_def lt_def by (simp add: Let_def)
      have prem: "\<forall>pn \<in> set nums. pn < la" "distinct nums" using "2.prems"(4,5) by auto
      note IH = "2.hyps"(3) [OF Some refl refl nl lt_def timer1_def step "2.prems"(2,3) prem]
      define t1 where "t1 = (case timer of Some existing \<Rightarrow> min existing lt | None \<Rightarrow> lt)"
      have t1: "timer1 = Some t1" "t1 \<le> lt" "timer = Some t \<Longrightarrow> t1 \<le> t" "timer = Some t1 \<or> t1 = lt" for t
        by (auto simp: timer1_def t1_def split: option.splits)
      obtain t' where t': "timer' = Some t'" "t' \<le> t1" using IH t1(1) by blast
      note IH1 = IH [THEN conjunct1, rule_format] and IH3 = IH [THEN conjunct2, THEN conjunct2, rule_format]
      show ?thesis
      proof (intro conjI ballI allI impI)
        fix e assume e: "e \<in> set sent" "fst e \<in> set (pn # nums)" "\<not> is_lost la delay now (snd e)"
        show "\<exists>t. timer' = Some t \<and> t \<le> sp_time_sent (snd e) + delay"
        proof (cases "fst e = pn")
          case True
          then show ?thesis using t' t1(2) K [OF e(1)] by (simp add: lt_def)
        qed (use IH1 e in auto)
      next
        fix t assume "timer = Some t"
        then show "\<exists>t'. timer' = Some t' \<and> t' \<le> t" using t' t1(3) by force
      next
        fix t assume t: "timer' = Some t"
        have "(pn, pkt) \<in> set sent \<and> fst (pn, pkt) \<in> set (pn # nums) \<and> \<not> is_lost la delay now (snd (pn, pkt))"
          using P False by simp
        then show "timer = Some t \<or> (\<exists>e \<in> set sent. fst e \<in> set (pn # nums) \<and> \<not> is_lost la delay now (snd e) \<and>
            t = sp_time_sent (snd e) + delay)"
          using IH3 [OF t] t1(1,4) unfolding lt_def by (metis list.set_intros(2) option.inject snd_conv)
      qed
    qed
  qed
qed simp

section \<open>Acknowledgement processing\<close>

lemma upd_space_simps [simp]:
  "ld_spaces (upd_space space f l) s = (if s = space then f (ld_spaces l space) else ld_spaces l s)"
  "ld_rtt (upd_space space f l) = ld_rtt l" "ld_pto_count (upd_space space f l) = ld_pto_count l"
  "ld_max_ack_delay (upd_space space f l) = ld_max_ack_delay l"
  by (simp_all add: upd_space_def)

lemma detect_lost_packets_correct:
  assumes "detect_lost_packets space now l = (l', lost)" "lss_largest_acked (ld_spaces l space) = Some la"
    and "wf_space space (ld_spaces l space)"
  defines "sent \<equiv> lss_sent_packets (ld_spaces l space)" and "D \<equiv> loss_delay (ld_rtt l)"
  shows "mset lost = mset (map snd (filter (\<lambda>e. is_lost la D now (snd e)) sent))"
    and "\<exists>timer. l' = upd_space space (\<lambda>s. s\<lparr>lss_loss_time := timer,
           lss_sent_packets := filter (\<lambda>e. \<not> is_lost la D now (snd e)) sent\<rparr>) l \<and>
         (\<forall>e \<in> set sent. fst e < la \<longrightarrow> \<not> is_lost la D now (snd e) \<longrightarrow>
            (\<exists>t. timer = Some t \<and> t \<le> sp_time_sent (snd e) + D)) \<and>
         (\<forall>t. timer = Some t \<longrightarrow> (\<exists>e \<in> set sent. fst e < la \<and> \<not> is_lost la D now (snd e) \<and> t = sp_time_sent (snd e) + D))"
proof -
  let ?nums = "filter (\<lambda>pn. pn < la) (map fst sent)"
  obtain sent' timer lost' where d: "detect_loop la D (send_deadline D now) ?nums sent None [] = (sent', timer, lost')"
    by (metis prod_cases3)
  have l': "l' = upd_space space (\<lambda>s. s\<lparr>lss_loss_time := timer, lss_sent_packets := sent'\<rparr>) l" "lost = lost'"
    using assms(1,2) d by (simp_all add: detect_lost_packets_def Let_def sent_def D_def send_deadline_def)
  have wf: "bt_wf sent" "\<forall>(pn, pkt) \<in> set sent. sp_pn pkt = pn" "\<forall>pn \<in> set ?nums. pn < la" "distinct ?nums"
    using assms(3) by (auto simp: wf_space_def sent_def intro!: distinct_filter bt_wf_distinct)
  have n: "fst e \<in> set ?nums \<longleftrightarrow> fst e < la" if "e \<in> set sent" for e using that by auto
  have L: "fst e < la" if "e \<in> set sent" "is_lost la D now (snd e)" for e
    using that wf(2) by (auto simp: is_lost_def)
  have "filter (\<lambda>e. \<not> (fst e \<in> set ?nums \<and> is_lost la D now (snd e))) sent = filter (\<lambda>e. \<not> is_lost la D now (snd e)) sent"
    "filter (\<lambda>e. fst e \<in> set ?nums) (filter (\<lambda>e. is_lost la D now (snd e)) sent) = filter (\<lambda>e. is_lost la D now (snd e)) sent"
    using n L by (auto simp del: set_filter intro!: filter_cong)
  then have s: "sent' = filter (\<lambda>e. \<not> is_lost la D now (snd e)) sent"
    "mset lost' = mset (map snd (filter (\<lambda>e. is_lost la D now (snd e)) sent))"
    using detect_loop_eq [OF d wf] by (simp_all only: mset.simps add_0)
  show "mset lost = mset (map snd (filter (\<lambda>e. is_lost la D now (snd e)) sent))" using s(2) l'(2) by simp
  have t: "(\<forall>e \<in> set sent. fst e < la \<longrightarrow> \<not> is_lost la D now (snd e) \<longrightarrow> (\<exists>t. timer = Some t \<and> t \<le> sp_time_sent (snd e) + D))"
    "(\<forall>t. timer = Some t \<longrightarrow> (\<exists>e \<in> set sent. fst e < la \<and> \<not> is_lost la D now (snd e) \<and> t = sp_time_sent (snd e) + D))"
    using detect_loop_timer [OF d wf] n by (simp_all del: set_filter)
  show "\<exists>timer. l' = upd_space space (\<lambda>s. s\<lparr>lss_loss_time := timer,
           lss_sent_packets := filter (\<lambda>e. \<not> is_lost la D now (snd e)) sent\<rparr>) l \<and>
         (\<forall>e \<in> set sent. fst e < la \<longrightarrow> \<not> is_lost la D now (snd e) \<longrightarrow>
            (\<exists>t. timer = Some t \<and> t \<le> sp_time_sent (snd e) + D)) \<and>
         (\<forall>t. timer = Some t \<longrightarrow> (\<exists>e \<in> set sent. fst e < la \<and> \<not> is_lost la D now (snd e) \<and> t = sp_time_sent (snd e) + D))"
    using l'(1) s(1) t by blast
qed

text \<open>The number an ACK frame moves the largest acknowledged one to.\<close>

definition new_largest :: "u64 option \<Rightarrow> u64 \<Rightarrow> u64" where
  "new_largest prev la = (case prev of Some p \<Rightarrow> max p la | None \<Rightarrow> la)"

lemma insort_insert_sorted [simp]: "sorted xs \<Longrightarrow> sorted (insort_insert (x :: nat) xs)"
  by (simp add: insort_insert_key_def sorted_insort)

lemma set_insort_insert [simp]: "set (insort_insert (x :: nat) xs) = insert x (set xs)"
  by (auto simp: insort_insert_key_def set_insort_key)

lemma acked_times:
  "sorted ts \<Longrightarrow>
   sorted (fold (\<lambda>pkt ts. if sp_ack_eliciting pkt then insort_insert (sp_time_sent pkt) ts else ts) pkts ts) \<and>
   set (fold (\<lambda>pkt ts. if sp_ack_eliciting pkt then insort_insert (sp_time_sent pkt) ts else ts) pkts ts) =
     set ts \<union> sp_time_sent ` {p \<in> set pkts. sp_ack_eliciting p}"
  by (induction pkts arbitrary: ts) auto

lemma on_ack_received_expand:
  assumes "on_ack_received space la d ranges now l = (l', acked, lost)" "wf_loss l"
  defines "sent \<equiv> lss_sent_packets (ld_spaces l space)"
  obtains m times where
    "lss_largest_acked (ld_spaces m space) = Some (new_largest (lss_largest_acked (ld_spaces l space)) la)"
    "lss_sent_packets (ld_spaces m space) = filter (\<lambda>e. \<not> in_ranges ranges (fst e)) sent"
    "lss_acked_ack_eliciting_times (ld_spaces m space) = times" "sorted times"
    "set times = set (lss_acked_ack_eliciting_times (ld_spaces l space)) \<union> sp_time_sent ` {p \<in> set acked. sp_ack_eliciting p}"
    "lss_time_of_last_ack_eliciting (ld_spaces m space) = lss_time_of_last_ack_eliciting (ld_spaces l space)"
    "mset acked = mset (map snd (filter (\<lambda>e. in_ranges ranges (fst e)) sent))"
    "detect_lost_packets space now m = (l', lost)" "rtt_inv (ld_rtt m)" "ld_pto_count m = 0"
    "ld_max_ack_delay m = ld_max_ack_delay l" "\<forall>s. s \<noteq> space \<longrightarrow> ld_spaces m s = ld_spaces l s"
proof -
  define nl where "nl = (case lss_largest_acked (ld_spaces l space) of Some prev \<Rightarrow> la > prev | None \<Rightarrow> True)"
  obtain sent' acked' where t: "take_acked ranges sent [] = (sent', acked')" by fastforce
  define times where "times = fold (\<lambda>pkt ts. if sp_ack_eliciting pkt then insort_insert (sp_time_sent pkt) ts else ts) acked'
    (lss_acked_ack_eliciting_times (ld_spaces l space))"
  define l1 where "l1 = (if nl then upd_space space (\<lambda>s. s\<lparr>lss_largest_acked := Some la\<rparr>) l else l)"
  define l2 where "l2 = upd_space space (\<lambda>s. s\<lparr>lss_sent_packets := sent', lss_acked_ack_eliciting_times := times\<rparr>) l1"
  define l3 where "l3 = (if nl then (case find (\<lambda>p. sp_pn p = la) acked' of
      Some p \<Rightarrow> l2\<lparr>ld_rtt := rtt_update (now - sp_time_sent p) d (ld_rtt l2)\<rparr> | None \<Rightarrow> l2) else l2)"
  define m where "m = l3\<lparr>ld_pto_count := 0\<rparr>"
  have l1: "lss_sent_packets (ld_spaces l1 space) = sent"
    "lss_acked_ack_eliciting_times (ld_spaces l1 space) = lss_acked_ack_eliciting_times (ld_spaces l space)"
    by (simp_all add: l1_def sent_def)
  have m: "detect_lost_packets space now m = (l', lost)" "acked = acked'"
    using assms(1)
    unfolding on_ack_received_def Let_def nl_def [symmetric] l1_def [symmetric] l1 t prod.case times_def [symmetric]
      l2_def [symmetric] l3_def [symmetric] m_def [symmetric]
    by (auto split: prod.splits)
  have wf: "bt_wf sent" "sorted (lss_acked_ack_eliciting_times (ld_spaces l space))" "rtt_inv (ld_rtt l)"
    using assms(2) by (auto simp: wf_loss_def wf_space_def sent_def)
  have sp: "ld_spaces m = ld_spaces l2" "ld_max_ack_delay m = ld_max_ack_delay l"
    by (auto simp: m_def l3_def l2_def l1_def split: option.splits)
  have r: "rtt_inv (ld_rtt m)" using wf(3) by (auto simp: m_def l3_def l2_def l1_def rtt_inv_update split: option.splits)
  note ta = take_acked_eq [OF wf(1) t] and at = acked_times [OF wf(2), of acked', folded times_def]
  show thesis
    by (rule that [of m times])
      (use m ta at sp r in \<open>auto simp: l2_def l1_def nl_def new_largest_def m_def max_def split: option.splits\<close>)
qed

lemma on_ack_received_correct:
  assumes "on_ack_received space la d ranges now l = (l', acked, lost)" "wf_loss l"
  defines "sent \<equiv> lss_sent_packets (ld_spaces l space)"
    and "la' \<equiv> new_largest (lss_largest_acked (ld_spaces l space)) la"
    and "D \<equiv> loss_delay (ld_rtt l')"
  shows "mset acked = mset (map snd (filter (\<lambda>e. in_ranges ranges (fst e)) sent))" (is ?acked)
    and "mset lost = mset (map snd (filter (\<lambda>e. \<not> in_ranges ranges (fst e) \<and> is_lost la' D now (snd e)) sent))" (is ?lost)
    and "lss_sent_packets (ld_spaces l' space) =
      filter (\<lambda>e. \<not> in_ranges ranges (fst e) \<and> \<not> is_lost la' D now (snd e)) sent" (is ?rest)
    and "\<forall>e \<in> set (lss_sent_packets (ld_spaces l' space)). fst e < la' \<longrightarrow>
      (\<exists>t. lss_loss_time (ld_spaces l' space) = Some t \<and> t \<le> sp_time_sent (snd e) + D)" (is ?timer)
    and "lss_largest_acked (ld_spaces l' space) = Some la'" (is ?largest)
    and "set (lss_acked_ack_eliciting_times (ld_spaces l' space)) =
      set (lss_acked_ack_eliciting_times (ld_spaces l space)) \<union> sp_time_sent ` {p \<in> set acked. sp_ack_eliciting p}" (is ?times)
    and "ld_pto_count l' = 0" (is ?pto) and "\<forall>s. s \<noteq> space \<longrightarrow> ld_spaces l' s = ld_spaces l s" (is ?others)
    and "wf_loss l'" (is ?wf)
proof -
  obtain m times where m: "lss_largest_acked (ld_spaces m space) = Some la'"
    "lss_sent_packets (ld_spaces m space) = filter (\<lambda>e. \<not> in_ranges ranges (fst e)) sent"
    "lss_acked_ack_eliciting_times (ld_spaces m space) = times" "sorted times"
    "set times = set (lss_acked_ack_eliciting_times (ld_spaces l space)) \<union> sp_time_sent ` {p \<in> set acked. sp_ack_eliciting p}"
    "lss_time_of_last_ack_eliciting (ld_spaces m space) = lss_time_of_last_ack_eliciting (ld_spaces l space)"
    "mset acked = mset (map snd (filter (\<lambda>e. in_ranges ranges (fst e)) sent))"
    "detect_lost_packets space now m = (l', lost)" "rtt_inv (ld_rtt m)" "ld_pto_count m = 0"
    "ld_max_ack_delay m = ld_max_ack_delay l" "\<forall>s. s \<noteq> space \<longrightarrow> ld_spaces m s = ld_spaces l s"
    using on_ack_received_expand [OF assms(1,2), folded sent_def la'_def] by blast
  have wfl: "wf_space s (ld_spaces l s)" for s using assms(2) by (simp add: wf_loss_def)
  have wfs: "bt_wf sent" "\<forall>(pn, pkt) \<in> set sent. sp_pn pkt = pn \<and> sp_space pkt = space \<and> sp_ack_eliciting pkt"
    "sent \<noteq> [] \<longrightarrow> lss_time_of_last_ack_eliciting (ld_spaces l space) \<noteq> None"
    using wfl [of space] by (auto simp: wf_space_def sent_def)
  have "filter P sent \<noteq> [] \<longrightarrow> lss_time_of_last_ack_eliciting (ld_spaces l space) \<noteq> None" for P
    using wfs(3) by (cases sent) auto
  then have wfm: "wf_space space (ld_spaces m space)"
    using wfs m(2-4,6) by (auto simp: wf_space_def bt_wf_filter)
  obtain timer where l': "l' = upd_space space (\<lambda>s. s\<lparr>lss_loss_time := timer, lss_sent_packets :=
      filter (\<lambda>e. \<not> is_lost la' (loss_delay (ld_rtt m)) now (snd e)) (lss_sent_packets (ld_spaces m space))\<rparr>) m"
    "\<forall>e \<in> set (lss_sent_packets (ld_spaces m space)). fst e < la' \<longrightarrow> \<not> is_lost la' (loss_delay (ld_rtt m)) now (snd e) \<longrightarrow>
       (\<exists>t. timer = Some t \<and> t \<le> sp_time_sent (snd e) + loss_delay (ld_rtt m))"
    using detect_lost_packets_correct(2) [OF m(8,1) wfm] by blast
  have D: "loss_delay (ld_rtt m) = D" by (simp add: D_def l'(1))
  show ?acked by (rule m(7))
  show ?lost using detect_lost_packets_correct(1) [OF m(8,1) wfm] unfolding D m(2) filter_filter by (simp add: conj_commute)
  show rest: ?rest by (simp add: l'(1) D m(2) conj_commute)
  show ?timer using l'(2) by (auto simp: l'(1) D)
  show ?largest ?times ?pto ?others using m by (simp_all add: l'(1))
  have "wf_space space (ld_spaces l' space)" using wfm by (auto simp: l'(1) wf_space_def bt_wf_filter split: list.splits)
  then show ?wf using wfl m(9,12) unfolding wf_loss_def by (auto simp: l'(1))
qed

section \<open>The other operations keep the invariant\<close>

lemma wf_loss_new: "wf_loss loss_detection_new"
  by (simp add: wf_loss_def loss_detection_new_def wf_space_def space_state_new_def rtt_inv_new)

lemma wf_loss_on_packet_sent: "wf_loss l \<Longrightarrow> wf_loss (ld_on_packet_sent pkt l)"
  by (auto simp: wf_loss_def ld_on_packet_sent_def wf_space_def set_bt_insert)

lemma wf_space_shrink:
  "wf_space space s \<Longrightarrow> bt_wf q \<Longrightarrow> set q \<subseteq> set (lss_sent_packets s) \<Longrightarrow> wf_space space (s\<lparr>lss_sent_packets := q\<rparr>)"
  by (cases q) (auto simp: wf_space_def)

lemma wf_loss_remove: "wf_loss l \<Longrightarrow> wf_loss (fst (remove_sent_packet space pn l))"
  unfolding wf_loss_def remove_sent_packet_def fst_conv
  by (auto simp: set_delete intro!: wf_space_shrink) (simp add: wf_space_def)

lemma wf_loss_take: "wf_loss l \<Longrightarrow> wf_loss (fst (take_sent_packets space l))"
  by (auto simp: wf_loss_def take_sent_packets_def wf_space_def)

lemma wf_loss_timeout: "wf_loss l \<Longrightarrow> wf_loss (on_pto_timeout l)"
  by (simp add: wf_loss_def on_pto_timeout_def)

lemma wf_loss_prune: "wf_loss l \<Longrightarrow> wf_loss (prune_acknowledged_ack_eliciting_times space l)"
  by (auto simp: wf_loss_def prune_acknowledged_ack_eliciting_times_def wf_space_def sorted_dropWhile split: option.splits)

section \<open>The time threshold\<close>

lemma round_even_bounds: "x - 1 / 2 \<le> of_int (round_even x)" "of_int (round_even x) \<le> x + 1 / 2"
  using round_even_error [of x] by linarith+

lemma loss_delay_at_least_rtt:
  "max (latest_rtt r) (smoothed_rtt r) \<le> loss_delay r"
  "from_millis 1 \<le> loss_delay r"
  "of_nat (loss_delay r) \<le> max (rat_of_nat (from_millis 1)) (of_nat (max (latest_rtt r) (smoothed_rtt r)) * (9 / 8 + 1 / 10 ^ 6) + 1 / 2)"
proof -
  define R where "R = max (latest_rtt r) (smoothed_rtt r)"
  define x :: rat where "x = of_nat R"
  define S where "S = fl (as_secs_f64 R * TIME_THRESHOLD_MULTIPLIER)"
  have x: "0 \<le> x" by (simp add: x_def)
  have a: "x / 10 ^ 9 * (1 - 1 / 2 ^ 51) \<le> as_secs_f64 R" "as_secs_f64 R \<le> x / 10 ^ 9 * (1 + 1 / 2 ^ 51)"
    using as_secs_f64_bounds [of R] by (simp_all add: x_def)
  have "0 \<le> x / 10 ^ 9 * (1 - 1 / 2 ^ 51)" using x by simp
  then have pos: "0 \<le> as_secs_f64 R * (9 / 8)" using a(1) by simp
  have S: "as_secs_f64 R * (9 / 8) * (1 - 1 / 2 ^ 53) \<le> S" "S \<le> as_secs_f64 R * (9 / 8) * (1 + 1 / 2 ^ 53)"
    using fl_bounds [OF pos] by (simp_all add: S_def TIME_THRESHOLD_MULTIPLIER_def)
  have "S * 10 ^ 9 \<ge> x * (1 - 1 / 2 ^ 51) * (9 / 8) * (1 - 1 / 2 ^ 53)" using S(1) a(1) by simp
  moreover have "S * 10 ^ 9 \<le> x * (1 + 1 / 2 ^ 51) * (9 / 8) * (1 + 1 / 2 ^ 53)" using S(2) a(2) by simp
  ultimately have b: "x * (110 / 100) \<le> S * 10 ^ 9" "S * 10 ^ 9 \<le> x * (9 / 8 + 1 / 10 ^ 6)" using x by simp_all
  have f: "of_nat (from_secs_f64 S) = (of_int (round_even (S * 10 ^ 9)) :: rat)"
    using b(1) x round_even_nonneg [of "S * 10 ^ 9"] by (simp add: from_secs_f64_def NANOS_PER_SEC_def)
  have D: "loss_delay r = max (from_secs_f64 S) (from_millis 1)" by (simp add: loss_delay_def S_def R_def)
  show "from_millis 1 \<le> loss_delay r" by (simp add: D)
  show "max (latest_rtt r) (smoothed_rtt r) \<le> loss_delay r"
  proof (cases "R \<le> from_millis 1")
    case False
    then have "1000 \<le> x" by (simp add: from_millis_def x_def)
    then have "x \<le> of_int (round_even (S * 10 ^ 9))" using b(1) round_even_bounds(1) [of "S * 10 ^ 9"] by linarith
    then have "R \<le> from_secs_f64 S" using f by (simp add: x_def flip: of_nat_le_iff)
    then show ?thesis unfolding D R_def [symmetric] by (rule max.coboundedI1)
  qed (auto simp: D R_def)
  have "of_int (round_even (S * 10 ^ 9)) \<le> x * (9 / 8 + 1 / 10 ^ 6) + 1 / 2"
    using b(2) round_even_bounds(2) [of "S * 10 ^ 9"] by linarith
  then show "of_nat (loss_delay r) \<le> max (rat_of_nat (from_millis 1)) (of_nat (max (latest_rtt r) (smoothed_rtt r)) * (9 / 8 + 1 / 10 ^ 6) + 1 / 2)"
    using f by (simp add: D x_def R_def of_nat_max max_def)
qed

section \<open>Persistent congestion\<close>

lemma foldl_min_time: "foldl (\<lambda>t p. min t (sp_time_sent p)) a ps = Min (insert a (sp_time_sent ` set ps))"
proof (induction ps arbitrary: a)
  case (Cons p ps)
  have "Min (insert (min a (sp_time_sent p)) (sp_time_sent ` set ps)) = Min (insert a (sp_time_sent ` set (p # ps)))"
    by (cases ps) (auto simp: min.assoc)
  then show ?case using Cons by simp
qed simp

lemma foldl_max_time: "foldl (\<lambda>t p. max t (sp_time_sent p)) a ps = Max (insert a (sp_time_sent ` set ps))"
proof (induction ps arbitrary: a)
  case (Cons p ps)
  have "Max (insert (max a (sp_time_sent p)) (sp_time_sent ` set ps)) = Max (insert a (sp_time_sent ` set (p # ps)))"
    by (cases ps) (auto simp: max.assoc)
  then show ?case using Cons by simp
qed simp

definition eliciting_times :: "SentPacket set \<Rightarrow> Instant set" where
  "eliciting_times ps = sp_time_sent ` {p \<in> ps. sp_ack_eliciting p}"

lemma detects_persistent_congestion_iff:
  "detects_persistent_congestion space acked lost l \<longleftrightarrow>
     (let L = eliciting_times (set lost); s = ld_spaces l space in
      L \<noteq> {} \<and> persistent_congestion_duration l space \<le> Max L - Min L \<and>
      {Min L .. Max L} \<inter> (eliciting_times (set acked) \<union> set (lss_acked_ack_eliciting_times s) \<union>
        eliciting_times (snd ` set (lss_sent_packets s))) = {})"
proof (cases "filter sp_ack_eliciting lost")
  case Nil
  then have "eliciting_times (set lost) = {}" by (auto simp: eliciting_times_def filter_empty_conv)
  then show ?thesis using Nil by (simp add: detects_persistent_congestion_def)
next
  case (Cons f os)
  then have L: "eliciting_times (set lost) = insert (sp_time_sent f) (sp_time_sent ` set os)"
    unfolding eliciting_times_def by (metis list.simps(15) image_insert set_filter)
  have A: "list_ex (eliciting_between a b) ps \<longleftrightarrow> {a .. b} \<inter> eliciting_times (set ps) \<noteq> {}" for a b ps
    by (auto simp: list_ex_iff eliciting_between_def eliciting_times_def)
  have B: "list_ex (\<lambda>t. a \<le> t \<and> t \<le> b) ts \<longleftrightarrow> {a .. b} \<inter> set ts \<noteq> {}" for a b and ts :: "nat list"
    by (auto simp: list_ex_iff)
  have ne: "eliciting_times (set lost) \<noteq> {}" using L by simp
  show ?thesis
    unfolding detects_persistent_congestion_def Cons list.case Let_def foldl_min_time foldl_max_time L [symmetric] A B
    by (simp add: ne Int_Un_distrib not_less)
qed

lemma map_filter_map_Some: "List.map_filter id (map Some xs) = xs"
  by (induction xs) (simp_all add: map_filter_simps)

lemma min_option_eq: "min_option (map Some ts) = (if ts = [] then None else Some (Min (set ts)))"
proof (cases ts)
  case (Cons t ts')
  have "foldl min (a :: nat) xs = Min (insert a (set xs))" for a xs
  proof (induction xs arbitrary: a)
    case (Cons x xs)
    have "Min (insert (min a x) (set xs)) = Min (insert a (set (x # xs)))" by (cases xs) (auto simp: min.assoc)
    then show ?case using Cons by simp
  qed simp
  then show ?thesis using Cons by (simp add: min_option_def map_filter_map_Some del: list.map)
qed (simp add: min_option_def map_filter_simps)

lemma set_dropWhile_less:
  "sorted ts \<Longrightarrow> set (dropWhile (\<lambda>t. t < (k :: nat)) ts) = {t \<in> set ts. k \<le> t}"
  by (induction ts) auto

lemma prune_history:
  fixes space assumes "wf_loss l"
  defines "s \<equiv> ld_spaces l space" and "s' \<equiv> ld_spaces (prune_acknowledged_ack_eliciting_times space l) space"
  shows "set (lss_acked_ack_eliciting_times s') =
    {t \<in> set (lss_acked_ack_eliciting_times s). \<exists>u \<in> eliciting_times (snd ` set (lss_sent_packets s)). u \<le> t}"
proof -
  let ?ts = "map sp_time_sent (filter sp_ack_eliciting (map snd (lss_sent_packets s)))"
  have ts: "set ?ts = eliciting_times (snd ` set (lss_sent_packets s))" by (auto simp: eliciting_times_def)
  have m: "map (\<lambda>pkt. Some (sp_time_sent pkt)) (filter sp_ack_eliciting (map snd (lss_sent_packets s))) = map Some ?ts" by simp
  have so: "sorted (lss_acked_ack_eliciting_times s)" using assms(1) by (auto simp: wf_loss_def wf_space_def s_def)
  have s': "s' = (case if ?ts = [] then None else Some (Min (set ?ts)) of
      None \<Rightarrow> s\<lparr>lss_acked_ack_eliciting_times := []\<rparr>
    | Some oldest \<Rightarrow> s\<lparr>lss_acked_ack_eliciting_times := dropWhile (\<lambda>t. t < oldest) (lss_acked_ack_eliciting_times s)\<rparr>)"
    unfolding s'_def prune_acknowledged_ack_eliciting_times_def upd_space_simps s_def [symmetric] m min_option_eq by simp
  show ?thesis
  proof (cases "?ts = []")
    case True
    then have "eliciting_times (snd ` set (lss_sent_packets s)) = {}" using ts by (metis list.set(1))
    then show ?thesis using True unfolding s' by simp
  next
    case False
    then have "s' = s\<lparr>lss_acked_ack_eliciting_times := dropWhile (\<lambda>t. t < Min (set ?ts)) (lss_acked_ack_eliciting_times s)\<rparr>"
      unfolding s' by (simp only: if_False option.case)
    then have "set (lss_acked_ack_eliciting_times s') = {t \<in> set (lss_acked_ack_eliciting_times s). Min (set ?ts) \<le> t}"
      by (simp add: set_dropWhile_less [OF so] del: set_map)
    moreover have "Min (set ?ts) \<le> t \<longleftrightarrow> (\<exists>u \<in> set ?ts. u \<le> t)" for t
      using False by (intro Min_le_iff finite_set) (simp only: set_empty not_False_eq_True)
    ultimately show ?thesis unfolding ts [symmetric] by blast
  qed
qed

text \<open>The later state of a space: further acknowledged extra, and other packets in flight.\<close>

definition later :: "PacketNumberSpace \<Rightarrow> Instant list \<Rightarrow> (u64, SentPacket) BTreeMap \<Rightarrow> LossDetection \<Rightarrow> LossDetection" where
  "later space extra sent = upd_space space (\<lambda>s. s\<lparr>lss_acked_ack_eliciting_times := lss_acked_ack_eliciting_times s @ extra,
     lss_sent_packets := sent\<rparr>)"

lemma pruned_detection:
  fixes space assumes "wf_loss l"
    and "\<And>p. p \<in> set lost \<Longrightarrow> sp_ack_eliciting p \<Longrightarrow>
      (\<exists>u \<in> eliciting_times (snd ` set (lss_sent_packets (ld_spaces l space))). u \<le> sp_time_sent p) \<or>
      (\<forall>t \<in> set (lss_acked_ack_eliciting_times (ld_spaces l space)). t < sp_time_sent p)"
  shows "detects_persistent_congestion space acked lost (later space extra sent (prune_acknowledged_ack_eliciting_times space l)) =
    detects_persistent_congestion space acked lost (later space extra sent l)"
proof -
  let ?L = "eliciting_times (set lost)" and ?s = "ld_spaces l space"
  let ?O = "eliciting_times (snd ` set (lss_sent_packets ?s))"
  let ?l' = "prune_acknowledged_ack_eliciting_times space l"
  let ?H = "set (lss_acked_ack_eliciting_times ?s)" and ?H' = "set (lss_acked_ack_eliciting_times (ld_spaces ?l' space))"
  have H: "{Min ?L .. Max ?L} \<inter> ?H' = {Min ?L .. Max ?L} \<inter> ?H" if "?L \<noteq> {}"
  proof -
    have fin: "finite ?L" by (simp add: eliciting_times_def)
    then have "Min ?L \<in> ?L" using that by simp
    then have "(\<exists>u \<in> ?O. u \<le> Min ?L) \<or> (\<forall>t \<in> ?H. t < Min ?L)"
      using assms(2) by (fastforce simp: eliciting_times_def)
    then show ?thesis
    proof
      assume "\<exists>u \<in> ?O. u \<le> Min ?L"
      then show ?thesis unfolding prune_history [OF assms(1)] using order_trans by (fastforce simp del: Min_le_iff)
    next
      assume "\<forall>t \<in> ?H. t < Min ?L"
      then have "{Min ?L .. Max ?L} \<inter> ?H = {}" by (meson atLeastAtMost_iff disjoint_iff not_less)
      then show ?thesis unfolding prune_history [OF assms(1)] by blast
    qed
  qed
  have d: "persistent_congestion_duration (later space extra sent ?l') space = persistent_congestion_duration (later space extra sent l) space"
    by (simp add: persistent_congestion_duration_def later_def prune_acknowledged_ack_eliciting_times_def Let_def)
  show ?thesis
    unfolding detects_persistent_congestion_iff Let_def d using H by (simp add: later_def) blast
qed

section \<open>Properties\<close>

text \<open>C7: an ACK frame settles exactly the packets it should.  The packets in flight of its space are divided
  into the acknowledged ones (those in the acknowledged ranges), the lost ones (below the largest
  acknowledged number and either three packets or one loss delay behind) and the rest, which stay in
  flight with the loss timer set early enough for each of them below the largest acknowledged number.\<close>

theorem ack_settles_packets:
  assumes "on_ack_received space la d ranges now l = (l', acked, lost)" "wf_loss l"
  shows "let sent = lss_sent_packets (ld_spaces l space);
             la' = new_largest (lss_largest_acked (ld_spaces l space)) la;
             D = loss_delay (ld_rtt l')
         in mset acked = mset (map snd (filter (\<lambda>e. in_ranges ranges (fst e)) sent)) \<and>
            mset lost = mset (map snd (filter (\<lambda>e. \<not> in_ranges ranges (fst e) \<and> is_lost la' D now (snd e)) sent)) \<and>
            lss_sent_packets (ld_spaces l' space) =
              filter (\<lambda>e. \<not> in_ranges ranges (fst e) \<and> \<not> is_lost la' D now (snd e)) sent \<and>
            (\<forall>e \<in> set (lss_sent_packets (ld_spaces l' space)). fst e < la' \<longrightarrow>
              (\<exists>t. lss_loss_time (ld_spaces l' space) = Some t \<and> t \<le> sp_time_sent (snd e) + D)) \<and>
            lss_largest_acked (ld_spaces l' space) = Some la' \<and> wf_loss l'"
  unfolding Let_def by (intro conjI on_ack_received_correct [OF assms])

definition example_packet :: "u64 \<Rightarrow> SentPacket" where
  "example_packet pn = \<lparr>sp_pn = pn, sp_space = SpApplicationData, sp_time_sent = 10, sp_size = 1200,
     sp_ack_eliciting = True, sp_ecn_marking = None\<rparr>"

definition example_loss :: LossDetection where
  "example_loss = fold ld_on_packet_sent (map example_packet [0, 1, 3]) loss_detection_new"

lemma example_loss_wf: "wf_loss example_loss"
  by (simp add: example_loss_def wf_loss_on_packet_sent wf_loss_new)

lemma loss_delay_zero: "latest_rtt r = 0 \<Longrightarrow> smoothed_rtt r = 0 \<Longrightarrow> loss_delay r = 1000000"
  by (simp add: loss_delay_def as_secs_f64_def fl_def from_secs_f64_def round_even_def from_millis_def)

lemma example_ack:
  "snd (on_ack_received SpApplicationData 3 0 [(3, 3)] 10 example_loss) = ([example_packet 3], [example_packet 0])"
  by (simp add: on_ack_received_def detect_lost_packets_def example_loss_def ld_on_packet_sent_def loss_detection_new_def
      upd_space_def space_state_new_def example_packet_def rtt_new_def rtt_update_def loss_delay_zero PACKET_THRESHOLD_def Let_def word_le_nat_alt)

theorem ack_settles_packets_witness:
  "mset [example_packet 0] = mset (map snd (filter (\<lambda>e. \<not> in_ranges [(3, 3)] (fst e) \<and>
     is_lost 3 (loss_delay (ld_rtt (fst (on_ack_received SpApplicationData 3 0 [(3, 3)] 10 example_loss)))) 10 (snd e))
     (lss_sent_packets (ld_spaces example_loss SpApplicationData))))"
proof -
  obtain l' where "on_ack_received SpApplicationData 3 0 [(3, 3)] 10 example_loss = (l', [example_packet 3], [example_packet 0])"
    using example_ack by (metis prod.collapse)
  moreover have "new_largest (lss_largest_acked (ld_spaces example_loss SpApplicationData)) 3 = 3"
    by (simp add: example_loss_def ld_on_packet_sent_def loss_detection_new_def space_state_new_def new_largest_def)
  ultimately show ?thesis
    using ack_settles_packets [OF _ example_loss_wf, of SpApplicationData 3 0 "[(3, 3)]" 10] by (simp add: Let_def)
qed

text \<open>C19: persistent congestion is declared exactly when the ack-eliciting packets just lost span at least
  the persistent-congestion period and no ack-eliciting packet sent in that span is acknowledged, now or
  by an earlier ACK frame, or still in flight.\<close>

theorem persistent_congestion_exact:
  "detects_persistent_congestion space acked lost l \<longleftrightarrow>
     (let L = eliciting_times (set lost); s = ld_spaces l space in
      L \<noteq> {} \<and> persistent_congestion_duration l space \<le> Max L - Min L \<and>
      {Min L .. Max L} \<inter> (eliciting_times (set acked) \<union> set (lss_acked_ack_eliciting_times s) \<union>
        eliciting_times (snd ` set (lss_sent_packets s))) = {})"
  by (rule detects_persistent_congestion_iff)

text \<open>C20: dropping old acknowledged send times loses nothing: for every later state of the space and every
  set of lost packets that were in flight at the time of pruning, or sent after everything in the history,
  persistent congestion is detected from the pruned history exactly when it is from the full one.\<close>

theorem pruning_keeps_detection:
  assumes "wf_loss l"
    and "list_all (\<lambda>p. sp_ack_eliciting p \<longrightarrow>
      (\<exists>u \<in> eliciting_times (snd ` set (lss_sent_packets (ld_spaces l space))). u \<le> sp_time_sent p) \<or>
      (\<forall>t \<in> set (lss_acked_ack_eliciting_times (ld_spaces l space)). t < sp_time_sent p)) lost"
  shows "detects_persistent_congestion space acked lost (later space extra sent (prune_acknowledged_ack_eliciting_times space l)) =
    detects_persistent_congestion space acked lost (later space extra sent l)"
  using assms by (intro pruned_detection) (auto simp: list_all_iff)

theorem pruning_keeps_detection_witness:
  "detects_persistent_congestion SpApplicationData [] [example_packet 1]
      (later SpApplicationData [7] [] (prune_acknowledged_ack_eliciting_times SpApplicationData example_loss)) =
    detects_persistent_congestion SpApplicationData [] [example_packet 1] (later SpApplicationData [7] [] example_loss)"
  by (rule pruning_keeps_detection [OF example_loss_wf])
    (simp add: example_loss_def ld_on_packet_sent_def loss_detection_new_def space_state_new_def example_packet_def)

text \<open>C21: the time threshold, computed in double precision and rounded to nanoseconds, is never shorter than
  the larger of the last and the smoothed RTT, never shorter than a millisecond, and exceeds 9/8 of the RTT
  by at most one part in a million and half a nanosecond.\<close>

theorem loss_delay_bounds:
  "let rtt = max (latest_rtt r) (smoothed_rtt r) in
   rtt \<le> loss_delay r \<and> from_millis 1 \<le> loss_delay r \<and>
   of_nat (loss_delay r) \<le> max (rat_of_nat (from_millis 1)) (of_nat rtt * (9 / 8 + 1 / 10 ^ 6) + 1 / 2)"
  unfolding Let_def by (intro conjI loss_delay_at_least_rtt)

end
