(* ===== verification/Conn_Recovery.thy ===== *)
theory Conn_Recovery
  imports Loss_Detection
begin

text \<open>
  Recovery as the connection composes it (\<open>starfish-quic/src/connection.rs\<close>): loss detection, the
  congestion controller, the frames remembered per packet for retransmission, the ECN validation and the
  path-MTU search.  The record \<open>Recovery\<close> holds the fields of \<open>QuicConnection\<close> these operations read and
  write; the queue of pending frames and the streams are the \<open>ConnStreams\<close> of \<open>Stream_Io\<close>.  The
  controller is the method record \<open>cc\<close> with its state in \<open>rc_congestion\<close>.  A \<open>BTreeSet\<close> of packet
  numbers is its ascending list.
\<close>

section \<open>State\<close>

definition MAX_DATAGRAM_SIZE :: nat where "MAX_DATAGRAM_SIZE = 1472"

definition MAX_LOCAL_UDP_PAYLOAD_SIZE :: nat where
  "MAX_LOCAL_UDP_PAYLOAD_SIZE = unat DEFAULT_MAX_UDP_PAYLOAD_SIZE"

record PathMtuProbe =
  probe_pn :: u64
  probe_size :: nat
  probe_sent_at :: Instant

record PathMtuState =
  peer_max_udp_payload_size :: nat
  local_max_udp_payload_size :: nat
  probe_upper_bound :: nat
  in_flight_probe :: "PathMtuProbe option"
  next_probe_at :: "Instant option"

definition path_mtu_new :: PathMtuState where
  "path_mtu_new = \<lparr>peer_max_udp_payload_size = MAX_DATAGRAM_SIZE,
     local_max_udp_payload_size = MAX_LOCAL_UDP_PAYLOAD_SIZE, probe_upper_bound = MAX_LOCAL_UDP_PAYLOAD_SIZE,
     in_flight_probe = None, next_probe_at = None\<rparr>"

definition search_limit :: "PathMtuState \<Rightarrow> nat" where
  "search_limit m = min (min (local_max_udp_payload_size m) (peer_max_udp_payload_size m)) (probe_upper_bound m)"

record 'c Recovery =
  rc_conn :: ConnStreams
  rc_loss :: LossDetection
  rc_congestion :: 'c
  rc_sent_frames :: "PacketNumberSpace \<Rightarrow> (u64, Frame list) BTreeMap"
  rc_zero_rtt_in_flight :: "u64 list"
  rc_peer_ack_ecn_counts :: "PacketNumberSpace \<Rightarrow> EcnCounts option"
  rc_sent_ecn_counts :: "PacketNumberSpace \<Rightarrow> EcnCounts"
  rc_outbound_ecn_enabled :: bool
  rc_peer_ack_delay_exponent :: u32
  rc_peer_max_ack_delay :: Duration
  rc_max_send_udp_payload_size :: nat
  rc_path_mtu :: PathMtuState
  rc_next_paced_send_time :: "Instant option"
  rc_one_rtt_packets_sent_with_current_keys :: u64

definition requeue :: "PacketNumberSpace \<Rightarrow> Frame list \<Rightarrow> 'c Recovery \<Rightarrow> 'c Recovery" where
  "requeue space frames r =
     r\<lparr>rc_conn := fold (push_pending space) (filter is_retransmittable frames) (rc_conn r)\<rparr>"

definition forget_frames :: "PacketNumberSpace \<Rightarrow> u64 \<Rightarrow> 'c Recovery \<Rightarrow> 'c Recovery" where
  "forget_frames space pn r =
     r\<lparr>rc_sent_frames := (rc_sent_frames r)(space := AList.delete pn (rc_sent_frames r space))\<rparr>"

section \<open>Path MTU search\<close>

definition path_mtu_probe_interval :: "'c Recovery \<Rightarrow> Duration" where
  "path_mtu_probe_interval r = max (smoothed_rtt (ld_rtt (rc_loss r))) (from_millis 10)"

definition path_mtu_probe_timeout_deadline :: "'c Recovery \<Rightarrow> Instant option" where
  "path_mtu_probe_timeout_deadline r =
     (case in_flight_probe (rc_path_mtu r) of
        None \<Rightarrow> None
      | Some probe \<Rightarrow> Some (probe_sent_at probe + max (pto_timeout (rc_loss r)) (path_mtu_probe_interval r)))"

text \<open>\<open>saturating_mul\<close> on sizes that are at most a UDP payload never saturates.\<close>

definition probe_size_between :: "nat \<Rightarrow> nat \<Rightarrow> nat option" where
  "probe_size_between current limit =
     (if limit \<le> current then None
      else let doubled = current * 2;
               candidate = (if limit < doubled then current + (limit - current + 1) div 2 else doubled)
           in if candidate > current then Some (min candidate limit) else None)"

definition next_path_mtu_probe_size :: "'c Recovery \<Rightarrow> nat option" where
  "next_path_mtu_probe_size r = probe_size_between (rc_max_send_udp_payload_size r) (search_limit (rc_path_mtu r))"

definition schedule_next_path_mtu_probe :: "Instant \<Rightarrow> 'c Recovery \<Rightarrow> 'c Recovery" where
  "schedule_next_path_mtu_probe now r =
     r\<lparr>rc_path_mtu := (rc_path_mtu r)\<lparr>next_probe_at :=
        (if next_path_mtu_probe_size r \<noteq> None then Some (now + path_mtu_probe_interval r) else None)\<rparr>\<rparr>"

definition probe_pn_is :: "u64 \<Rightarrow> 'c Recovery \<Rightarrow> bool" where
  "probe_pn_is pn r = (case in_flight_probe (rc_path_mtu r) of Some probe \<Rightarrow> probe_pn probe = pn | None \<Rightarrow> False)"

definition complete_path_mtu_probe_success :: "u64 \<Rightarrow> Instant \<Rightarrow> 'c Recovery \<Rightarrow> 'c Recovery" where
  "complete_path_mtu_probe_success pn now r =
     (case in_flight_probe (rc_path_mtu r) of
        None \<Rightarrow> r
      | Some probe \<Rightarrow>
          if probe_pn probe \<noteq> pn then r
          else schedule_next_path_mtu_probe now
                 (r\<lparr>rc_path_mtu := (rc_path_mtu r)\<lparr>in_flight_probe := None\<rparr>,
                    rc_max_send_udp_payload_size := probe_size probe\<rparr>))"

text \<open>Removal of the probe packet from the recovery state, shared by the failed and the abandoned probe.\<close>

definition drop_probe :: "u64 \<Rightarrow> (SentPacket \<Rightarrow> 'c \<Rightarrow> 'c) \<Rightarrow> 'c Recovery \<Rightarrow> 'c Recovery" where
  "drop_probe pn release r =
     (let r = r\<lparr>rc_path_mtu := (rc_path_mtu r)\<lparr>in_flight_probe := None\<rparr>\<rparr>;
          r = forget_frames SpApplicationData pn r;
          (l, pkt) = remove_sent_packet SpApplicationData pn (rc_loss r)
      in r\<lparr>rc_loss := l,
           rc_congestion := (case pkt of Some p \<Rightarrow> release p (rc_congestion r) | None \<Rightarrow> rc_congestion r)\<rparr>)"

definition abandon_path_mtu_probe :: "'c CongestionController \<Rightarrow> u64 \<Rightarrow> 'c Recovery \<Rightarrow> 'c Recovery" where
  "abandon_path_mtu_probe cc pn r =
     (case in_flight_probe (rc_path_mtu r) of
        None \<Rightarrow> r
      | Some probe \<Rightarrow>
          if probe_pn probe \<noteq> pn then r
          else drop_probe pn (\<lambda>p. cc_on_packet_discarded cc (sp_size p)) r)"

definition complete_path_mtu_probe_failure :: "'c CongestionController \<Rightarrow> u64 \<Rightarrow> Instant \<Rightarrow> 'c Recovery \<Rightarrow> 'c Recovery" where
  "complete_path_mtu_probe_failure cc pn now r =
     (case in_flight_probe (rc_path_mtu r) of
        None \<Rightarrow> r
      | Some probe \<Rightarrow>
          if probe_pn probe \<noteq> pn then r
          else let r = drop_probe pn (\<lambda>p. cc_on_loss cc (sp_size p) (sp_time_sent p) now) r;
                   r = r\<lparr>rc_path_mtu := (rc_path_mtu r)\<lparr>probe_upper_bound :=
                          min (probe_upper_bound (rc_path_mtu r)) (probe_size probe - 1)\<rparr>\<rparr>
               in schedule_next_path_mtu_probe now r)"

definition handle_path_mtu_probe_timeout :: "'c CongestionController \<Rightarrow> Instant \<Rightarrow> 'c Recovery \<Rightarrow> 'c Recovery" where
  "handle_path_mtu_probe_timeout cc now r =
     (case path_mtu_probe_timeout_deadline r of
        None \<Rightarrow> r
      | Some deadline \<Rightarrow>
          if now < deadline then r
          else case in_flight_probe (rc_path_mtu r) of
                 Some probe \<Rightarrow> complete_path_mtu_probe_failure cc (probe_pn probe) now r
               | None \<Rightarrow> r)"

section \<open>Acknowledged and lost packets\<close>

fun acknowledge_frame :: "Frame \<Rightarrow> ConnStreams \<Rightarrow> ConnStreams" where
  "acknowledge_frame (Stream sf) c = acknowledge_stream_frame sf c"
| "acknowledge_frame _ c = c"

definition marked :: "UdpEcnCodepoint \<Rightarrow> SentPacket list \<Rightarrow> u64" where
  "marked ecn pkts = word_of_nat (length (filter (\<lambda>p. sp_ecn_marking p = Some ecn) pkts))"

definition validate_ack_ecn_and_count_ce ::
    "PacketNumberSpace \<Rightarrow> EcnCounts option \<Rightarrow> SentPacket list \<Rightarrow> bool \<Rightarrow> 'c Recovery \<Rightarrow> u64 \<times> 'c Recovery" where
  "validate_ack_ecn_and_count_ce space ecn acked is_new_largest r =
     (if \<not> rc_outbound_ecn_enabled r then (0, r)
      else let newly_acked_ecn = marked Ect0 acked + marked Ect1 acked;
               disabled = r\<lparr>rc_outbound_ecn_enabled := False\<rparr>
           in case ecn of
                None \<Rightarrow> (0, if newly_acked_ecn > 0 \<and> is_new_largest then disabled else r)
              | Some counts \<Rightarrow>
                  let previous = (case rc_peer_ack_ecn_counts r space of Some c \<Rightarrow> c | None \<Rightarrow> ecn_default)
                  in if ect0 counts < ect0 previous \<or> ect1 counts < ect1 previous \<or> ce counts < ce previous
                     then (0, if is_new_largest then disabled else r)
                     else let ect0_delta = ect0 counts - ect0 previous;
                              ect1_delta = ect1 counts - ect1 previous;
                              ce_delta = ce counts - ce previous;
                              sent = rc_sent_ecn_counts r space;
                              exceeds_total_sent = (ect0 counts > ect0 sent \<or> ect1 counts > ect1 sent);
                              exceeds_newly_acked = (ect0_delta + ect1_delta + ce_delta > newly_acked_ecn)
                          in if exceeds_total_sent \<or> exceeds_newly_acked
                             then (0, if is_new_largest then disabled else r)
                             else (ce_delta, r\<lparr>rc_peer_ack_ecn_counts := (rc_peer_ack_ecn_counts r)(space := Some counts)\<rparr>))"

text \<open>The body of the loop over the acknowledged packets.\<close>

definition settle_acked :: "'c CongestionController \<Rightarrow> PacketNumberSpace \<Rightarrow> Duration \<Rightarrow> Instant \<Rightarrow> SentPacket \<Rightarrow>
    u64 \<times> 'c Recovery \<Rightarrow> u64 \<times> 'c Recovery" where
  "settle_acked cc space rtt now pkt s =
     (let (ce_marked_packets, r) = s;
          r = r\<lparr>rc_zero_rtt_in_flight := removeAll (sp_pn pkt) (rc_zero_rtt_in_flight r)\<rparr>;
          r = (if sp_space pkt = SpApplicationData then complete_path_mtu_probe_success (sp_pn pkt) now r else r);
          ce_marked = (ce_marked_packets > 0 \<and> sp_ecn_marking pkt \<in> {Some Ect0, Some Ect1});
          r = r\<lparr>rc_congestion := (if ce_marked then cc_on_ecn_ce cc (sp_size pkt) (sp_time_sent pkt) now (rc_congestion r)
                                 else cc_on_ack cc (sp_size pkt) rtt (sp_time_sent pkt) now (rc_congestion r))\<rparr>;
          ce_marked_packets = (if ce_marked then ce_marked_packets - 1 else ce_marked_packets);
          r = (case map_of (rc_sent_frames r space) (sp_pn pkt) of
                 Some frames \<Rightarrow> (forget_frames space (sp_pn pkt) r)\<lparr>rc_conn := fold acknowledge_frame frames (rc_conn r)\<rparr>
               | None \<Rightarrow> r)
      in (ce_marked_packets, r))"

text \<open>The body of the loop over the lost packets.\<close>

definition settle_lost :: "'c CongestionController \<Rightarrow> PacketNumberSpace \<Rightarrow> Instant \<Rightarrow> SentPacket \<Rightarrow> 'c Recovery \<Rightarrow> 'c Recovery" where
  "settle_lost cc space now pkt r =
     (let r = r\<lparr>rc_zero_rtt_in_flight := removeAll (sp_pn pkt) (rc_zero_rtt_in_flight r)\<rparr>;
          r = (if sp_space pkt = SpApplicationData then complete_path_mtu_probe_failure cc (sp_pn pkt) now r else r);
          r = r\<lparr>rc_congestion := cc_on_loss cc (sp_size pkt) (sp_time_sent pkt) now (rc_congestion r)\<rparr>
      in case map_of (rc_sent_frames r space) (sp_pn pkt) of
           Some frames \<Rightarrow> requeue space frames (forget_frames space (sp_pn pkt) r)
         | None \<Rightarrow> r)"

text \<open>\<open>checked_shl\<close> fails only for a shift of 64 or more; the bits shifted out are lost.\<close>

definition scaled_ack_delay :: "u32 \<Rightarrow> u64 \<Rightarrow> u64" where
  "scaled_ack_delay e delay = push_bit (unat (min e MAX_ACK_DELAY_EXPONENT)) delay"

definition from_micros :: "u64 \<Rightarrow> Duration" where "from_micros us = unat us * 1000"

definition process_ack_frame :: "'c CongestionController \<Rightarrow> PacketNumberSpace \<Rightarrow> AckFrame \<Rightarrow> Instant \<Rightarrow> 'c Recovery \<Rightarrow> 'c Recovery" where
  "process_ack_frame cc space ack now r =
     (let ranges = map (\<lambda>x. (ar_start x, ar_end x)) (ack_ranges ack);
          previous_largest_acked = ld_largest_acked (rc_loss r) space;
          delay = from_micros (scaled_ack_delay (rc_peer_ack_delay_exponent r) (ack_delay ack));
          (l, acked, lost) = on_ack_received space (largest_acknowledged ack) delay ranges now (rc_loss r);
          persistent_congestion = detects_persistent_congestion space acked lost l;
          l = prune_acknowledged_ack_eliciting_times space l;
          r = r\<lparr>rc_loss := l\<rparr>;
          rtt = latest_rtt (ld_rtt l);
          is_new_largest = (case previous_largest_acked of Some previous \<Rightarrow> largest_acknowledged ack > previous | None \<Rightarrow> True);
          (ce_marked_packets, r) = validate_ack_ecn_and_count_ce space (ack_ecn ack) acked is_new_largest r;
          (_, r) = fold (settle_acked cc space rtt now) acked (ce_marked_packets, r);
          r = fold (settle_lost cc space now) lost r
      in if persistent_congestion then r\<lparr>rc_congestion := cc_on_persistent_congestion cc (rc_congestion r)\<rparr> else r)"

section \<open>Sending and giving up packets\<close>

record BuiltPacket =
  bp_space :: PacketNumberSpace
  bp_pn :: u64
  bp_frames :: "Frame list"
  bp_bytes :: bytes
  bp_ack_eliciting :: bool
  bp_track_retransmission :: bool
  bp_congestion_controlled :: bool
  bp_app_kind :: "ApplicationPacketKind option"

definition count_sent_ecn :: "UdpEcnCodepoint option \<Rightarrow> EcnCounts \<Rightarrow> EcnCounts" where
  "count_sent_ecn ecn c =
     (case ecn of
        Some Ect0 \<Rightarrow> c\<lparr>ect0 := saturating_add (ect0 c) 1\<rparr>
      | Some Ect1 \<Rightarrow> c\<lparr>ect1 := saturating_add (ect1 c) 1\<rparr>
      | _ \<Rightarrow> c)"

text \<open>The body of the loop of \<open>send_built_datagram_to_addr\<close> over the packets of a datagram that was sent.\<close>

definition record_built_packet :: "'c CongestionController \<Rightarrow> UdpEcnCodepoint option \<Rightarrow> Instant \<Rightarrow> BuiltPacket \<Rightarrow> 'c Recovery \<Rightarrow> 'c Recovery" where
  "record_built_packet cc ecn now packet r =
     (let space = bp_space packet;
          r = (if bp_ack_eliciting packet
               then r\<lparr>rc_sent_ecn_counts := (rc_sent_ecn_counts r)(space := count_sent_ecn ecn (rc_sent_ecn_counts r space))\<rparr>
               else r);
          r = (if bp_track_retransmission packet
               then r\<lparr>rc_sent_frames := (rc_sent_frames r)(space := bt_insert (bp_pn packet) (bp_frames packet) (rc_sent_frames r space)),
                      rc_loss := ld_on_packet_sent
                        \<lparr>sp_pn = bp_pn packet, sp_space = space, sp_time_sent = now, sp_size = length (bp_bytes packet),
                          sp_ack_eliciting = bp_ack_eliciting packet, sp_ecn_marking = ecn\<rparr> (rc_loss r),
                      rc_zero_rtt_in_flight := (if bp_app_kind packet = Some ApZeroRtt
                        then insort_insert (bp_pn packet) (rc_zero_rtt_in_flight r) else rc_zero_rtt_in_flight r)\<rparr>
               else r);
          r = (if bp_app_kind packet = Some ApOneRtt
               then r\<lparr>rc_one_rtt_packets_sent_with_current_keys := saturating_add (rc_one_rtt_packets_sent_with_current_keys r) 1\<rparr>
               else r)
      in if bp_congestion_controlled packet
         then r\<lparr>rc_congestion := cc_on_packet_sent cc (length (bp_bytes packet)) now (rc_congestion r)\<rparr>
         else r)"

text \<open>\<open>Duration::mul_f64\<close> multiplies the seconds and rounds back to nanoseconds.\<close>

definition mul_f64 :: "Duration \<Rightarrow> f64 \<Rightarrow> Duration" where
  "mul_f64 d x = from_secs_f64 (fl (x * as_secs_f64 d))"

definition record_built_datagram :: "'c CongestionController \<Rightarrow> UdpEcnCodepoint option \<Rightarrow> Instant \<Rightarrow> bytes \<Rightarrow> BuiltPacket list \<Rightarrow>
    'c Recovery \<Rightarrow> 'c Recovery" where
  "record_built_datagram cc ecn now datagram packets r =
     (let r = fold (record_built_packet cc ecn now) packets r;
          pacing_window = f64_of_usize (max (cc_window cc (rc_congestion r)) (length datagram));
          pacing_delay = mul_f64 (smoothed_rtt (ld_rtt (rc_loss r))) (fl (f64_of_usize (length datagram) / pacing_window))
      in r\<lparr>rc_next_paced_send_time := Some (now + max pacing_delay 1000)\<rparr>)"

text \<open>One step of \<open>requeue_zero_rtt_in_flight\<close>.\<close>

definition requeue_zero_rtt :: "'c CongestionController \<Rightarrow> u64 \<Rightarrow> 'c Recovery \<Rightarrow> 'c Recovery" where
  "requeue_zero_rtt cc pn r =
     (let (l, pkt) = remove_sent_packet SpApplicationData pn (rc_loss r);
          r = r\<lparr>rc_loss := l,
                rc_congestion := (case pkt of Some p \<Rightarrow> cc_on_packet_discarded cc (sp_size p) (rc_congestion r)
                                            | None \<Rightarrow> rc_congestion r)\<rparr>;
          r = (case map_of (rc_sent_frames r SpApplicationData) pn of
                 Some frames \<Rightarrow> requeue SpApplicationData frames (forget_frames SpApplicationData pn r)
               | None \<Rightarrow> r)
      in r\<lparr>rc_zero_rtt_in_flight := removeAll pn (rc_zero_rtt_in_flight r)\<rparr>)"

definition requeue_zero_rtt_in_flight :: "'c CongestionController \<Rightarrow> 'c Recovery \<Rightarrow> 'c Recovery" where
  "requeue_zero_rtt_in_flight cc r = fold (requeue_zero_rtt cc) (rc_zero_rtt_in_flight r) r"

text \<open>The recovery part of discarding the keys of a space: its packets leave flight without being lost, and
  their frames are forgotten.\<close>

definition discard_packets :: "'c CongestionController \<Rightarrow> PacketNumberSpace \<Rightarrow> 'c Recovery \<Rightarrow> 'c Recovery" where
  "discard_packets cc space r =
     (let (l, pkts) = take_sent_packets space (rc_loss r)
      in r\<lparr>rc_loss := l, rc_congestion := fold (\<lambda>p. cc_on_packet_discarded cc (sp_size p)) pkts (rc_congestion r)\<rparr>)"

definition discard_space_recovery :: "'c CongestionController \<Rightarrow> PacketNumberSpace \<Rightarrow> 'c Recovery \<Rightarrow> 'c Recovery" where
  "discard_space_recovery cc space r =
     (discard_packets cc space r)
       \<lparr>rc_sent_frames := (rc_sent_frames r)(space := []),
        rc_peer_ack_ecn_counts := (rc_peer_ack_ecn_counts r)(space := None),
        rc_sent_ecn_counts := (rc_sent_ecn_counts r)(space := ecn_default)\<rparr>"

definition reset_space :: "'c CongestionController \<Rightarrow> PacketNumberSpace \<Rightarrow> 'c Recovery \<Rightarrow> 'c Recovery" where
  "reset_space cc space r =
     (let frames = concat (map snd (rc_sent_frames r space));
          r = discard_packets cc space r
      in requeue space frames (r\<lparr>rc_sent_frames := (rc_sent_frames r)(space := [])\<rparr>))"

definition reset_path_recovery_after_validation :: "'c CongestionController \<Rightarrow> Instant \<Rightarrow> 'c Recovery \<Rightarrow> 'c Recovery" where
  "reset_path_recovery_after_validation cc now r =
     (let peer_max = peer_max_udp_payload_size (rc_path_mtu r);
          r = fold (reset_space cc) all_spaces r;
          m = path_mtu_new\<lparr>peer_max_udp_payload_size := peer_max\<rparr>;
          m = m\<lparr>probe_upper_bound := search_limit m\<rparr>;
          m = (if search_limit m > MAX_DATAGRAM_SIZE then m\<lparr>next_probe_at := Some now\<rparr> else m)
      in r\<lparr>rc_loss := set_max_ack_delay (rc_peer_max_ack_delay r) loss_detection_new,
           rc_congestion := cc_new_instance cc (rc_congestion r),
           rc_next_paced_send_time := None,
           rc_max_send_udp_payload_size := MAX_DATAGRAM_SIZE,
           rc_path_mtu := m\<rparr>)"

text \<open>\<open>has_keys\<close> tells for which spaces the connection holds keys.\<close>

definition queue_pto_probes_if_due :: "(PacketNumberSpace \<Rightarrow> bool) \<Rightarrow> Instant \<Rightarrow> 'c Recovery \<Rightarrow> bool \<times> 'c Recovery" where
  "queue_pto_probes_if_due has_keys now r =
     (case pto_deadline (rc_loss r) of
        None \<Rightarrow> (False, r)
      | Some deadline \<Rightarrow>
          if now < deadline then (False, r)
          else let probed = filter (\<lambda>space. has_keys space \<and> has_unacked (rc_loss r) space) all_spaces;
                   r = r\<lparr>rc_conn := fold (\<lambda>space. push_pending space Ping) probed (rc_conn r)\<rparr>
               in if probed \<noteq> [] then (True, r\<lparr>rc_loss := on_pto_timeout (rc_loss r)\<rparr>) else (False, r))"

section \<open>Bytes in flight\<close>

text \<open>The bytes of the packets that loss detection still tracks.\<close>

definition packets_in :: "LossDetection \<Rightarrow> PacketNumberSpace \<Rightarrow> SentPacket multiset" where
  "packets_in l space = mset (map snd (lss_sent_packets (ld_spaces l space)))"

definition size_of :: "SentPacket multiset \<Rightarrow> nat" where
  "size_of M = (\<Sum>p \<in># M. sp_size p)"

definition outstanding :: "LossDetection \<Rightarrow> nat" where
  "outstanding l = (\<Sum>space \<leftarrow> all_spaces. size_of (packets_in l space))"

lemma size_of_simps [simp]:
  "size_of {#} = 0" "size_of (add_mset p M) = sp_size p + size_of M" "size_of (M + N) = size_of M + size_of N"
  by (simp_all add: size_of_def)

lemma outstanding_change:
  assumes "\<And>s. s \<noteq> space \<Longrightarrow> packets_in l' s = packets_in l s"
  shows "outstanding l' + size_of (packets_in l space) = outstanding l + size_of (packets_in l' space)"
  using assms by (cases space) (simp_all add: outstanding_def all_spaces_def)

lemma size_in_le_outstanding: "size_of (packets_in l space) \<le> outstanding l"
  by (cases space) (simp_all add: outstanding_def all_spaces_def)

text \<open>The counter of the controller is the size of the tracked packets and \<open>k\<close> further bytes.\<close>

definition accounted :: "'c CongestionController \<Rightarrow> nat \<Rightarrow> 'c Recovery \<Rightarrow> bool" where
  "accounted cc k r \<longleftrightarrow> cc_bytes_in_flight cc (rc_congestion r) = outstanding (rc_loss r) + k \<and> wf_loss (rc_loss r)"

lemma mset_filter_three:
  "mset (map snd (filter P xs)) + mset (map snd (filter (\<lambda>e. \<not> P e \<and> Q e) xs)) + mset (map snd (filter (\<lambda>e. \<not> P e \<and> \<not> Q e) xs))
   = mset (map snd xs)"
  by (induction xs) auto

lemma on_ack_received_outstanding:
  assumes "on_ack_received space la d ranges now l = (l', acked, lost)" "wf_loss l"
  shows "outstanding l = outstanding l' + size_of (mset acked) + size_of (mset lost)"
proof -
  note c = on_ack_received_correct [OF assms]
  have "packets_in l space = mset acked + mset lost + packets_in l' space"
    unfolding packets_in_def c(1,2,3) by (rule mset_filter_three [symmetric])
  moreover have "outstanding l' + size_of (packets_in l space) = outstanding l + size_of (packets_in l' space)"
    using c(8) by (intro outstanding_change) (simp add: packets_in_def)
  ultimately show ?thesis by simp
qed

lemma outstanding_prune [simp]: "outstanding (prune_acknowledged_ack_eliciting_times space l) = outstanding l"
proof -
  have "lss_sent_packets (ld_spaces (prune_acknowledged_ack_eliciting_times space l) s) = lss_sent_packets (ld_spaces l s)" for s
    by (auto simp: prune_acknowledged_ack_eliciting_times_def split: option.splits)
  then show ?thesis by (simp add: outstanding_def packets_in_def)
qed

lemma mset_delete_key:
  assumes "bt_wf m" "map_of m k = Some v"
  shows "mset (map snd m) = {#v#} + mset (map snd (AList.delete k m))"
  using mset_filter_insert_key [OF assms, of "\<lambda>_. True" UNIV] by simp

lemma remove_sent_packet_outstanding:
  assumes "remove_sent_packet space pn l = (l', pkt)" "wf_loss l"
  shows "outstanding l = outstanding l' + (case pkt of Some p \<Rightarrow> sp_size p | None \<Rightarrow> 0)"
proof -
  let ?m = "lss_sent_packets (ld_spaces l space)"
  have l': "l' = upd_space space (\<lambda>s. s\<lparr>lss_sent_packets := AList.delete pn (lss_sent_packets s)\<rparr>) l" "pkt = map_of ?m pn"
    using assms(1) by (auto simp: remove_sent_packet_def)
  have wf: "bt_wf ?m" using assms(2) by (auto simp: wf_loss_def wf_space_def)
  have "packets_in l space = (case pkt of Some p \<Rightarrow> {#p#} | None \<Rightarrow> {#}) + packets_in l' space"
  proof (cases pkt)
    case None
    then have "AList.delete pn ?m = ?m" using l'(2) by (simp add: map_of_eq_None_iff)
    then show ?thesis using None by (simp add: packets_in_def l'(1))
  next
    case (Some p)
    then show ?thesis using mset_delete_key [OF wf] l' by (simp add: packets_in_def)
  qed
  moreover have "outstanding l' + size_of (packets_in l space) = outstanding l + size_of (packets_in l' space)"
    by (rule outstanding_change) (simp add: packets_in_def l'(1))
  ultimately show ?thesis by (auto split: option.splits)
qed

lemma take_sent_packets_outstanding:
  assumes "take_sent_packets space l = (l', pkts)"
  shows "outstanding l = outstanding l' + size_of (mset pkts)"
proof -
  have l': "l' = upd_space space (\<lambda>s. s\<lparr>lss_sent_packets := []\<rparr>) l" "pkts = map snd (lss_sent_packets (ld_spaces l space))"
    using assms by (auto simp: take_sent_packets_def)
  have "outstanding l' + size_of (packets_in l space) = outstanding l + size_of (packets_in l' space)"
    by (rule outstanding_change) (simp add: packets_in_def l'(1))
  then show ?thesis by (simp add: packets_in_def l')
qed

lemma on_packet_sent_outstanding:
  assumes "wf_loss l" "map_of (lss_sent_packets (ld_spaces l (sp_space pkt))) (sp_pn pkt) = None"
  shows "outstanding (ld_on_packet_sent pkt l) = outstanding l + (if sp_ack_eliciting pkt then sp_size pkt else 0)"
proof (cases "sp_ack_eliciting pkt")
  case True
  let ?m = "lss_sent_packets (ld_spaces l (sp_space pkt))"
  have "mset (bt_insert k v m) = {#(k, v)#} + mset m" if "map_of m k = None" for k :: u64 and v :: SentPacket and m
    using that by (induction k v m rule: bt_insert.induct) auto
  then have i: "mset (bt_insert (sp_pn pkt) pkt ?m) = {#(sp_pn pkt, pkt)#} + mset ?m" using assms(2) by blast
  have "packets_in (ld_on_packet_sent pkt l) (sp_space pkt) = {#pkt#} + packets_in l (sp_space pkt)"
    using True i by (simp add: packets_in_def ld_on_packet_sent_def)
  moreover have "outstanding (ld_on_packet_sent pkt l) + size_of (packets_in l (sp_space pkt)) =
      outstanding l + size_of (packets_in (ld_on_packet_sent pkt l) (sp_space pkt))"
    by (rule outstanding_change) (simp add: packets_in_def ld_on_packet_sent_def)
  ultimately show ?thesis using True by simp
qed (simp add: ld_on_packet_sent_def)

section \<open>What the loops change\<close>

lemma schedule_simps [simp]:
  "rc_loss (schedule_next_path_mtu_probe now r) = rc_loss r"
  "rc_congestion (schedule_next_path_mtu_probe now r) = rc_congestion r"
  "rc_sent_frames (schedule_next_path_mtu_probe now r) = rc_sent_frames r"
  "rc_conn (schedule_next_path_mtu_probe now r) = rc_conn r"
  by (simp_all add: schedule_next_path_mtu_probe_def)

lemma probe_success_simps [simp]:
  "rc_loss (complete_path_mtu_probe_success pn now r) = rc_loss r"
  "rc_congestion (complete_path_mtu_probe_success pn now r) = rc_congestion r"
  "rc_sent_frames (complete_path_mtu_probe_success pn now r) = rc_sent_frames r"
  "rc_conn (complete_path_mtu_probe_success pn now r) = rc_conn r"
  by (auto simp: complete_path_mtu_probe_success_def split: option.splits)

lemma forget_requeue_simps [simp]:
  "rc_loss (forget_frames space pn r) = rc_loss r" "rc_congestion (forget_frames space pn r) = rc_congestion r"
  "rc_loss (requeue space frames r) = rc_loss r" "rc_congestion (requeue space frames r) = rc_congestion r"
  "rc_sent_frames (requeue space frames r) = rc_sent_frames r" "rc_conn (forget_frames space pn r) = rc_conn r"
  by (simp_all add: forget_frames_def requeue_def)

lemma upd_space_id: "f (ld_spaces l space) = ld_spaces l space \<Longrightarrow> upd_space space f l = l"
  by (simp add: upd_space_def fun_upd_idem)

lemma drop_probe_absent:
  assumes "map_of (lss_sent_packets (ld_spaces (rc_loss r) SpApplicationData)) pn = None"
  shows "rc_loss (drop_probe pn release r) = rc_loss r" "rc_congestion (drop_probe pn release r) = rc_congestion r"
proof -
  have "AList.delete pn (lss_sent_packets (ld_spaces (rc_loss r) SpApplicationData)) =
      lss_sent_packets (ld_spaces (rc_loss r) SpApplicationData)"
    using assms by (simp add: map_of_eq_None_iff)
  then have "remove_sent_packet SpApplicationData pn (rc_loss r) = (rc_loss r, None)"
    using assms by (simp add: remove_sent_packet_def upd_space_id)
  then show "rc_loss (drop_probe pn release r) = rc_loss r" "rc_congestion (drop_probe pn release r) = rc_congestion r"
    by (simp_all add: drop_probe_def)
qed

lemma probe_failure_absent:
  assumes "map_of (lss_sent_packets (ld_spaces (rc_loss r) SpApplicationData)) pn = None"
  shows "rc_loss (complete_path_mtu_probe_failure cc pn now r) = rc_loss r"
    "rc_congestion (complete_path_mtu_probe_failure cc pn now r) = rc_congestion r"
  using drop_probe_absent [OF assms]
  by (auto simp: complete_path_mtu_probe_failure_def Let_def split: option.splits)

lemma settle_acked_loss [simp]: "rc_loss (snd (settle_acked cc space rtt now pkt s)) = rc_loss (snd s)"
  by (cases s) (simp add: settle_acked_def Let_def split: option.splits)

lemma settle_lost_loss:
  assumes "sp_space pkt = SpApplicationData \<Longrightarrow>
    map_of (lss_sent_packets (ld_spaces (rc_loss r) SpApplicationData)) (sp_pn pkt) = None"
  shows "rc_loss (settle_lost cc space now pkt r) = rc_loss r"
  using assms probe_failure_absent(1) [of "r\<lparr>rc_zero_rtt_in_flight := q\<rparr>" "sp_pn pkt" for q]
  by (simp add: settle_lost_def Let_def split: option.splits)

lemma validate_simps:
  "rc_loss (snd (validate_ack_ecn_and_count_ce space ecn acked nl r)) = rc_loss r"
  "rc_congestion (snd (validate_ack_ecn_and_count_ce space ecn acked nl r)) = rc_congestion r"
  "rc_conn (snd (validate_ack_ecn_and_count_ce space ecn acked nl r)) = rc_conn r"
  "rc_sent_frames (snd (validate_ack_ecn_and_count_ce space ecn acked nl r)) = rc_sent_frames r"
  by (auto simp: validate_ack_ecn_and_count_ce_def Let_def split: option.splits)

lemma fold_settle_acked_loss:
  "rc_loss (snd (fold (settle_acked cc space rtt now) pkts s)) = rc_loss (snd s)"
  by (induction pkts arbitrary: s) auto

lemma fold_settle_lost_loss:
  assumes "\<And>p. p \<in> set pkts \<Longrightarrow> sp_space p = SpApplicationData \<Longrightarrow>
    map_of (lss_sent_packets (ld_spaces (rc_loss r) SpApplicationData)) (sp_pn p) = None"
  shows "rc_loss (fold (settle_lost cc space now) pkts r) = rc_loss r"
  using assms by (induction pkts arbitrary: r) (auto simp: settle_lost_loss)

text \<open>A packet that was lost is no longer tracked.\<close>

lemma lost_not_tracked:
  assumes "on_ack_received space la d ranges now l = (l', acked, lost)" "wf_loss l" "p \<in> set lost"
  shows "sp_space p = space" "map_of (lss_sent_packets (ld_spaces l' space)) (sp_pn p) = None"
proof -
  let ?sent = "lss_sent_packets (ld_spaces l space)"
  note c = on_ack_received_correct [OF assms(1,2)]
  have wf: "bt_wf ?sent" "\<forall>(pn, pkt) \<in> set ?sent. sp_pn pkt = pn \<and> sp_space pkt = space"
    using assms(2) by (auto simp: wf_loss_def wf_space_def)
  have "p \<in># mset lost" using assms(3) by simp
  then obtain pn where p: "(pn, p) \<in> set ?sent" "is_lost (new_largest (lss_largest_acked (ld_spaces l space)) la) (loss_delay (ld_rtt l')) now p"
    unfolding c(2) by auto
  then show "sp_space p = space" using wf(2) by auto
  have pn: "sp_pn p = pn" using p(1) wf(2) by auto
  have "q = p" if "(pn, q) \<in> set ?sent" for q
    using that p(1) bt_wf_distinct [OF wf(1)] by (metis map_of_eq_Some_iff option.inject)
  then show "map_of (lss_sent_packets (ld_spaces l' space)) (sp_pn p) = None"
    unfolding c(3) map_of_eq_None_iff pn using p(2) by fastforce
qed

context congestion_controller
begin

lemmas step_in_flight =
  in_flight [of "CcAck b rt s t" c, simplified] in_flight [of "CcLoss b s t" c, simplified]
  in_flight [of "CcEcnCe b s t" c, simplified] in_flight [of "CcDiscarded b" c, simplified]
  in_flight [of "CcSent b t" c, simplified] in_flight [of CcPersistent c, simplified] for b rt s t c

lemma settle_acked_in_flight:
  "cc_bytes_in_flight cc (rc_congestion (snd (settle_acked cc space rtt now pkt s))) =
     cc_bytes_in_flight cc (rc_congestion (snd s)) - sp_size pkt"
  by (cases s) (simp add: settle_acked_def Let_def step_in_flight split: option.splits)

lemma fold_settle_acked_in_flight:
  "cc_bytes_in_flight cc (rc_congestion (snd (fold (settle_acked cc space rtt now) pkts s))) =
     cc_bytes_in_flight cc (rc_congestion (snd s)) - size_of (mset pkts)"
  by (induction pkts arbitrary: s) (simp_all add: settle_acked_in_flight)

lemma settle_lost_in_flight:
  assumes "sp_space pkt = SpApplicationData \<Longrightarrow>
    map_of (lss_sent_packets (ld_spaces (rc_loss r) SpApplicationData)) (sp_pn pkt) = None"
  shows "cc_bytes_in_flight cc (rc_congestion (settle_lost cc space now pkt r)) =
    cc_bytes_in_flight cc (rc_congestion r) - sp_size pkt"
  using assms probe_failure_absent(2) [of "r\<lparr>rc_zero_rtt_in_flight := q\<rparr>" "sp_pn pkt" for q]
  by (simp add: settle_lost_def Let_def step_in_flight split: option.splits)

lemma fold_settle_lost_in_flight:
  assumes "\<And>p. p \<in> set pkts \<Longrightarrow> sp_space p = SpApplicationData \<Longrightarrow>
    map_of (lss_sent_packets (ld_spaces (rc_loss r) SpApplicationData)) (sp_pn p) = None"
  shows "cc_bytes_in_flight cc (rc_congestion (fold (settle_lost cc space now) pkts r)) =
    cc_bytes_in_flight cc (rc_congestion r) - size_of (mset pkts)"
  using assms by (induction pkts arbitrary: r) (auto simp: settle_lost_in_flight settle_lost_loss)

lemma process_ack_accounted:
  assumes "accounted cc k r"
  shows "accounted cc k (process_ack_frame cc space ack now r)"
proof -
  define ranges delay where "ranges = map (\<lambda>x. (ar_start x, ar_end x)) (ack_ranges ack)"
    and "delay = from_micros (scaled_ack_delay (rc_peer_ack_delay_exponent r) (ack_delay ack))"
  obtain l acked lost where a: "on_ack_received space (largest_acknowledged ack) delay ranges now (rc_loss r) = (l, acked, lost)"
    by (metis prod_cases3)
  define l1 where "l1 = prune_acknowledged_ack_eliciting_times space l"
  define nl where "nl = (case ld_largest_acked (rc_loss r) space of Some previous \<Rightarrow> largest_acknowledged ack > previous | None \<Rightarrow> True)"
  obtain n r1 where v: "validate_ack_ecn_and_count_ce space (ack_ecn ack) acked nl (r\<lparr>rc_loss := l1\<rparr>) = (n, r1)" by fastforce
  obtain n' r2 where f: "fold (settle_acked cc space (latest_rtt (ld_rtt l1)) now) acked (n, r1) = (n', r2)" by fastforce
  define r3 where "r3 = fold (settle_lost cc space now) lost r2"
  have res: "process_ack_frame cc space ack now r =
      (if detects_persistent_congestion space acked lost l then r3\<lparr>rc_congestion := cc_on_persistent_congestion cc (rc_congestion r3)\<rparr> else r3)"
    unfolding process_ack_frame_def Let_def ranges_def [symmetric] delay_def [symmetric] a prod.case
      l1_def [symmetric] nl_def [symmetric] v f r3_def [symmetric] by simp
  have wf: "wf_loss (rc_loss r)" and b: "cc_bytes_in_flight cc (rc_congestion r) = outstanding (rc_loss r) + k"
    using assms by (auto simp: accounted_def)
  have r1: "rc_loss r1 = l1" "rc_congestion r1 = rc_congestion r"
    using validate_simps(1,2) [of space "ack_ecn ack" acked nl "r\<lparr>rc_loss := l1\<rparr>"] v by simp_all
  have r2: "rc_loss r2 = l1" "cc_bytes_in_flight cc (rc_congestion r2) = cc_bytes_in_flight cc (rc_congestion r) - size_of (mset acked)"
    using fold_settle_acked_loss [of cc space "latest_rtt (ld_rtt l1)" now acked "(n, r1)"]
      fold_settle_acked_in_flight [of space "latest_rtt (ld_rtt l1)" now acked "(n, r1)"] f r1 by simp_all
  have nt: "map_of (lss_sent_packets (ld_spaces (rc_loss r2) SpApplicationData)) (sp_pn p) = None"
    if "p \<in> set lost" "sp_space p = SpApplicationData" for p
    using lost_not_tracked [OF a wf that(1)] that(2)
    by (auto simp: r2(1) l1_def prune_acknowledged_ack_eliciting_times_def split: option.splits)
  have r3: "rc_loss r3 = l1" "cc_bytes_in_flight cc (rc_congestion r3) = cc_bytes_in_flight cc (rc_congestion r2) - size_of (mset lost)"
    using fold_settle_lost_loss [of lost r2] fold_settle_lost_in_flight [of lost r2] nt by (simp_all add: r3_def r2(1))
  have "outstanding (rc_loss r) = outstanding l1 + size_of (mset acked) + size_of (mset lost)"
    using on_ack_received_outstanding [OF a wf] by (simp add: l1_def)
  then have "cc_bytes_in_flight cc (rc_congestion r3) = outstanding l1 + k" using b r2(2) r3(2) by simp
  moreover have "wf_loss l1" using on_ack_received_correct(9) [OF a wf] by (simp add: l1_def wf_loss_prune)
  ultimately show ?thesis using r3(1) by (simp add: res accounted_def step_in_flight)
qed

end

section \<open>The other operations\<close>

lemma accounted_cong:
  "rc_loss r' = rc_loss r \<Longrightarrow> rc_congestion r' = rc_congestion r \<Longrightarrow> accounted cc k r' = accounted cc k r"
  by (simp add: accounted_def)

text \<open>A packet that is counted by the controller but not tracked by loss detection.\<close>

definition untracked_bytes :: "BuiltPacket \<Rightarrow> nat" where
  "untracked_bytes p =
     (if bp_congestion_controlled p \<and> \<not> (bp_track_retransmission p \<and> bp_ack_eliciting p) then length (bp_bytes p) else 0)"

text \<open>Packets are numbered afresh, and a packet that is tracked is also counted: only packets holding nothing
  but CONNECTION_CLOSE frames are not, and these are sent without tracking.\<close>

definition fresh_packet :: "'c Recovery \<Rightarrow> BuiltPacket \<Rightarrow> bool" where
  "fresh_packet r p \<longleftrightarrow> map_of (lss_sent_packets (ld_spaces (rc_loss r) (bp_space p))) (bp_pn p) = None \<and>
     (bp_track_retransmission p \<and> bp_ack_eliciting p \<longrightarrow> bp_congestion_controlled p)"

lemma outstanding_new: "outstanding loss_detection_new = 0"
  by (simp add: outstanding_def all_spaces_def packets_in_def loss_detection_new_def space_state_new_def)

context congestion_controller
begin

lemma record_built_packet_accounted:
  assumes "accounted cc k r" "fresh_packet r p"
  shows "accounted cc (k + untracked_bytes p) (record_built_packet cc ecn now p r)"
proof -
  let ?sp = "\<lparr>sp_pn = bp_pn p, sp_space = bp_space p, sp_time_sent = now, sp_size = length (bp_bytes p),
    sp_ack_eliciting = bp_ack_eliciting p, sp_ecn_marking = ecn\<rparr>"
  have "outstanding (ld_on_packet_sent ?sp (rc_loss r)) =
      outstanding (rc_loss r) + (if bp_ack_eliciting p then length (bp_bytes p) else 0)"
    using assms on_packet_sent_outstanding [of "rc_loss r" ?sp] by (simp add: accounted_def fresh_packet_def)
  moreover have "wf_loss (ld_on_packet_sent ?sp (rc_loss r))" using assms(1) by (simp add: accounted_def wf_loss_on_packet_sent)
  ultimately show ?thesis
    using assms by (auto simp: record_built_packet_def accounted_def fresh_packet_def untracked_bytes_def Let_def step_in_flight)
qed

lemma drop_probe_accounted:
  assumes "accounted cc k r"
    and "\<And>p c. cc_bytes_in_flight cc (release p c) = cc_bytes_in_flight cc c - sp_size p"
  shows "accounted cc k (drop_probe pn release r)"
proof -
  obtain l pkt where r: "remove_sent_packet SpApplicationData pn (rc_loss r) = (l, pkt)" by fastforce
  have "wf_loss l" using assms(1) r wf_loss_remove [of "rc_loss r" SpApplicationData pn] by (simp add: accounted_def)
  then show ?thesis
    using assms r remove_sent_packet_outstanding [OF r]
    by (auto simp: drop_probe_def accounted_def Let_def split: option.splits)
qed

lemma probe_failure_accounted:
  assumes "accounted cc k r" shows "accounted cc k (complete_path_mtu_probe_failure cc pn now r)"
proof -
  have "accounted cc k (drop_probe pn (\<lambda>p. cc_on_loss cc (sp_size p) (sp_time_sent p) now) r)"
    using assms by (intro drop_probe_accounted) (simp_all add: step_in_flight)
  then show ?thesis
    using assms by (auto simp: complete_path_mtu_probe_failure_def Let_def accounted_def split: option.splits)
qed

lemma abandon_probe_accounted: "accounted cc k r \<Longrightarrow> accounted cc k (abandon_path_mtu_probe cc pn r)"
  by (auto simp: abandon_path_mtu_probe_def step_in_flight intro!: drop_probe_accounted split: option.splits)

lemma probe_timeout_accounted: "accounted cc k r \<Longrightarrow> accounted cc k (handle_path_mtu_probe_timeout cc now r)"
  by (auto simp: handle_path_mtu_probe_timeout_def probe_failure_accounted split: option.splits)

lemma requeue_zero_rtt_accounted:
  assumes "accounted cc k r" shows "accounted cc k (requeue_zero_rtt cc pn r)"
proof -
  obtain l pkt where r: "remove_sent_packet SpApplicationData pn (rc_loss r) = (l, pkt)" by fastforce
  have "wf_loss l" using assms r wf_loss_remove [of "rc_loss r" SpApplicationData pn] by (simp add: accounted_def)
  then show ?thesis
    using assms r remove_sent_packet_outstanding [OF r]
    by (auto simp: requeue_zero_rtt_def accounted_def Let_def step_in_flight split: option.splits)
qed

lemma requeue_zero_rtt_in_flight_accounted:
  "accounted cc k r \<Longrightarrow> accounted cc k (requeue_zero_rtt_in_flight cc r)"
proof -
  have "accounted cc k r \<Longrightarrow> accounted cc k (fold (requeue_zero_rtt cc) pns r)" for pns
    by (induction pns arbitrary: r) (auto simp: requeue_zero_rtt_accounted)
  then show "accounted cc k r \<Longrightarrow> ?thesis" by (simp add: requeue_zero_rtt_in_flight_def)
qed

lemma discard_packets_accounted:
  assumes "accounted cc k r" shows "accounted cc k (discard_packets cc space r)"
proof -
  obtain l pkts where t: "take_sent_packets space (rc_loss r) = (l, pkts)" by fastforce
  have "cc_bytes_in_flight cc (fold (\<lambda>p. cc_on_packet_discarded cc (sp_size p)) pkts c) =
      cc_bytes_in_flight cc c - size_of (mset pkts)" for c
    by (induction pkts arbitrary: c) (simp_all add: step_in_flight)
  moreover have "wf_loss l" using assms t wf_loss_take [of "rc_loss r" space] by (simp add: accounted_def)
  ultimately show ?thesis
    using assms take_sent_packets_outstanding [OF t] by (simp add: discard_packets_def accounted_def t)
qed

lemma discard_space_accounted: "accounted cc k r \<Longrightarrow> accounted cc k (discard_space_recovery cc space r)"
  using discard_packets_accounted [of k r space] by (simp add: discard_space_recovery_def accounted_def)

lemma reset_path_accounted: "accounted cc 0 (reset_path_recovery_after_validation cc now r)"
proof -
  have "outstanding (set_max_ack_delay d l) = outstanding l"
    "wf_loss l \<Longrightarrow> wf_loss (set_max_ack_delay d l)" for d l
    by (simp_all add: outstanding_def packets_in_def set_max_ack_delay_def wf_loss_def)
  then show ?thesis
    by (simp add: reset_path_recovery_after_validation_def accounted_def Let_def new_idle wf_loss_new outstanding_new)
qed

lemma pto_probes_accounted: "accounted cc k r \<Longrightarrow> accounted cc k (snd (queue_pto_probes_if_due has_keys now r))"
proof -
  have "outstanding (on_pto_timeout l) = outstanding l" for l by (simp add: outstanding_def packets_in_def on_pto_timeout_def)
  then show "accounted cc k r \<Longrightarrow> ?thesis"
    by (auto simp: queue_pto_probes_if_due_def accounted_def Let_def wf_loss_timeout split: option.splits)
qed

end

section \<open>The recovery machine\<close>

text \<open>The calls a connection makes on its recovery state, in any order.\<close>

inductive recovery_step :: "'c CongestionController \<Rightarrow> 'c Recovery \<Rightarrow> 'c Recovery \<Rightarrow> bool" for cc where
  Acked: "recovery_step cc r (process_ack_frame cc space ack now r)"
| Sent: "fresh_packet r p \<Longrightarrow> recovery_step cc r (record_built_packet cc ecn now p r)"
| ProbeTimeout: "recovery_step cc r (handle_path_mtu_probe_timeout cc now r)"
| ProbeAbandoned: "recovery_step cc r (abandon_path_mtu_probe cc pn r)"
| EarlyDataRejected: "recovery_step cc r (requeue_zero_rtt_in_flight cc r)"
| KeysDiscarded: "recovery_step cc r (discard_space_recovery cc space r)"
| PathValidated: "recovery_step cc r (reset_path_recovery_after_validation cc now r)"
| ProbesQueued: "recovery_step cc r (snd (queue_pto_probes_if_due has_keys now r))"

inductive_cases recovery_stepE: "recovery_step cc r r'"

context congestion_controller
begin

lemma recovery_step_accounted:
  "recovery_step cc r r' \<Longrightarrow> accounted cc k r \<Longrightarrow> \<exists>k'. accounted cc k' r'"
  by (elim recovery_stepE)
    (blast intro: process_ack_accounted record_built_packet_accounted probe_timeout_accounted abandon_probe_accounted
      requeue_zero_rtt_in_flight_accounted discard_space_accounted reset_path_accounted pto_probes_accounted)+

lemma reachable_accounted:
  "(recovery_step cc)\<^sup>*\<^sup>* r r' \<Longrightarrow> accounted cc k r \<Longrightarrow> \<exists>k'. accounted cc k' r'"
  by (induction rule: rtranclp_induct) (use recovery_step_accounted in blast)+

end

section \<open>Retransmission\<close>

definition frames_of :: "(u64, Frame list) BTreeMap \<Rightarrow> SentPacket \<Rightarrow> Frame list" where
  "frames_of sf p = (case map_of sf (sp_pn p) of Some frames \<Rightarrow> frames | None \<Rightarrow> [])"

definition requeued :: "PacketNumberSpace \<Rightarrow> (u64, Frame list) BTreeMap \<Rightarrow> SentPacket list \<Rightarrow> (PacketNumberSpace \<times> Frame) list" where
  "requeued space sf pkts = concat (map (\<lambda>p. map (Pair space) (filter is_retransmittable (frames_of sf p))) pkts)"

text \<open>The packet of the MTU probe in flight holds nothing worth sending again.\<close>

definition probe_expendable :: "'c Recovery \<Rightarrow> bool" where
  "probe_expendable r = (case in_flight_probe (rc_path_mtu r) of
     None \<Rightarrow> True
   | Some probe \<Rightarrow> (case map_of (rc_sent_frames r SpApplicationData) (probe_pn probe) of
       None \<Rightarrow> True | Some frames \<Rightarrow> \<not> list_ex is_retransmittable frames))"

lemma cs_pending_acknowledge [simp]: "cs_pending_frames (acknowledge_frame f c) = cs_pending_frames c"
  by (cases f) (auto simp: acknowledge_stream_frame_def put_stream_def Let_def split: option.splits)

lemma cs_pending_fold_acknowledge: "cs_pending_frames (fold acknowledge_frame fs c) = cs_pending_frames c"
  by (induction fs arbitrary: c) auto

lemma pending_requeue:
  "cs_pending_frames (rc_conn (requeue space frames r)) =
     cs_pending_frames (rc_conn r) @ map (Pair space) (filter is_retransmittable frames)"
proof -
  have "cs_pending_frames (fold (push_pending space) fs c) = cs_pending_frames c @ map (Pair space) fs" for fs c
    by (induction fs arbitrary: c) (auto simp: push_pending_def)
  then show ?thesis by (simp add: requeue_def)
qed

lemma rc_sent_frames_forget [simp]:
  "rc_sent_frames (forget_frames space pn r) = (rc_sent_frames r)(space := AList.delete pn (rc_sent_frames r space))"
  "rc_path_mtu (forget_frames space pn r) = rc_path_mtu r"
  by (simp_all add: forget_frames_def)

lemma rc_path_mtu_requeue [simp]: "rc_path_mtu (requeue space fs r) = rc_path_mtu r"
  by (simp add: requeue_def)

lemma probe_expendable_shrink:
  assumes "probe_expendable r"
    and "in_flight_probe (rc_path_mtu r') = in_flight_probe (rc_path_mtu r) \<or> in_flight_probe (rc_path_mtu r') = None"
    and "\<And>pn. map_of (rc_sent_frames r' SpApplicationData) pn = map_of (rc_sent_frames r SpApplicationData) pn \<or>
      map_of (rc_sent_frames r' SpApplicationData) pn = None"
  shows "probe_expendable r'"
  using assms(2)
proof
  assume same: "in_flight_probe (rc_path_mtu r') = in_flight_probe (rc_path_mtu r)"
  then show ?thesis
  proof (cases "in_flight_probe (rc_path_mtu r)")
    case (Some probe)
    then show ?thesis using assms(1) assms(3) [of "probe_pn probe"] same
      by (auto simp: probe_expendable_def split: option.splits)
  qed (simp add: probe_expendable_def)
qed (simp add: probe_expendable_def)

lemma settle_acked_effect:
  fixes cc space rtt now pkt s
  defines "r' \<equiv> snd (settle_acked cc space rtt now pkt s)"
  shows "cs_pending_frames (rc_conn r') = cs_pending_frames (rc_conn (snd s))"
    and "\<And>sp pn. map_of (rc_sent_frames r' sp) pn =
      (if sp = space \<and> pn = sp_pn pkt then None else map_of (rc_sent_frames (snd s) sp) pn)"
    and "in_flight_probe (rc_path_mtu r') = in_flight_probe (rc_path_mtu (snd s)) \<or> in_flight_probe (rc_path_mtu r') = None"
proof -
  obtain n r where s: "s = (n, r)" by fastforce
  show "cs_pending_frames (rc_conn r') = cs_pending_frames (rc_conn (snd s))"
    by (simp add: r'_def s settle_acked_def Let_def cs_pending_fold_acknowledge split: option.splits)
  show "map_of (rc_sent_frames r' sp) pn =
      (if sp = space \<and> pn = sp_pn pkt then None else map_of (rc_sent_frames (snd s) sp) pn)" for sp pn
    by (cases "map_of (rc_sent_frames r space) (sp_pn pkt)")
      (simp_all add: r'_def s settle_acked_def Let_def delete_conv')
  have "in_flight_probe (rc_path_mtu (complete_path_mtu_probe_success pn now q)) \<in> {in_flight_probe (rc_path_mtu q), None}"
    for pn and q :: "'a Recovery"
    by (auto simp: complete_path_mtu_probe_success_def schedule_next_path_mtu_probe_def split: option.splits)
  from this [of "sp_pn pkt" "r\<lparr>rc_zero_rtt_in_flight := removeAll (sp_pn pkt) (rc_zero_rtt_in_flight r)\<rparr>"]
  show "in_flight_probe (rc_path_mtu r') = in_flight_probe (rc_path_mtu (snd s)) \<or> in_flight_probe (rc_path_mtu r') = None"
    by (cases "map_of (rc_sent_frames r space) (sp_pn pkt)")
      (simp_all add: r'_def s settle_acked_def Let_def)
qed

lemma fold_settle_acked_effect:
  fixes cc space rtt now pkts s
  defines "r' \<equiv> snd (fold (settle_acked cc space rtt now) pkts s)"
  shows "cs_pending_frames (rc_conn r') = cs_pending_frames (rc_conn (snd s)) \<and>
    (\<forall>sp pn. map_of (rc_sent_frames r' sp) pn =
      (if sp = space \<and> pn \<in> sp_pn ` set pkts then None else map_of (rc_sent_frames (snd s) sp) pn)) \<and>
    (in_flight_probe (rc_path_mtu r') = in_flight_probe (rc_path_mtu (snd s)) \<or> in_flight_probe (rc_path_mtu r') = None)"
  unfolding r'_def
proof (induction pkts arbitrary: s)
  case (Cons p pkts)
  note e = settle_acked_effect [of cc space rtt now p s] and IH = Cons [of "settle_acked cc space rtt now p s"]
  show ?case unfolding fold_Cons comp_apply using IH e by (simp split: if_splits) metis
qed simp

lemma probe_failure_other:
  "\<not> probe_pn_is pn r \<Longrightarrow> complete_path_mtu_probe_failure cc pn now r = r"
  by (auto simp: complete_path_mtu_probe_failure_def probe_pn_is_def split: option.splits)

lemma probe_failure_frames:
  assumes "probe_pn_is pn r"
  shows "rc_sent_frames (complete_path_mtu_probe_failure cc pn now r) =
      (rc_sent_frames r)(SpApplicationData := AList.delete pn (rc_sent_frames r SpApplicationData))"
    "rc_conn (complete_path_mtu_probe_failure cc pn now r) = rc_conn r"
    "in_flight_probe (rc_path_mtu (complete_path_mtu_probe_failure cc pn now r)) = None"
  using assms
  by (auto simp: probe_pn_is_def complete_path_mtu_probe_failure_def drop_probe_def Let_def schedule_next_path_mtu_probe_def
      split: option.splits prod.splits)

lemma settle_lost_probe:
  fixes cc now p r
  assumes "probe_expendable r" "sp_space p = SpApplicationData" "probe_pn_is (sp_pn p) r"
  defines "r' \<equiv> settle_lost cc SpApplicationData now p r"
  shows "cs_pending_frames (rc_conn r') = cs_pending_frames (rc_conn r) @ requeued SpApplicationData (rc_sent_frames r SpApplicationData) [p]"
    and "\<And>pn. map_of (rc_sent_frames r' SpApplicationData) pn =
      (if pn = sp_pn p then None else map_of (rc_sent_frames r SpApplicationData) pn)"
    and "probe_expendable r'"
proof -
  let ?r1 = "r\<lparr>rc_zero_rtt_in_flight := removeAll (sp_pn p) (rc_zero_rtt_in_flight r)\<rparr>"
  have p1: "probe_pn_is (sp_pn p) ?r1" using assms(3) by (simp add: probe_pn_is_def)
  note f = probe_failure_frames [OF p1, of cc now]
  have "map_of (rc_sent_frames (complete_path_mtu_probe_failure cc (sp_pn p) now ?r1) SpApplicationData) (sp_pn p) = None"
    unfolding f by (simp add: delete_conv')
  then have r': "r' = (complete_path_mtu_probe_failure cc (sp_pn p) now ?r1)\<lparr>rc_congestion :=
      cc_on_loss cc (sp_size p) (sp_time_sent p) now (rc_congestion (complete_path_mtu_probe_failure cc (sp_pn p) now ?r1))\<rparr>"
    using assms(2) by (simp add: r'_def settle_lost_def Let_def)
  have "requeued SpApplicationData (rc_sent_frames r SpApplicationData) [p] = []"
    using assms(1,3) by (auto simp: requeued_def frames_of_def probe_expendable_def probe_pn_is_def list_ex_iff filter_empty_conv
        split: option.splits)
  then show "cs_pending_frames (rc_conn r') = cs_pending_frames (rc_conn r) @ requeued SpApplicationData (rc_sent_frames r SpApplicationData) [p]"
    by (simp add: r' f)
  show "map_of (rc_sent_frames r' SpApplicationData) pn =
      (if pn = sp_pn p then None else map_of (rc_sent_frames r SpApplicationData) pn)" for pn
    by (simp add: r' f delete_conv')
  show "probe_expendable r'" by (simp add: r' f probe_expendable_def)
qed

lemma settle_lost_effect:
  fixes cc space now p r
  assumes "probe_expendable r" "sp_space p = space"
  defines "r' \<equiv> settle_lost cc space now p r"
  shows "cs_pending_frames (rc_conn r') = cs_pending_frames (rc_conn r) @ requeued space (rc_sent_frames r space) [p] \<and>
    (\<forall>pn. map_of (rc_sent_frames r' space) pn = (if pn = sp_pn p then None else map_of (rc_sent_frames r space) pn)) \<and>
    probe_expendable r'"
proof (cases "space = SpApplicationData \<and> probe_pn_is (sp_pn p) r")
  case True
  then show ?thesis using settle_lost_probe [OF assms(1), of p cc now] assms(2) by (simp add: r'_def)
next
  case False
  let ?r1 = "r\<lparr>rc_zero_rtt_in_flight := removeAll (sp_pn p) (rc_zero_rtt_in_flight r)\<rparr>"
  let ?r2 = "?r1\<lparr>rc_congestion := cc_on_loss cc (sp_size p) (sp_time_sent p) now (rc_congestion r)\<rparr>"
  have "complete_path_mtu_probe_failure cc (sp_pn p) now ?r1 = ?r1" if "space = SpApplicationData"
    using False that by (intro probe_failure_other) (simp add: probe_pn_is_def)
  then have r': "r' = (case map_of (rc_sent_frames r space) (sp_pn p) of
      Some frames \<Rightarrow> requeue space frames (forget_frames space (sp_pn p) ?r2) | None \<Rightarrow> ?r2)"
    using assms(2) by (auto simp: r'_def settle_lost_def Let_def split: option.splits)
  have pe: "probe_expendable r'"
    by (rule probe_expendable_shrink [OF assms(1)])
      (auto simp: r' delete_conv' split: option.splits)
  show ?thesis
    using pe by (cases "map_of (rc_sent_frames r space) (sp_pn p)")
      (auto simp: r' pending_requeue requeued_def frames_of_def delete_conv')
qed

lemma fold_settle_lost_effect:
  assumes "probe_expendable r" "\<And>p. p \<in> set pkts \<Longrightarrow> sp_space p = space" "distinct (map sp_pn pkts)"
  shows "cs_pending_frames (rc_conn (fold (settle_lost cc space now) pkts r)) =
    cs_pending_frames (rc_conn r) @ requeued space (rc_sent_frames r space) pkts"
  using assms
proof (induction pkts arbitrary: r)
  case (Cons p pkts)
  note e = settle_lost_effect [OF Cons.prems(1) Cons.prems(2), of p cc now]
  have "cs_pending_frames (rc_conn (fold (settle_lost cc space now) pkts (settle_lost cc space now p r))) =
      cs_pending_frames (rc_conn (settle_lost cc space now p r)) @
        requeued space (rc_sent_frames (settle_lost cc space now p r) space) pkts"
    using Cons.prems e by (intro Cons.IH) auto
  moreover have "requeued space (rc_sent_frames (settle_lost cc space now p r) space) pkts = requeued space (rc_sent_frames r space) pkts"
  proof -
    have "sp_pn x \<noteq> sp_pn p" if "x \<in> set pkts" for x using Cons.prems(3) that by (metis distinct.simps(2) image_eqI list.set_map list.simps(9))
    then have "map_of (rc_sent_frames (settle_lost cc space now p r) space) (sp_pn x) = map_of (rc_sent_frames r space) (sp_pn x)"
      if "x \<in> set pkts" for x using e that by simp
    then show ?thesis by (simp add: requeued_def frames_of_def cong: map_cong)
  qed
  ultimately show ?case using e by (simp add: requeued_def)
qed (simp add: requeued_def)

definition recovery_new :: "ConnStreams \<Rightarrow> 'c \<Rightarrow> 'c Recovery" where
  "recovery_new conn c = \<lparr>rc_conn = conn, rc_loss = loss_detection_new, rc_congestion = c, rc_sent_frames = (\<lambda>_. []),
     rc_zero_rtt_in_flight = [], rc_peer_ack_ecn_counts = (\<lambda>_. None), rc_sent_ecn_counts = (\<lambda>_. ecn_default),
     rc_outbound_ecn_enabled = True, rc_peer_ack_delay_exponent = 3,
     rc_peer_max_ack_delay = from_millis (unat DEFAULT_MAX_ACK_DELAY_MS),
     rc_max_send_udp_payload_size = MAX_DATAGRAM_SIZE, rc_path_mtu = path_mtu_new, rc_next_paced_send_time = None,
     rc_one_rtt_packets_sent_with_current_keys = 0\<rparr>"

lemma recovery_new_accounted: "cc_bytes_in_flight cc c = 0 \<Longrightarrow> accounted cc 0 (recovery_new conn c)"
  by (simp add: recovery_new_def accounted_def wf_loss_new outstanding_new)

lemma distinct_mset_mono:
  assumes "mset xs \<subseteq># mset ys" "distinct ys" shows "distinct xs"
proof -
  obtain zs where "mset ys = mset (xs @ zs)" using assms(1) by (metis mset_subset_eq_exists_conv ex_mset mset_append)
  then show ?thesis using assms(2) by (metis distinct_append mset_eq_imp_distinct_iff)
qed

lemma process_ack_requeues:
  assumes "wf_loss (rc_loss r)" "probe_expendable r"
    and "on_ack_received space (largest_acknowledged ack)
      (from_micros (scaled_ack_delay (rc_peer_ack_delay_exponent r) (ack_delay ack)))
      (map (\<lambda>x. (ar_start x, ar_end x)) (ack_ranges ack)) now (rc_loss r) = (l, acked, lost)"
  shows "cs_pending_frames (rc_conn (process_ack_frame cc space ack now r)) =
    cs_pending_frames (rc_conn r) @ requeued space (rc_sent_frames r space) lost"
proof -
  define l1 where "l1 = prune_acknowledged_ack_eliciting_times space l"
  define nl where "nl = (case ld_largest_acked (rc_loss r) space of Some previous \<Rightarrow> largest_acknowledged ack > previous | None \<Rightarrow> True)"
  obtain n r1 where v: "validate_ack_ecn_and_count_ce space (ack_ecn ack) acked nl (r\<lparr>rc_loss := l1\<rparr>) = (n, r1)" by fastforce
  obtain n' r2 where f: "fold (settle_acked cc space (latest_rtt (ld_rtt l1)) now) acked (n, r1) = (n', r2)" by fastforce
  have res: "rc_conn (process_ack_frame cc space ack now r) = rc_conn (fold (settle_lost cc space now) lost r2)"
    unfolding process_ack_frame_def Let_def assms(3) prod.case l1_def [symmetric] nl_def [symmetric] v f by simp
  let ?sent = "lss_sent_packets (ld_spaces (rc_loss r) space)"
  have wf: "bt_wf ?sent" "\<forall>(pn, pkt) \<in> set ?sent. sp_pn pkt = pn"
    using assms(1) by (auto simp: wf_loss_def wf_space_def)
  have pn: "map sp_pn (map snd ?sent) = map fst ?sent" using wf(2) by auto
  have "mset (map sp_pn (acked @ lost)) \<subseteq># mset (map fst ?sent)"
  proof -
    note c = on_ack_received_correct(1-3) [OF assms(3,1)]
    have "mset (acked @ lost) \<subseteq># mset (map snd ?sent)"
      unfolding mset_append c(1,2) mset_filter_three [of "\<lambda>e. in_ranges (map (\<lambda>x. (ar_start x, ar_end x)) (ack_ranges ack)) (fst e)" ?sent
          "\<lambda>e. is_lost (new_largest (lss_largest_acked (ld_spaces (rc_loss r) space)) (largest_acknowledged ack)) (loss_delay (ld_rtt l)) now (snd e)", symmetric]
      by (rule mset_subset_eq_add_left)
    then show ?thesis unfolding pn [symmetric] mset_map by (rule image_mset_subseteq_mono)
  qed
  then have "distinct (map sp_pn (acked @ lost))"
    by (rule distinct_mset_mono [OF _ bt_wf_distinct [OF wf(1)]])
  then have d: "distinct (map sp_pn lost)" "sp_pn ` set acked \<inter> sp_pn ` set lost = {}" by auto
  have v': "rc_conn r1 = rc_conn r" "rc_sent_frames r1 = rc_sent_frames r" "rc_path_mtu r1 = rc_path_mtu r"
    using validate_simps(3,4) [of space "ack_ecn ack" acked nl "r\<lparr>rc_loss := l1\<rparr>"] v
    by (auto simp: validate_ack_ecn_and_count_ce_def Let_def split: option.splits if_splits)
  note fe = fold_settle_acked_effect [of cc space "latest_rtt (ld_rtt l1)" now acked "(n, r1)", unfolded f snd_conv v']
  have "probe_expendable r2" by (rule probe_expendable_shrink [OF assms(2)]) (use fe in auto)
  then have "cs_pending_frames (rc_conn (fold (settle_lost cc space now) lost r2)) =
      cs_pending_frames (rc_conn r2) @ requeued space (rc_sent_frames r2 space) lost"
    using lost_not_tracked(1) [OF assms(3,1)] d(1) by (intro fold_settle_lost_effect) auto
  moreover have "frames_of (rc_sent_frames r2 space) p = frames_of (rc_sent_frames r space) p" if "p \<in> set lost" for p
    using fe d(2) that by (auto simp: frames_of_def)
  then have "requeued space (rc_sent_frames r2 space) lost = requeued space (rc_sent_frames r space) lost"
    by (simp add: requeued_def cong: map_cong)
  ultimately show ?thesis using fe res by simp
qed

section \<open>The path MTU search\<close>

text \<open>One round of the search on a path that carries datagrams of up to \<open>path\<close> bytes: the probe is sent
  (\<open>send_path_mtu_probe\<close>) and acknowledged or lost.\<close>

definition mtu_round :: "'c CongestionController \<Rightarrow> nat \<Rightarrow> u64 \<Rightarrow> Instant \<Rightarrow> 'c Recovery \<Rightarrow> 'c Recovery" where
  "mtu_round cc path pn now r =
     (case next_path_mtu_probe_size r of
        None \<Rightarrow> r
      | Some n \<Rightarrow>
          let r = r\<lparr>rc_path_mtu := (rc_path_mtu r)\<lparr>in_flight_probe := Some \<lparr>probe_pn = pn, probe_size = n, probe_sent_at = now\<rparr>,
                  next_probe_at := None\<rparr>\<rparr>
          in if n \<le> path then complete_path_mtu_probe_success pn now r else complete_path_mtu_probe_failure cc pn now r)"

lemma probe_size_between_Some:
  "probe_size_between c L = Some n \<Longrightarrow> c < n \<and> n \<le> L"
  by (auto simp: probe_size_between_def Let_def split: if_splits)

lemma probe_size_between_None: "0 < c \<Longrightarrow> probe_size_between c L = None \<longleftrightarrow> L \<le> c"
  by (auto simp: probe_size_between_def Let_def split: if_splits)

lemma mtu_round_Some:
  assumes "next_path_mtu_probe_size r = Some n"
  shows "rc_max_send_udp_payload_size (mtu_round cc path pn now r) =
      (if n \<le> path then n else rc_max_send_udp_payload_size r)"
    "search_limit (rc_path_mtu (mtu_round cc path pn now r)) =
      (if n \<le> path then search_limit (rc_path_mtu r) else min (search_limit (rc_path_mtu r)) (n - 1))"
  using assms
  by (simp_all add: mtu_round_def complete_path_mtu_probe_success_def complete_path_mtu_probe_failure_def drop_probe_def
      schedule_next_path_mtu_probe_def forget_frames_def search_limit_def Let_def min.assoc split: prod.splits)

lemma mtu_round_step:
  fixes r path cc pn now
  defines "c \<equiv> rc_max_send_udp_payload_size r" and "L \<equiv> search_limit (rc_path_mtu r)"
    and "c' \<equiv> rc_max_send_udp_payload_size (mtu_round cc path pn now r)"
    and "L' \<equiv> search_limit (rc_path_mtu (mtu_round cc path pn now r))"
  assumes "0 < c" "c \<le> L" "c \<le> path"
  shows "0 < c' \<and> c' \<le> L' \<and> c' \<le> path \<and> min path L' = min path L \<and> (c < L \<longrightarrow> L' - c' < L - c) \<and> (c = L \<longrightarrow> L' = c')"
proof (cases "next_path_mtu_probe_size r")
  case None
  then have "L \<le> c" using probe_size_between_None assms(5) by (simp add: next_path_mtu_probe_size_def c_def L_def)
  moreover have "c' = c" "L' = L" using None by (simp_all add: c'_def L'_def c_def L_def mtu_round_def)
  ultimately show ?thesis using assms(5-7) by simp
next
  case (Some n)
  have n: "c < n" "n \<le> L" using probe_size_between_Some Some by (auto simp: next_path_mtu_probe_size_def c_def L_def)
  note m = mtu_round_Some [OF Some, of cc path pn now, folded c_def L_def c'_def L'_def]
  show ?thesis using n m assms(5-7) by auto
qed

lemma mtu_search_finishes:
  assumes "0 < rc_max_send_udp_payload_size r" "rc_max_send_udp_payload_size r \<le> search_limit (rc_path_mtu r)"
    "rc_max_send_udp_payload_size r \<le> path"
    "search_limit (rc_path_mtu r) - rc_max_send_udp_payload_size r \<le> length rounds"
  shows "let r' = fold (\<lambda>(pn, now). mtu_round cc path pn now) rounds r in
    next_path_mtu_probe_size r' = None \<and> rc_max_send_udp_payload_size r' = min path (search_limit (rc_path_mtu r))"
  using assms
proof (induction rounds arbitrary: r)
  case Nil
  then show ?case using probe_size_between_None by (auto simp: next_path_mtu_probe_size_def Let_def)
next
  case (Cons x rounds)
  obtain pn now where x: "x = (pn, now)" by fastforce
  note s = mtu_round_step [of r path cc pn now, OF Cons.prems(1-3)]
  have "search_limit (rc_path_mtu (mtu_round cc path pn now r)) - rc_max_send_udp_payload_size (mtu_round cc path pn now r) \<le> length rounds"
    using s Cons.prems(2,4) by auto
  then show ?case using Cons.IH [of "mtu_round cc path pn now r"] s by (simp add: x Let_def)
qed

section \<open>ECN feedback\<close>

text \<open>Counts decoded from the wire are below \<open>2 ^ 62\<close>, so the sum of the three increases does not wrap, and the
  packets reported as CE-marked are among the newly acknowledged ECN-capable ones.\<close>

lemma validated_ce_bounded:
  assumes "validate_ack_ecn_and_count_ce space (Some counts) acked nl r = (n, r')"
    and "ect0 counts \<le> MAX_VARINT" "ect1 counts \<le> MAX_VARINT" "ce counts \<le> MAX_VARINT" "length acked < 2 ^ 63"
  shows "unat n \<le> length (filter (\<lambda>p. sp_ecn_marking p \<in> {Some Ect0, Some Ect1}) acked)"
proof -
  let ?p = "case rc_peer_ack_ecn_counts r space of Some c \<Rightarrow> c | None \<Rightarrow> ecn_default"
  let ?a = "ect0 counts - ect0 ?p" and ?b = "ect1 counts - ect1 ?p" and ?c = "ce counts - ce ?p"
  consider "n = 0" | "n = ?c" "ect0 ?p \<le> ect0 counts" "ect1 ?p \<le> ect1 counts" "ce ?p \<le> ce counts"
      "?a + ?b + ?c \<le> marked Ect0 acked + marked Ect1 acked"
    using assms(1) by (auto simp: validate_ack_ecn_and_count_ce_def Let_def not_less split: if_splits option.splits)
  then show ?thesis
  proof cases
    case 2
    have sz: "unat ?a < 2 ^ 62" "unat ?b < 2 ^ 62" "unat ?c < 2 ^ 62"
      using 2(2-4) assms(2-4) by (auto simp: unat_sub word_le_nat_alt MAX_VARINT_eq)
    have add: "unat (x + y) = unat x + unat y" if "unat x < 2 ^ 63" "unat y < 2 ^ 62" for x y :: u64
      using that by (simp add: unat_word_ariths)
    have ab: "unat (?a + ?b) = unat ?a + unat ?b" using sz by (intro add) auto
    then have s: "unat (?a + ?b + ?c) = unat ?a + unat ?b + unat ?c" using sz by (subst add) auto
    have l: "length (filter (\<lambda>p. sp_ecn_marking p = Some e) acked) \<le> length acked" for e by simp
    have m: "unat (marked e acked) = length (filter (\<lambda>p. sp_ecn_marking p = Some e) acked)" for e
      unfolding marked_def using assms(5) by (intro unat_word_of_length le_less_trans [OF l]) simp
    have mm: "unat (marked Ect0 acked + marked Ect1 acked) \<le> unat (marked Ect0 acked) + unat (marked Ect1 acked)"
      by (simp add: unat_word_ariths)
    have f: "length (filter (\<lambda>p. sp_ecn_marking p = Some Ect0) ps) + length (filter (\<lambda>p. sp_ecn_marking p = Some Ect1) ps) =
        length (filter (\<lambda>p. sp_ecn_marking p \<in> {Some Ect0, Some Ect1}) ps)" for ps
      by (induction ps) auto
    have "unat ?a + unat ?b + unat ?c \<le> unat (marked Ect0 acked + marked Ect1 acked)"
      using 2(5) unfolding word_le_nat_alt s .
    then show ?thesis using mm 2(1) f [of acked] by (simp add: m)
  qed simp
qed

section \<open>Packets that are counted but not tracked\<close>

lemma fold_acks_accounted:
  "accounted (cubic cbrt powi3) k r \<Longrightarrow>
   accounted (cubic cbrt powi3) k (fold (\<lambda>(space, ack, now). process_ack_frame (cubic cbrt powi3) space ack now) acks r)"
  by (induction acks arbitrary: r) (auto simp: cu.process_ack_accounted)

text \<open>The bytes of an ACK-only packet are added to the bytes in flight but loss detection does not track the
  packet: whatever the peer acknowledges afterwards, they stay in flight.\<close>

lemma ack_only_bytes_stay:
  assumes "accounted (cubic cbrt powi3) k r" "fresh_packet r p" "bp_congestion_controlled p" "\<not> bp_ack_eliciting p"
  shows "k + length (bp_bytes p) \<le> cc_bytes_in_flight (cubic cbrt powi3) (rc_congestion
    (fold (\<lambda>(space, ack, now). process_ack_frame (cubic cbrt powi3) space ack now) acks
      (record_built_packet (cubic cbrt powi3) ecn now p r)))"
proof -
  have "accounted (cubic cbrt powi3) (k + length (bp_bytes p)) (record_built_packet (cubic cbrt powi3) ecn now p r)"
    using cu.record_built_packet_accounted [OF assms(1,2), of ecn now] assms(3,4) by (simp add: untracked_bytes_def)
  from fold_acks_accounted [OF this, of acks] show ?thesis by (simp add: accounted_def)
qed

section \<open>The scaled ACK delay\<close>

text \<open>The guard of \<open>checked_shl\<close> does not catch lost bits: a large delay is scaled to a small one.\<close>

lemma scaled_ack_delay_wraps: "scaled_ack_delay 3 (2 ^ 61) = 0"
  by (simp add: scaled_ack_delay_def MAX_ACK_DELAY_EXPONENT_def min_def)

section \<open>Properties\<close>


definition example_built :: BuiltPacket where
  "example_built = \<lparr>bp_space = SpApplicationData, bp_pn = 0, bp_frames = [Ping], bp_bytes = [1, 2, 3], bp_ack_eliciting = True,
     bp_track_retransmission = True, bp_congestion_controlled = True, bp_app_kind = Some ApOneRtt\<rparr>"


text \<open>C8: no data is lost with a packet: when an ACK frame makes packets count as lost, all their
  retransmittable frames are appended to the send queue, in order and once each, and nothing else is.\<close>

theorem lost_frames_requeued:
  assumes "wf_loss (rc_loss r)" "probe_expendable r"
    and "on_ack_received space (largest_acknowledged ack)
      (from_micros (scaled_ack_delay (rc_peer_ack_delay_exponent r) (ack_delay ack)))
      (map (\<lambda>x. (ar_start x, ar_end x)) (ack_ranges ack)) now (rc_loss r) = (l, acked, lost)"
  shows "cs_pending_frames (rc_conn (process_ack_frame cc space ack now r)) =
    cs_pending_frames (rc_conn r) @ requeued space (rc_sent_frames r space) lost"
  by (rule process_ack_requeues [OF assms])

definition example_recovery :: "Cubic Recovery" where
  "example_recovery = (recovery_new example_conn cu_new)\<lparr>rc_loss := example_loss,
     rc_sent_frames := (\<lambda>_. [])(SpApplicationData := [(0, [MaxData 9, Ping]), (1, [MaxData 10])])\<rparr>"

theorem lost_frames_requeued_witness:
  "cs_pending_frames (rc_conn (process_ack_frame (cubic id id) SpApplicationData
      \<lparr>largest_acknowledged = 3, ack_delay = 0, ack_ranges = [\<lparr>ar_start = 3, ar_end = 3\<rparr>], ack_ecn = None\<rparr> 10 example_recovery)) =
    [(SpApplicationData, MaxData 9)]"
proof -
  obtain l where "on_ack_received SpApplicationData 3 0 [(3, 3)] 10 example_loss = (l, [example_packet 3], [example_packet 0])"
    using example_ack by (metis prod.collapse)
  moreover have "scaled_ack_delay 3 0 = 0" by (simp add: scaled_ack_delay_def)
  ultimately show ?thesis
    using lost_frames_requeued [of example_recovery SpApplicationData
        "\<lparr>largest_acknowledged = 3, ack_delay = 0, ack_ranges = [\<lparr>ar_start = 3, ar_end = 3\<rparr>], ack_ecn = None\<rparr>" 10 l
        "[example_packet 3]" "[example_packet 0]" "cubic id id"]
    by (simp add: example_recovery_def recovery_new_def example_loss_wf probe_expendable_def path_mtu_new_def from_micros_def
        requeued_def frames_of_def example_packet_def example_conn_def)
qed

text \<open>C18: the path MTU search ends: on a path that carries datagrams of up to \<open>path\<close> bytes, at most as many probes
  as there are candidate sizes leave no further probe to send, and the datagram size in use is then the
  largest one that both the path and the limits of the two endpoints allow.\<close>

theorem mtu_search_terminates:
  assumes "0 < rc_max_send_udp_payload_size r" "rc_max_send_udp_payload_size r \<le> search_limit (rc_path_mtu r)"
    "rc_max_send_udp_payload_size r \<le> path"
    "search_limit (rc_path_mtu r) - rc_max_send_udp_payload_size r \<le> length rounds"
  shows "let r' = fold (\<lambda>(pn, now). mtu_round cc path pn now) rounds r in
    next_path_mtu_probe_size r' = None \<and> rc_max_send_udp_payload_size r' = min path (search_limit (rc_path_mtu r))"
  by (rule mtu_search_finishes [OF assms])

definition example_search :: "Cubic Recovery" where
  "example_search = (recovery_new example_conn cu_new)\<lparr>rc_max_send_udp_payload_size := 1472,
     rc_path_mtu := path_mtu_new\<lparr>peer_max_udp_payload_size := 1475\<rparr>\<rparr>"

theorem mtu_search_terminates_witness:
  "rc_max_send_udp_payload_size (fold (\<lambda>(pn, now). mtu_round (cubic id id) 1474 pn now) [(7, 1), (8, 2), (9, 3)] example_search) = 1474"
  using mtu_search_terminates [of example_search 1474 "[(7, 1), (8, 2), (9, 3)]" "cubic id id"]
  by (simp add: example_search_def path_mtu_new_def search_limit_def MAX_LOCAL_UDP_PAYLOAD_SIZE_def
      DEFAULT_MAX_UDP_PAYLOAD_SIZE_def Let_def)

end
