(* ===== verification/Spec2Isabelle.thy ===== *)
theory Spec2Isabelle
  imports Conn_Recovery
begin

text \<open>
  Verification of the Starfish workspace.
\<close>

end
